(* ===== verification/Prelude.thy ===== *)
theory Prelude
  imports Main "HOL-Library.AList" "HOL-Library.Sublist"
begin

text \<open>
  What the theories of the development share.

  \<^item> Machine integers: a \<open>uint64_t\<close> of the source is a natural number below
    \<open>2 ^ 64\<close>; the operations of the code that can wrap (\<open>++\<close> on a term, \<open>- 1\<close> on an
    index, \<open>+\<close> on ports and counters) are \<open>inc64\<close>, \<open>dec64\<close> and \<open>add64\<close>, with the
    wrap-around written out. \<open>to_string\<close> is their decimal text.
  \<^item> \<open>std::vector\<close> indexing: \<open>vec_at\<close> is \<open>None\<close> out of range, where the C++
    operator has undefined behaviour.
  \<^item> \<open>std::unordered_map\<close>: an association list with one binding per key
    (\<open>AList.update\<close>, \<open>map_of\<close>); the list order is the iteration order, which
    the C++ library leaves unspecified.
  \<^item> Prefix reasoning on lists (\<open>agree k xs ys\<close>), used by the log proofs.
  \<^item> Transition systems with a partial step function and their invariants.
\<close>

section \<open>Definitions\<close>

type_synonym u64 = nat
type_synonym bytes = string
type_synonym ('k, 'v) umap = "('k \<times> 'v) list"

definition inc64 :: "u64 \<Rightarrow> u64" where
  "inc64 n = (n + 1) mod 2 ^ 64"

definition dec64 :: "u64 \<Rightarrow> u64" where
  "dec64 n = (if n = 0 then 2 ^ 64 - 1 else n - 1)"

definition add64 :: "u64 \<Rightarrow> u64 \<Rightarrow> u64" where
  "add64 a b = (a + b) mod 2 ^ 64"

definition vec_at :: "'a list \<Rightarrow> nat \<Rightarrow> 'a option" where
  "vec_at xs i = (if i < length xs then Some (xs ! i) else None)"

text \<open>\<open>std::to_string\<close> on unsigned integers.\<close>

fun to_string :: "nat \<Rightarrow> string" where
  "to_string n =
     (if n < 10 then [char_of (48 + n)] else to_string (n div 10) @ [char_of (48 + n mod 10)])"

declare to_string.simps [simp del]

text \<open>\<open>agree k xs ys\<close>: both lists have at least \<open>k\<close> elements and the same first \<open>k\<close>.\<close>

definition agree :: "nat \<Rightarrow> 'a list \<Rightarrow> 'a list \<Rightarrow> bool" where
  "agree k xs ys \<longleftrightarrow> k \<le> length xs \<and> k \<le> length ys \<and> take k xs = take k ys"

named_theorems u64_simps \<open>the wrap-around operations inside their range\<close>
named_theorems agree_intros \<open>ways to establish a common prefix\<close>

section \<open>Machine integers and vectors\<close>

lemma inc64_no_wrap [u64_simps]: "n + 1 < 2 ^ 64 \<Longrightarrow> inc64 n = n + 1"
  by (simp add: inc64_def)

lemma inc64_wraps: "inc64 (2 ^ 64 - 1) = 0"
  by (simp add: inc64_def)

lemma inc64_bound: "inc64 n < 2 ^ 64"
  by (simp add: inc64_def)

lemma dec64_pos [u64_simps]: "0 < n \<Longrightarrow> dec64 n = n - 1"
  by (simp add: dec64_def)

lemma vec_at_Some_iff [simp]: "vec_at xs i = Some x \<longleftrightarrow> i < length xs \<and> xs ! i = x"
  by (auto simp: vec_at_def)

lemma vec_at_None_iff [simp]: "vec_at xs i = None \<longleftrightarrow> length xs \<le> i"
  by (auto simp: vec_at_def)

lemma vec_at_in_range: "i < length xs \<Longrightarrow> vec_at xs i = Some (xs ! i)"
  by simp

lemma sum_add64: "fold (\<lambda>n m. add64 m n) ns a mod 2 ^ 64 = (a + sum_list ns) mod 2 ^ 64"
proof (induction ns arbitrary: a)
  case (Cons n ns)
  have "(add64 a n + sum_list ns) mod 2 ^ 64 = (a + sum_list (n # ns)) mod 2 ^ 64"
    by (simp add: add64_def mod_add_left_eq add.assoc)
  with Cons show ?case by simp
qed simp

section \<open>Decimal numbers\<close>

lemma to_string_ne [simp]: "to_string n \<noteq> []"
  by (subst to_string.simps) simp

lemma digit_inj: "a < 10 \<Longrightarrow> b < 10 \<Longrightarrow> (char_of (48 + a) :: char) = char_of (48 + b) \<longleftrightarrow> a = (b :: nat)"
  by (auto dest: arg_cong [where f = "of_char :: char \<Rightarrow> nat"])

lemma to_string_length: "length (to_string n) = 1 \<longleftrightarrow> n < 10"
  by (subst to_string.simps) simp

lemma to_string_split:
  "10 \<le> n \<Longrightarrow> butlast (to_string n) = to_string (n div 10) \<and> last (to_string n) = char_of (48 + n mod 10)"
  by (subst (1 2) to_string.simps) simp

lemma to_string_inj: "to_string m = to_string n \<Longrightarrow> m = n"
proof (induction m arbitrary: n rule: less_induct)
  case (less m)
  show ?case
  proof (cases "m < 10")
    case True
    with less.prems have "n < 10" by (metis to_string_length)
    with True less.prems show ?thesis by (simp add: to_string.simps [of m] to_string.simps [of n] digit_inj)
  next
    case False
    with less.prems have n: "\<not> n < 10" by (metis to_string_length)
    with False less.prems have "to_string (m div 10) = to_string (n div 10)"
      "(char_of (48 + m mod 10) :: char) = char_of (48 + n mod 10)"
      by (metis to_string_split not_less)+
    with less.IH [of "m div 10" "n div 10"] False have "m div 10 = n div 10" "m mod 10 = n mod 10"
      by (simp_all add: digit_inj)
    then show ?thesis by (metis div_mult_mod_eq)
  qed
qed

lemma to_string_eq_iff [simp]: "to_string m = to_string n \<longleftrightarrow> m = n"
  using to_string_inj by blast

lemma digit_code: "k < 10 \<Longrightarrow> (of_char (char_of (48 + k) :: char) :: nat) = 48 + k"
  by simp

lemma to_string_digits: "c \<in> set (to_string n) \<Longrightarrow> 48 \<le> (of_char c :: nat) \<and> (of_char c :: nat) \<le> 57"
proof (induction n rule: to_string.induct)
  case (1 n)
  have "c = char_of (48 + n) \<and> n < 10 \<or> \<not> n < 10 \<and> c \<in> set (to_string (n div 10)) \<or> c = char_of (48 + n mod 10)"
    using 1(2) by (auto simp: to_string.simps [of n] split: if_splits)
  with 1(1) digit_code [of n] digit_code [of "n mod 10"] show ?case by fastforce
qed

section \<open>Common prefixes\<close>

lemma agree_refl [agree_intros]: "k \<le> length xs \<Longrightarrow> agree k xs xs"
  by (simp add: agree_def)

lemma agree_0 [simp]: "agree 0 xs ys"
  by (simp add: agree_def)

lemma agree_sym: "agree k xs ys \<Longrightarrow> agree k ys xs"
  by (simp add: agree_def)

lemma agree_trans: "agree k xs ys \<Longrightarrow> agree k ys zs \<Longrightarrow> agree k xs zs"
  by (simp add: agree_def)

lemma agree_mono: "agree k xs ys \<Longrightarrow> j \<le> k \<Longrightarrow> agree j xs ys"
  unfolding agree_def by (metis le_trans min.absorb1 take_take)

lemma agree_lengths: "agree k xs ys \<Longrightarrow> k \<le> length xs \<and> k \<le> length ys"
  by (simp add: agree_def)

lemma agree_nth: "agree k xs ys \<Longrightarrow> i < k \<Longrightarrow> xs ! i = ys ! i"
  unfolding agree_def by (metis nth_take)

lemma agreeI_nth:
  assumes "k \<le> length xs" "k \<le> length ys" "\<And>i. i < k \<Longrightarrow> xs ! i = ys ! i"
  shows "agree k xs ys"
  using assms by (auto simp: agree_def intro!: nth_equalityI)

lemma agree_append [simp]: "k \<le> length xs \<Longrightarrow> agree k (xs @ ys) zs \<longleftrightarrow> agree k xs zs"
  by (auto simp: agree_def)

lemma agree_append2 [simp]: "k \<le> length ys \<Longrightarrow> agree k xs (ys @ zs) \<longleftrightarrow> agree k xs ys"
  by (auto simp: agree_def)

lemma agree_take [simp]: "k \<le> m \<Longrightarrow> agree k (take m xs) ys \<longleftrightarrow> agree k xs ys"
  by (auto simp: agree_def min_def)

lemma agree_take2 [simp]: "k \<le> m \<Longrightarrow> agree k xs (take m ys) \<longleftrightarrow> agree k xs ys"
  by (auto simp: agree_def min_def)

lemma agree_linear:
  assumes "agree j xs zs" "agree k ys zs"
  shows "agree (min j k) xs ys"
proof -
  have "agree (min j k) xs zs" using assms(1) by (rule agree_mono) simp
  moreover have "agree (min j k) zs ys" using assms(2) by (blast intro: agree_mono agree_sym min.cobounded2)
  ultimately show ?thesis by (rule agree_trans)
qed

section \<open>Association lists\<close>

lemma map_of_update [simp]: "map_of (AList.update k v al) = (map_of al)(k \<mapsto> v)"
  by (rule update_conv')

lemma set_update_cases:
  "(j, w) \<in> set (AList.update k v al) \<Longrightarrow> (j, w) = (k, v) \<or> (j, w) \<in> set al"
  by (induction al) (auto split: if_splits)

lemma fst_set_update: "fst ` set (AList.update k v al) = insert k (fst ` set al)"
  by (simp add: dom_update)

section \<open>Transition systems with a step function\<close>

text \<open>
  The interface through which the properties of the state machines of the development
  are proved: a start state, a partial step function on labels, the labels admitted in a
  run, and what is to be kept. \<open>reach_inv\<close> is the only induction over runs.
\<close>

inductive reach :: "('s \<Rightarrow> bool) \<Rightarrow> ('s \<Rightarrow> 'l \<Rightarrow> 's \<Rightarrow> bool) \<Rightarrow> 's \<Rightarrow> bool"
  for start step where
  reach_start: "start s \<Longrightarrow> reach start step s"
| reach_step: "reach start step s \<Longrightarrow> step s l s' \<Longrightarrow> reach start step s'"

text \<open>A run of a step function: a list of labels, all of them possible.\<close>

fun run_steps :: "('l \<Rightarrow> 's \<Rightarrow> 's option) \<Rightarrow> 'l list \<Rightarrow> 's \<Rightarrow> 's option" where
  "run_steps f [] s = Some s"
| "run_steps f (l # ls) s = (case f l s of None \<Rightarrow> None | Some s' \<Rightarrow> run_steps f ls s')"

lemma case_option_ex: "(case m of None \<Rightarrow> False | Some x \<Rightarrow> P x) \<Longrightarrow> \<exists>x. m = Some x \<and> P x"
  by (cases m) auto

lemma run_steps_append:
  "run_steps f (es @ fs) s = (case run_steps f es s of None \<Rightarrow> None | Some s' \<Rightarrow> run_steps f fs s')"
  by (induction es arbitrary: s) (auto split: option.splits)

lemma run_steps_reach:
  assumes "run_steps f ls s = Some s'" "reach start step s"
    and "\<And>s l s'. l \<in> set ls \<Longrightarrow> f l s = Some s' \<Longrightarrow> step s l s'"
  shows "reach start step s'"
  using assms
proof (induction ls arbitrary: s)
  case (Cons l ls)
  from Cons.prems(1) obtain s1 where s1: "f l s = Some s1" "run_steps f ls s1 = Some s'"
    by (auto split: option.splits)
  from reach_step [OF Cons.prems(2) Cons.prems(3) [OF _ s1(1)]] have "reach start step s1" by simp
  from Cons.IH [OF s1(2) this] Cons.prems(3) show ?case by simp
qed simp

locale transition_invariant =
  fixes start :: "'s \<Rightarrow> bool" and step :: "'s \<Rightarrow> 'l \<Rightarrow> 's \<Rightarrow> bool" and inv :: "'s \<Rightarrow> bool"
  assumes inv_start: "start s \<Longrightarrow> inv s"
    and inv_step: "inv s \<Longrightarrow> step s l s' \<Longrightarrow> inv s'"
begin

lemma reach_inv: "reach start step s \<Longrightarrow> inv s"
  by (induction rule: reach.induct) (blast intro: inv_start inv_step)+

end

end
