(* ===== verification/Raft_Types.thy ===== *)
theory Raft_Types
  imports Prelude
begin

text \<open>
  The data of the consensus component: the structs of \<open>src/inc/common/common.hpp\<close>, the
  messages of \<open>src/proto/raft.proto\<close> as \<open>src/src/raft.cpp\<close> uses them, and the fields
  of class \<open>Raft\<close> of \<open>src/inc/rafty/raft.hpp\<close>.

  Field names are those of the source without their trailing underscore (\<open>log_\<close> is
  \<open>rlog\<close>, \<open>id\<close> is \<open>node_id\<close>); a message field that occurs in several messages
  carries its message's initials. Time points are nanoseconds of the steady clock
  (\<open>int\<close>), election timeouts are milliseconds. \<open>peers\<close> is the map from peer ids to
  stubs, of which only the key and whether the stub pointer is set matter to the code.
  \<open>ready_out\<close> is the sequence of values handed to \<open>ready_queue.enqueue\<close>.
\<close>

section \<open>Structs of common.hpp\<close>

record ProposalResult =
  pr_index :: u64
  pr_term :: u64
  pr_is_leader :: bool

record ApplyResult =
  ar_valid :: bool
  ar_data :: bytes
  ar_index :: u64

record State =
  st_term :: u64
  st_is_leader :: bool

section \<open>Messages of raft.proto\<close>

record Entry =
  e_term :: u64
  e_command :: bytes

record AppendEntriesRequest =
  ae_term :: u64
  ae_leaderId :: u64
  ae_prevLogIndex :: u64
  ae_prevLogTerm :: u64
  ae_entries :: "Entry list"
  ae_leaderCommit :: u64

record AppendEntriesReply =
  aer_term :: u64
  aer_success :: bool

record RequestVoteReq =
  rv_term :: u64
  rv_candidateId :: u64
  rv_lastLogIndex :: u64
  rv_lastLogTerm :: u64

record RequestVoteReply =
  rvr_term :: u64
  rvr_voteGranted :: bool

section \<open>The fields of class Raft\<close>

datatype Role = FOLLOWER | CANDIDATE | LEADER

record Raft =
  role :: Role
  current_term :: u64
  voted_for :: "u64 option"
  election_timeout :: nat
  lease_granted_at :: int
  last_majority_at :: int
  is_leader_atomic :: bool
  lease_expires_ns :: int
  last_term_commit_idx :: u64
  node_id :: u64
  peers :: "(u64, bool) umap"
  received_heartbeat :: bool
  dead :: bool
  rlog :: "Entry list"
  commit_index :: u64
  last_applied :: u64
  nextIndex :: "(u64, u64) umap"
  matchIndex :: "(u64, u64) umap"
  ready_out :: "ApplyResult list"

text \<open>The constants of the class: the lease duration, in nanoseconds of the steady clock.\<close>

definition kLeaseDuration :: int where
  "kLeaseDuration = 250 * 1000000"

text \<open>A duration in milliseconds as the nanosecond count the clock compares it in.\<close>

definition ms_to_ns :: "nat \<Rightarrow> int" where
  "ms_to_ns m = int m * 1000000"

section \<open>The last entry of a log\<close>

text \<open>
  The term of the last entry, the second component of the up-to-date comparison; an empty
  log has term 0 (\<open>log_.empty() ? 0 : log_.back().term()\<close>).
\<close>

definition last_log_term :: "Entry list \<Rightarrow> u64" where
  "last_log_term l = (if l = [] then 0 else e_term (last l))"

lemma last_log_term_Nil [simp]: "last_log_term [] = 0"
  by (simp add: last_log_term_def)

lemma last_log_term_snoc [simp]: "last_log_term (l @ [e]) = e_term e"
  by (simp add: last_log_term_def)

lemma last_log_term_nth: "l \<noteq> [] \<Longrightarrow> last_log_term l = e_term (l ! (length l - 1))"
  by (simp add: last_log_term_def last_conv_nth)

lemma last_log_term_take:
  "0 < k \<Longrightarrow> k \<le> length l \<Longrightarrow> last_log_term (take k l) = e_term (l ! (k - 1))"
  by (auto simp: last_log_term_def last_conv_nth min_def)

end
