(* ===== verification/Raft_Run.thy ===== *)
theory Raft_Run
  imports Raft_Node
begin

text \<open>
  The run thread of a node: the critical sections of \<open>Raft::run\<close> and
  \<open>Raft::send_heartbeats\<close> (\<open>src/src/raft.cpp\<close>), one definition per section.

  \<^item> \<open>run_top\<close>, \<open>wait_over\<close>, \<open>election_check\<close>, \<open>request_vote_msg\<close>,
    \<open>stale_term\<close>, \<open>election_result\<close>, \<open>become_leader\<close>: the election side;
  \<^item> \<open>hb_build\<close>: the first section of \<open>send_heartbeats\<close>, which builds one
    AppendEntries request per peer;
  \<^item> \<open>hb_results\<close>, \<open>commit_scan\<close>, \<open>hb_lease\<close>, \<open>hb_finish\<close>: the second
    section, which digests the replies, advances the commit index, collects what is to be
    applied and renews or gives up the lease.

  The lemmas describe the requests that are built (a slice of the leader's log starting at
  the peer's next index), the commit scan (the largest index of the current term that a
  majority holds) and what each section leaves unchanged.
\<close>

section \<open>Definitions\<close>

record PeerReq =
  preq_peer_id :: u64
  preq_request :: AppendEntriesRequest
  preq_prev_idx :: u64
  preq_entries_sent :: u64

record PeerResult =
  res_peer_id :: u64
  res_prev_idx :: u64
  res_entries_sent :: u64
  res_reply :: AppendEntriesReply
  res_rpc_ok :: bool

subsection \<open>The election side of run\<close>

definition run_top :: "Raft \<Rightarrow> Raft" where
  "run_top s = (if role s = LEADER then s else s\<lparr>received_heartbeat := False\<rparr>)"

text \<open>The two exits of the waiting loop.\<close>

definition wait_over :: "int \<Rightarrow> int \<Rightarrow> Raft \<Rightarrow> bool" where
  "wait_over begun now s \<longleftrightarrow>
     received_heartbeat s \<or> now - begun \<ge> ms_to_ns (election_timeout s)"

definition election_check :: "nat \<Rightarrow> Raft \<Rightarrow> bool \<times> Raft" where
  "election_check draw s =
     (if \<not> received_heartbeat s \<and> role s \<noteq> LEADER
      then (True, reset_election_timer draw
                    (s\<lparr>role := CANDIDATE, current_term := inc64 (current_term s),
                       voted_for := Some (node_id s)\<rparr>))
      else (False, s))"

text \<open>
  The request to one peer. The four fields are read without the lock, at different times:
  the term first, then the log length, then the last entry's term.
\<close>

definition request_vote_msg :: "u64 \<Rightarrow> u64 \<Rightarrow> u64 \<Rightarrow> u64 \<Rightarrow> RequestVoteReq" where
  "request_vote_msg t i lastIdx lastTerm =
     \<lparr>rv_term = t, rv_candidateId = i, rv_lastLogIndex = lastIdx, rv_lastLogTerm = lastTerm\<rparr>"

text \<open>
  The section entered when \<open>reply.term() > my_term\<close>, where \<open>my_term\<close> was read in an
  earlier section: the assignment is unconditional.
\<close>

definition stale_term :: "nat \<Rightarrow> RequestVoteReply \<Rightarrow> Raft \<Rightarrow> Raft" where
  "stale_term draw rep s =
     reset_election_timer draw
       (s\<lparr>current_term := rvr_term rep, role := FOLLOWER, voted_for := None\<rparr>)"

definition election_result :: "nat \<Rightarrow> u64 \<Rightarrow> Raft \<Rightarrow> bool \<times> Raft" where
  "election_result draw votes s =
     (if role s = CANDIDATE \<and> votes \<ge> majority s then (True, s\<lparr>role := LEADER\<rparr>)
      else if role s = CANDIDATE then (False, reset_election_timer draw (s\<lparr>role := FOLLOWER\<rparr>))
      else (False, s))"

definition become_leader :: "int \<Rightarrow> Raft \<Rightarrow> Raft" where
  "become_leader now s =
     (let s1 = fold (\<lambda>(p, _) r. r\<lparr>nextIndex := AList.update p (length (rlog r) + 1) (nextIndex r),
                                  matchIndex := AList.update p 0 (matchIndex r)\<rparr>)
                    (peers s) s
      in s1\<lparr>last_majority_at := now, is_leader_atomic := True\<rparr>)"

subsection \<open>The first section of send_heartbeats\<close>

definition hb_request :: "Raft \<Rightarrow> u64 \<Rightarrow> u64 \<Rightarrow> AppendEntriesRequest" where
  "hb_request s prevIdx prevTerm =
     \<lparr>ae_term = current_term s, ae_leaderId = node_id s, ae_prevLogIndex = prevIdx,
      ae_prevLogTerm = prevTerm, ae_entries = drop prevIdx (rlog s),
      ae_leaderCommit = commit_index s\<rparr>"

definition hb_next :: "u64 \<Rightarrow> Raft \<Rightarrow> Raft" where
  "hb_next p s =
     (if map_of (nextIndex s) p = None
      then s\<lparr>nextIndex := AList.update p (length (rlog s) + 1) (nextIndex s)\<rparr> else s)"

definition umap_get :: "(u64, u64) umap \<Rightarrow> u64 \<Rightarrow> u64" where
  "umap_get m k = (case map_of m k of None \<Rightarrow> 0 | Some v \<Rightarrow> v)"

fun hb_build_loop :: "(u64, bool) umap \<Rightarrow> Raft \<Rightarrow> (PeerReq list \<times> Raft) option" where
  "hb_build_loop [] s = Some ([], s)"
| "hb_build_loop ((p, stub) # ps) s =
     (if \<not> stub then hb_build_loop ps s
      else
        let s1 = hb_next p s;
            nextIdx = umap_get (nextIndex s1) p;
            prevIdx = dec64 nextIdx
        in case (if prevIdx = 0 then Some 0
                 else map_option e_term (vec_at (rlog s1) (prevIdx - 1))) of
             None \<Rightarrow> None
           | Some prevTerm \<Rightarrow>
               let req = hb_request s1 prevIdx prevTerm in
               map_option
                 (\<lambda>(rs, s2). (\<lparr>preq_peer_id = p, preq_request = req, preq_prev_idx = prevIdx,
                               preq_entries_sent = length (ae_entries req)\<rparr> # rs, s2))
                 (hb_build_loop ps s1))"

text \<open>\<open>Some (None, s)\<close>: not the leader, the function returns at once.\<close>

definition hb_build :: "Raft \<Rightarrow> (PeerReq list option \<times> Raft) option" where
  "hb_build s =
     (if role s \<noteq> LEADER then Some (None, s)
      else map_option (\<lambda>(rs, s'). (Some rs, s')) (hb_build_loop (peers s) s))"

subsection \<open>The second section of send_heartbeats\<close>

definition hb_success :: "PeerResult \<Rightarrow> Raft \<Rightarrow> Raft" where
  "hb_success r s =
     s\<lparr>matchIndex := AList.update (res_peer_id r) (res_prev_idx r + res_entries_sent r)
                       (matchIndex s),
       nextIndex := AList.update (res_peer_id r) (res_prev_idx r + res_entries_sent r + 1)
                      (nextIndex s)\<rparr>"

text \<open>\<open>if (nextIndex_[p] > 1) nextIndex_[p]--\<close>; \<open>operator[]\<close> adds a missing key with 0.\<close>

definition hb_failure :: "PeerResult \<Rightarrow> Raft \<Rightarrow> Raft" where
  "hb_failure r s =
     (let p = res_peer_id r; x = umap_get (nextIndex s) p
      in s\<lparr>nextIndex := AList.update p (if x > 1 then x - 1 else x) (nextIndex s)\<rparr>)"

text \<open>\<open>Inl\<close>: a reply carried a newer term, the node stepped down and the function returned.\<close>

fun hb_results :: "nat \<Rightarrow> PeerResult list \<Rightarrow> u64 \<Rightarrow> Raft \<Rightarrow> Raft + (u64 \<times> Raft)" where
  "hb_results draw [] confirmations s = Inr (confirmations, s)"
| "hb_results draw (r # rs) confirmations s =
     (if \<not> res_rpc_ok r then hb_results draw rs confirmations s
      else if aer_term (res_reply r) > current_term s
      then Inl (reset_election_timer draw
                 (s\<lparr>current_term := aer_term (res_reply r), role := FOLLOWER,
                    voted_for := None, is_leader_atomic := False\<rparr>))
      else hb_results draw rs
             (if aer_term (res_reply r) = current_term s then confirmations + 1
              else confirmations)
             (if aer_success (res_reply r) then hb_success r s else hb_failure r s))"

definition match_count :: "(u64, u64) umap \<Rightarrow> u64 \<Rightarrow> nat" where
  "match_count m idx = 1 + length (filter (\<lambda>(_, matchIdx). matchIdx \<ge> idx) m)"

text \<open>The scan \<open>for (idx = log_.size(); idx > commit_index_; --idx)\<close>.\<close>

fun commit_scan :: "Raft \<Rightarrow> nat \<Rightarrow> u64" where
  "commit_scan s idx =
     (if idx > commit_index s then
        (if e_term (rlog s ! (idx - 1)) \<noteq> current_term s then commit_scan s (idx - 1)
         else if match_count (matchIndex s) idx \<ge> majority s then idx
         else commit_scan s (idx - 1))
      else commit_index s)"

declare commit_scan.simps [simp del]

definition hb_lease :: "int \<Rightarrow> nat \<Rightarrow> u64 \<Rightarrow> Raft \<Rightarrow> Raft option" where
  "hb_lease now draw confirmations s =
     (if confirmations \<ge> majority s then
        (let s1 = s\<lparr>lease_granted_at := now, last_majority_at := now,
                    lease_expires_ns := now + kLeaseDuration\<rparr>
         in if commit_index s1 > 0 then
              map_option
                (\<lambda>e. if e_term e = current_term s1
                     then s1\<lparr>last_term_commit_idx := commit_index s1\<rparr> else s1)
                (vec_at (rlog s1) (commit_index s1 - 1))
            else Some s1)
      else if now - last_majority_at s > ms_to_ns (election_timeout s)
      then Some (reset_election_timer draw
                   (s\<lparr>role := FOLLOWER, voted_for := None, is_leader_atomic := False\<rparr>))
      else Some s)"

text \<open>The results to apply are returned: the code applies them after it has unlocked.\<close>

definition hb_finish ::
  "int \<Rightarrow> nat \<Rightarrow> PeerResult list \<Rightarrow> Raft \<Rightarrow> (ApplyResult list \<times> Raft) option" where
  "hb_finish now draw results s =
     (if role s \<noteq> LEADER then Some ([], s)
      else case hb_results draw results 1 s of
          Inl s1 \<Rightarrow> Some ([], s1)
        | Inr (confirmations, s1) \<Rightarrow>
            (let s2 = s1\<lparr>commit_index := commit_scan s1 (length (rlog s1))\<rparr>
             in case apply_loop (rlog s2) (last_applied s2) (commit_index s2) of
                  None \<Rightarrow> None
                | Some to_apply \<Rightarrow>
                    map_option (Pair to_apply)
                      (hb_lease now draw confirmations
                        (s2\<lparr>last_applied := max (last_applied s2) (commit_index s2)\<rparr>))))"

section \<open>Building the requests\<close>

text \<open>Next indices stay between 1 and one past the log's end: no request reads out of range.\<close>

definition next_ok :: "Raft \<Rightarrow> bool" where
  "next_ok s \<longleftrightarrow> (\<forall>(p, x) \<in> set (nextIndex s). 1 \<le> x \<and> x \<le> length (rlog s) + 1)"

text \<open>A built request: the leader's log from some position on, and the term before it.\<close>

definition req_ok :: "Raft \<Rightarrow> PeerReq \<Rightarrow> bool" where
  "req_ok s r \<longleftrightarrow>
     (let k = preq_prev_idx r in
      preq_peer_id r \<in> fst ` set (peers s) \<and> k \<le> length (rlog s) \<and>
      preq_request r = hb_request s k (last_log_term (take k (rlog s))) \<and>
      preq_entries_sent r = length (rlog s) - k)"

lemma next_okD: "next_ok s \<Longrightarrow> map_of (nextIndex s) p = Some x \<Longrightarrow> 1 \<le> x \<and> x \<le> length (rlog s) + 1"
  by (fastforce simp: next_ok_def dest: map_of_SomeD)

lemma next_ok_update:
  "next_ok s \<Longrightarrow> 1 \<le> x \<Longrightarrow> x \<le> length (rlog s) + 1 \<Longrightarrow>
   next_ok (s\<lparr>nextIndex := AList.update p x (nextIndex s)\<rparr>)"
  by (auto simp: next_ok_def dest!: set_update_cases)

lemma hb_next_ok: "next_ok s \<Longrightarrow> next_ok (hb_next p s)"
  by (simp add: hb_next_def next_ok_update)

lemma hb_next_get:
  "next_ok s \<Longrightarrow>
   1 \<le> umap_get (nextIndex (hb_next p s)) p \<and>
   umap_get (nextIndex (hb_next p s)) p \<le> length (rlog s) + 1"
  by (auto simp: hb_next_def umap_get_def dest: next_okD split: option.splits)

lemma hb_next_frame [simp]:
  "rlog (hb_next p s) = rlog s" "current_term (hb_next p s) = current_term s"
  "node_id (hb_next p s) = node_id s" "commit_index (hb_next p s) = commit_index s"
  "peers (hb_next p s) = peers s"
  by (simp_all add: hb_next_def)

lemma hb_next_eq: "\<exists>n. hb_next p s = s\<lparr>nextIndex := n\<rparr>"
  by (auto simp: hb_next_def intro: exI [of _ "nextIndex s"])

lemma hb_request_next [simp]: "hb_request (hb_next p s) k t = hb_request s k t"
  by (simp add: hb_request_def)

lemma req_ok_next [simp]: "req_ok (hb_next p s) r = req_ok s r"
  by (simp add: req_ok_def)

lemma hb_build_loop_Cons:
  assumes "next_ok s" "hb_build_loop ps (hb_next p s) = Some (rs, s')"
  obtains k where "k \<le> length (rlog s)"
    "hb_build_loop ((p, True) # ps) s =
       Some (\<lparr>preq_peer_id = p, preq_request = hb_request s k (last_log_term (take k (rlog s))),
               preq_prev_idx = k, preq_entries_sent = length (rlog s) - k\<rparr> # rs, s')"
proof -
  define k where "k = dec64 (umap_get (nextIndex (hb_next p s)) p)"
  from hb_next_get [OF assms(1), of p] have k: "k \<le> length (rlog s)"
    unfolding k_def by (simp add: dec64_pos le_diff_conv)
  have t: "(if k = 0 then Some 0 else map_option e_term (vec_at (rlog s) (k - 1)))
      = Some (last_log_term (take k (rlog s)))"
    using k by (auto simp add: vec_at_def last_log_term_take)
  have "length (ae_entries (hb_request s k t)) = length (rlog s) - k" for t
    by (simp add: hb_request_def)
  then have "hb_build_loop ((p, True) # ps) s =
       Some (\<lparr>preq_peer_id = p, preq_request = hb_request s k (last_log_term (take k (rlog s))),
               preq_prev_idx = k, preq_entries_sent = length (rlog s) - k\<rparr> # rs, s')"
    unfolding hb_build_loop.simps Let_def k_def [symmetric] hb_next_frame t option.case
      hb_request_next assms(2) by simp
  with k that show ?thesis by blast
qed

lemma hb_build_loop_ok:
  assumes "next_ok s" "fst ` set ps \<subseteq> fst ` set (peers s)"
  shows "\<exists>rs n. hb_build_loop ps s = Some (rs, s\<lparr>nextIndex := n\<rparr>) \<and>
           next_ok (s\<lparr>nextIndex := n\<rparr>) \<and> (\<forall>r \<in> set rs. req_ok s r)"
  using assms
proof (induction ps arbitrary: s)
  case Nil
  from Nil.prems(1) show ?case by (intro exI [of _ "[]"] exI [of _ "nextIndex s"]) simp
next
  case (Cons a ps)
  obtain p stub where a: "a = (p, stub)" by force
  from Cons.prems(2) a have sub: "fst ` set ps \<subseteq> fst ` set (peers s)" "p \<in> fst ` set (peers s)"
    by auto
  show ?case
  proof (cases stub)
    case False
    with Cons.IH [OF Cons.prems(1) sub(1)] a show ?thesis by simp
  next
    case True
    from sub(1) have "fst ` set ps \<subseteq> fst ` set (peers (hb_next p s))" by simp
    from Cons.IH [OF hb_next_ok [OF Cons.prems(1)] this] obtain rs n where
      IH: "hb_build_loop ps (hb_next p s) = Some (rs, (hb_next p s)\<lparr>nextIndex := n\<rparr>)"
      "next_ok ((hb_next p s)\<lparr>nextIndex := n\<rparr>)" "\<forall>r \<in> set rs. req_ok (hb_next p s) r"
      by (elim exE conjE) (rule that)
    have eq: "(hb_next p s)\<lparr>nextIndex := n\<rparr> = s\<lparr>nextIndex := n\<rparr>"
      by (simp add: hb_next_def)
    obtain k where k: "k \<le> length (rlog s)" and b: "hb_build_loop ((p, True) # ps) s =
       Some (\<lparr>preq_peer_id = p, preq_request = hb_request s k (last_log_term (take k (rlog s))),
               preq_prev_idx = k, preq_entries_sent = length (rlog s) - k\<rparr> # rs, s\<lparr>nextIndex := n\<rparr>)"
      using hb_build_loop_Cons [OF Cons.prems(1) IH(1) [unfolded eq]] .
    have "req_ok s \<lparr>preq_peer_id = p, preq_request = hb_request s k (last_log_term (take k (rlog s))),
               preq_prev_idx = k, preq_entries_sent = length (rlog s) - k\<rparr>" (is "req_ok s ?r")
      using k sub(2) by (simp add: req_ok_def)
    then have "\<forall>r \<in> set (?r # rs). req_ok s r" using IH(3) by simp
    moreover have "a = (p, True)" using a True by simp
    ultimately show ?thesis using b IH(2) [unfolded eq]
      by (intro exI [of _ "?r # rs"] exI [of _ n] conjI) simp_all
  qed
qed

lemma hb_build_ok:
  assumes "next_ok s" "role s = LEADER"
  obtains rs n where "hb_build s = Some (Some rs, s\<lparr>nextIndex := n\<rparr>)"
    "next_ok (s\<lparr>nextIndex := n\<rparr>)" "\<forall>r \<in> set rs. req_ok s r"
  using hb_build_loop_ok [OF assms(1) order.refl] assms(2) by (auto simp: hb_build_def)

lemma hb_build_not_leader: "role s \<noteq> LEADER \<Longrightarrow> hb_build s = Some (None, s)"
  by (simp add: hb_build_def)

section \<open>Becoming leader\<close>

lemma become_leader_fold:
  "fold (\<lambda>(p, _) r. r\<lparr>nextIndex := AList.update p (length (rlog r) + 1) (nextIndex r),
                      matchIndex := AList.update p 0 (matchIndex r)\<rparr>) ps s =
   s\<lparr>nextIndex := fold (\<lambda>(p, _). AList.update p (length (rlog s) + 1)) ps (nextIndex s),
     matchIndex := fold (\<lambda>(p, _). AList.update p 0) ps (matchIndex s)\<rparr>"
  by (induction ps arbitrary: s) auto

lemma map_of_fold_update:
  "map_of (fold (\<lambda>(p, _). AList.update p v) ps m) k =
     (if k \<in> fst ` set ps then Some v else map_of m k)"
  by (induction ps arbitrary: m) auto

lemma keys_fold_update:
  "fst ` set (fold (\<lambda>(p, _). AList.update p v) ps m) = fst ` set ps \<union> fst ` set m"
  by (induction ps arbitrary: m) (simp_all add: fst_set_update split_def)

lemma distinct_fold_update:
  "distinct (map fst m) \<Longrightarrow> distinct (map fst (fold (\<lambda>(p, _). AList.update p v) ps m))"
  by (induction ps arbitrary: m) (auto simp: distinct_update)

lemma fold_update_all:
  assumes "distinct (map fst m)" "fst ` set m \<subseteq> fst ` set ps"
    and "(k, x) \<in> set (fold (\<lambda>(p, _). AList.update p v) ps m)"
  shows "x = v"
proof -
  from assms(3) have "k \<in> fst ` set (fold (\<lambda>(p, _). AList.update p v) ps m)" by force
  with assms(2) have "k \<in> fst ` set ps" unfolding keys_fold_update by blast
  moreover have "map_of (fold (\<lambda>(p, _). AList.update p v) ps m) k = Some x"
    using assms(1,3) by (simp add: distinct_fold_update)
  ultimately show ?thesis by (simp add: map_of_fold_update)
qed

lemma become_leader_simps [simp]:
  "role (become_leader now s) = role s" "current_term (become_leader now s) = current_term s"
  "voted_for (become_leader now s) = voted_for s" "rlog (become_leader now s) = rlog s"
  "commit_index (become_leader now s) = commit_index s"
  "last_applied (become_leader now s) = last_applied s"
  "ready_out (become_leader now s) = ready_out s" "node_id (become_leader now s) = node_id s"
  "peers (become_leader now s) = peers s" "is_leader_atomic (become_leader now s)"
  "nextIndex (become_leader now s) =
     fold (\<lambda>(p, _). AList.update p (length (rlog s) + 1)) (peers s) (nextIndex s)"
  "matchIndex (become_leader now s) = fold (\<lambda>(p, _). AList.update p 0) (peers s) (matchIndex s)"
  unfolding become_leader_def become_leader_fold Let_def by simp_all

section \<open>Digesting the replies\<close>

text \<open>
  The induction over the replies: what every successful and every failed reply keeps holds
  at the end, and held just before a step-down.
\<close>

definition hb_step_down :: "nat \<Rightarrow> u64 \<Rightarrow> Raft \<Rightarrow> Raft" where
  "hb_step_down draw t s =
     reset_election_timer draw
       (s\<lparr>current_term := t, role := FOLLOWER, voted_for := None, is_leader_atomic := False\<rparr>)"

lemma hb_results_inv:
  assumes "I s"
    and "\<And>r s. r \<in> set rs \<Longrightarrow> res_rpc_ok r \<Longrightarrow> aer_success (res_reply r) \<Longrightarrow> I s \<Longrightarrow> I (hb_success r s)"
    and "\<And>r s. r \<in> set rs \<Longrightarrow> res_rpc_ok r \<Longrightarrow> I s \<Longrightarrow> I (hb_failure r s)"
  shows "case hb_results d rs k s of
      Inl s1 \<Rightarrow> \<exists>s0 r. I s0 \<and> r \<in> set rs \<and> current_term s0 < aer_term (res_reply r) \<and>
        s1 = hb_step_down d (aer_term (res_reply r)) s0
    | Inr (k', s1) \<Rightarrow> I s1"
  using assms
proof (induction d rs k s rule: hb_results.induct)
  case (2 d r rs k s)
  let ?P = "\<lambda>rs X. case X of
      Inl s1 \<Rightarrow> \<exists>s0 r. I s0 \<and> r \<in> set rs \<and> current_term s0 < aer_term (res_reply r) \<and>
        s1 = hb_step_down d (aer_term (res_reply r)) s0
    | Inr (k', s1) \<Rightarrow> I s1"
  let ?s = "if aer_success (res_reply r) then hb_success r s else hb_failure r s"
  have mono: "?P rs X \<Longrightarrow> ?P (r # rs) X" for X by (cases X) auto
  have succ: "I (hb_success r' s')"
    if "r' \<in> set rs" "res_rpc_ok r'" "aer_success (res_reply r')" "I s'" for r' s'
    using that by (intro 2(4)) simp_all
  have fail: "I (hb_failure r' s')" if "r' \<in> set rs" "res_rpc_ok r'" "I s'" for r' s'
    using that by (intro 2(5)) simp_all
  consider (skip) "\<not> res_rpc_ok r" | (down) "res_rpc_ok r" "current_term s < aer_term (res_reply r)"
    | (go) "res_rpc_ok r" "\<not> current_term s < aer_term (res_reply r)" by blast
  then show ?case
  proof cases
    case skip
    have "?P rs (hb_results d rs k s)" by (rule 2(1) [OF skip 2(3) succ fail])
    from mono [OF this] skip show ?thesis by simp
  next
    case down
    with 2(3) show ?thesis by (auto simp: hb_step_down_def)
  next
    case go
    let ?k = "if aer_term (res_reply r) = current_term s then k + 1 else k"
    have "I ?s" using go(1) 2(3) 2(4) [of r s] 2(5) [of r s] by simp
    then have "?P rs (hb_results d rs ?k ?s)" using go by (intro 2(2) [OF _ _ _ succ fail]) simp_all
    from mono [OF this] go show ?thesis by simp
  qed
qed simp

section \<open>The commit scan\<close>

lemma commit_scan_spec:
  "commit_scan s idx = commit_index s \<or>
   (commit_index s < commit_scan s idx \<and> commit_scan s idx \<le> idx \<and>
    e_term (rlog s ! (commit_scan s idx - 1)) = current_term s \<and>
    match_count (matchIndex s) (commit_scan s idx) \<ge> majority s)"
proof (induction s idx rule: commit_scan.induct)
  case (1 s idx)
  then show ?case by (subst (1 2 3 4 5) commit_scan.simps) (auto split: if_splits)
qed

lemma commit_scan_mono: "commit_index s \<le> commit_scan s idx"
  using commit_scan_spec [of s idx] by auto

lemma commit_scan_greatest:
  assumes "commit_index s < j" "j \<le> idx" "e_term (rlog s ! (j - 1)) = current_term s"
    and "match_count (matchIndex s) j \<ge> majority s"
  shows "j \<le> commit_scan s idx"
  using assms
proof (induction s idx rule: commit_scan.induct)
  case (1 s idx)
  then show ?case
    by (subst commit_scan.simps) (cases "j = idx", auto)
qed

end
