(* ===== verification/Raft_Cluster.thy ===== *)
theory Raft_Cluster
  imports Raft_Run
begin

text \<open>
  The cluster: the nodes, the program counters of their run threads, and the network.

  A step of the cluster is one critical section of one thread, or one unlocked read of the
  run thread (\<open>src/src/raft.cpp\<close>, \<open>Raft::run\<close> and \<open>Raft::send_heartbeats\<close>), or one
  RPC handler run, or a client's \<open>propose\<close>, or \<open>kill\<close>. \<open>exec\<close> gives the outcome of a
  step: the next state, \<open>Disabled\<close> when the step is not possible in the state, and
  \<open>Undefined\<close> where the C++ code has undefined behaviour (an index out of range, a null
  stub). Everything the code does not determine is an argument of the step: the timeout
  drawn, the clock read, which call is served, which reply arrives.

  Network: gRPC is not part of the sources. A call is recorded when it is made; a handler
  may run for any recorded call at any time, any number of times or never; a call returns
  with a reply that a handler run produced for it, or fails. This includes all losses,
  delays, reorderings and partitions.

  \<open>elected\<close> is a history variable: the pairs of term and node for which the run thread
  has set the role to LEADER.
\<close>

section \<open>States\<close>

text \<open>
  Where the run thread of a node stands. \<open>votes\<close> and the list of peers still to be asked
  are the local variables of the election; the flag of the heartbeat positions says whether
  \<open>send_heartbeats\<close> was called at the top of the loop or after an election.
\<close>

datatype run_pc =
    RunStart
  | RunTop
  | Waiting int
  | ElectionCheck
  | VoteNext u64 "(u64, bool) umap"
  | VoteTerm u64 u64 "(u64, bool) umap" u64
  | VoteIdx u64 u64 "(u64, bool) umap" u64 u64
  | VoteCall u64 u64 "(u64, bool) umap" RequestVoteReq
  | VoteReply u64 u64 "(u64, bool) umap" RequestVoteReply
  | VoteStale u64 RequestVoteReply
  | VoteTally u64
  | BecameLeader
  | HbBuild bool
  | HbCalls bool "PeerReq list"
  | HbApply bool "ApplyResult list"
  | LeaderWait
  | Halted

record cluster =
  members :: "u64 list"
  node :: "u64 \<Rightarrow> Raft"
  pc :: "u64 \<Rightarrow> run_pc"
  rv_calls :: "(u64 \<times> u64 \<times> RequestVoteReq) set"
  rv_rets :: "(u64 \<times> u64 \<times> RequestVoteReq \<times> RequestVoteReply) set"
  ae_calls :: "(u64 \<times> u64 \<times> AppendEntriesRequest) set"
  ae_rets :: "(u64 \<times> u64 \<times> AppendEntriesRequest \<times> AppendEntriesReply) set"
  elected :: "(u64 \<times> u64) set"

datatype outcome = Disabled | Undefined | Next cluster

definition put :: "u64 \<Rightarrow> Raft \<Rightarrow> run_pc \<Rightarrow> cluster \<Rightarrow> cluster" where
  "put n s p c = c\<lparr>node := (node c)(n := s), pc := (pc c)(n := p)\<rparr>"

text \<open>The peers of a node after \<open>connect_peers\<close>: every other node, each with a stub.\<close>

definition peers_of :: "u64 \<Rightarrow> u64 list \<Rightarrow> (u64, bool) umap \<Rightarrow> bool" where
  "peers_of n ms ps \<longleftrightarrow> distinct (map fst ps) \<and> fst ` set ps = set ms - {n} \<and> snd ` set ps \<subseteq> {True}"

definition cluster_start :: "u64 list \<Rightarrow> cluster \<Rightarrow> bool" where
  "cluster_start ms c \<longleftrightarrow>
     distinct ms \<and> members c = ms \<and>
     (\<forall>n \<in> set ms. \<exists>ps draw. peers_of n ms ps \<and> node c n = raft_init n ps draw \<and> pc c n = RunStart) \<and>
     rv_calls c = {} \<and> rv_rets c = {} \<and> ae_calls c = {} \<and> ae_rets c = {} \<and> elected c = {}"

section \<open>The steps of the run thread\<close>

subsection \<open>The top of the loop, waiting, becoming a candidate\<close>

definition do_start :: "u64 \<Rightarrow> nat \<Rightarrow> cluster \<Rightarrow> outcome" where
  "do_start n draw c =
     (case pc c n of
        RunStart \<Rightarrow> Next (put n (reset_election_timer draw (node c n)) RunTop c)
      | _ \<Rightarrow> Disabled)"

definition do_top :: "u64 \<Rightarrow> int \<Rightarrow> cluster \<Rightarrow> outcome" where
  "do_top n now c =
     (case pc c n of
        RunTop \<Rightarrow>
          (let s = node c n in
           if is_dead s then Next (put n s Halted c)
           else Next (put n (run_top s) (if role s = LEADER then HbBuild True else Waiting now) c))
      | _ \<Rightarrow> Disabled)"

definition do_wait :: "u64 \<Rightarrow> int \<Rightarrow> cluster \<Rightarrow> outcome" where
  "do_wait n now c =
     (case pc c n of
        Waiting begun \<Rightarrow>
          (let s = node c n in
           if is_dead s \<or> wait_over begun now s then Next (put n s ElectionCheck c) else Disabled)
      | _ \<Rightarrow> Disabled)"

text \<open>The head of \<open>for (auto &peer : peers_snapshot)\<close>.\<close>

definition vote_loop :: "u64 \<Rightarrow> (u64, bool) umap \<Rightarrow> run_pc" where
  "vote_loop votes rest = (if rest = [] then VoteTally votes else VoteNext votes rest)"

definition do_elect_check :: "u64 \<Rightarrow> nat \<Rightarrow> cluster \<Rightarrow> outcome" where
  "do_elect_check n draw c =
     (case pc c n of
        ElectionCheck \<Rightarrow>
          (case election_check draw (node c n) of
             (start_election, s) \<Rightarrow>
               Next (put n s (if start_election then vote_loop 1 (peers s) else RunTop) c))
      | _ \<Rightarrow> Disabled)"

subsection \<open>Asking for votes\<close>

text \<open>The three unlocked reads of the request's fields, then the call.\<close>

definition do_vote_term :: "u64 \<Rightarrow> cluster \<Rightarrow> outcome" where
  "do_vote_term n c =
     (case pc c n of
        VoteNext votes ((p, stub) # rest) \<Rightarrow>
          if stub then Next (put n (node c n) (VoteTerm votes p rest (current_term (node c n))) c)
          else Undefined
      | _ \<Rightarrow> Disabled)"

definition do_vote_idx :: "u64 \<Rightarrow> cluster \<Rightarrow> outcome" where
  "do_vote_idx n c =
     (case pc c n of
        VoteTerm votes p rest t \<Rightarrow>
          Next (put n (node c n) (VoteIdx votes p rest t (length (rlog (node c n)))) c)
      | _ \<Rightarrow> Disabled)"

definition do_vote_call :: "u64 \<Rightarrow> cluster \<Rightarrow> outcome" where
  "do_vote_call n c =
     (case pc c n of
        VoteIdx votes p rest t i \<Rightarrow>
          (let req = request_vote_msg t (node_id (node c n)) i (last_log_term (rlog (node c n)))
           in Next ((put n (node c n) (VoteCall votes p rest req) c)
                    \<lparr>rv_calls := insert (n, p, req) (rv_calls c)\<rparr>))
      | _ \<Rightarrow> Disabled)"

definition do_vote_fail :: "u64 \<Rightarrow> cluster \<Rightarrow> outcome" where
  "do_vote_fail n c =
     (case pc c n of
        VoteCall votes p rest req \<Rightarrow> Next (put n (node c n) (vote_loop votes rest) c)
      | _ \<Rightarrow> Disabled)"

definition do_vote_return :: "u64 \<Rightarrow> RequestVoteReply \<Rightarrow> cluster \<Rightarrow> outcome" where
  "do_vote_return n rep c =
     (case pc c n of
        VoteCall votes p rest req \<Rightarrow>
          if (n, p, req, rep) \<in> rv_rets c
          then Next (put n (node c n) (VoteReply votes p rest rep) c) else Disabled
      | _ \<Rightarrow> Disabled)"

text \<open>
  Reading \<open>my_term\<close> in its own critical section, and the code up to the next section:
  the branch on \<open>reply.term() > my_term\<close>, counting the vote, leaving the loop with a
  majority.
\<close>

definition do_my_term :: "u64 \<Rightarrow> cluster \<Rightarrow> outcome" where
  "do_my_term n c =
     (case pc c n of
        VoteReply votes p rest rep \<Rightarrow>
          (let s = node c n; my_term = current_term s in
           if rvr_term rep > my_term then Next (put n s (VoteStale votes rep) c)
           else if rvr_voteGranted rep then
             (let votes' = votes + 1 in
              Next (put n s (if votes' \<ge> majority s then VoteTally votes'
                             else vote_loop votes' rest) c))
           else Next (put n s (vote_loop votes rest) c))
      | _ \<Rightarrow> Disabled)"

definition do_stale_term :: "u64 \<Rightarrow> nat \<Rightarrow> cluster \<Rightarrow> outcome" where
  "do_stale_term n draw c =
     (case pc c n of
        VoteStale votes rep \<Rightarrow> Next (put n (stale_term draw rep (node c n)) (VoteTally votes) c)
      | _ \<Rightarrow> Disabled)"

definition do_tally :: "u64 \<Rightarrow> nat \<Rightarrow> cluster \<Rightarrow> outcome" where
  "do_tally n draw c =
     (case pc c n of
        VoteTally votes \<Rightarrow>
          (case election_result draw votes (node c n) of
             (became_leader, s) \<Rightarrow>
               Next (if became_leader
                     then (put n s BecameLeader c)\<lparr>elected := insert (current_term s, n) (elected c)\<rparr>
                     else put n s RunTop c))
      | _ \<Rightarrow> Disabled)"

definition do_become_leader :: "u64 \<Rightarrow> int \<Rightarrow> cluster \<Rightarrow> outcome" where
  "do_become_leader n now c =
     (case pc c n of
        BecameLeader \<Rightarrow> Next (put n (become_leader now (node c n)) (HbBuild False) c)
      | _ \<Rightarrow> Disabled)"

subsection \<open>Heartbeats\<close>

text \<open>Where \<open>send_heartbeats\<close> returns to.\<close>

definition hb_return :: "bool \<Rightarrow> run_pc" where
  "hb_return from_top = (if from_top then LeaderWait else RunTop)"

definition do_hb_build :: "u64 \<Rightarrow> cluster \<Rightarrow> outcome" where
  "do_hb_build n c =
     (case pc c n of
        HbBuild ret \<Rightarrow>
          (case hb_build (node c n) of
             None \<Rightarrow> Undefined
           | Some (None, s) \<Rightarrow> Next (put n s (hb_return ret) c)
           | Some (Some reqs, s) \<Rightarrow>
               Next ((put n s (HbCalls ret reqs) c)
                     \<lparr>ae_calls := ae_calls c \<union> (\<lambda>r. (n, preq_peer_id r, preq_request r)) ` set reqs\<rparr>))
      | _ \<Rightarrow> Disabled)"

text \<open>
  The results of the calls: \<open>None\<close> for a call that failed (or a peer without a worker),
  whose reply is left as it was constructed.
\<close>

definition peer_result :: "PeerReq \<Rightarrow> AppendEntriesReply option \<Rightarrow> PeerResult" where
  "peer_result r out =
     \<lparr>res_peer_id = preq_peer_id r, res_prev_idx = preq_prev_idx r,
      res_entries_sent = preq_entries_sent r,
      res_reply = (case out of None \<Rightarrow> \<lparr>aer_term = 0, aer_success = False\<rparr> | Some rep \<Rightarrow> rep),
      res_rpc_ok = (out \<noteq> None)\<rparr>"

definition answered :: "u64 \<Rightarrow> PeerReq list \<Rightarrow> AppendEntriesReply option list \<Rightarrow> cluster \<Rightarrow> bool" where
  "answered n reqs outs c \<longleftrightarrow>
     length outs = length reqs \<and>
     list_all (\<lambda>(r, out). case out of None \<Rightarrow> True
       | Some rep \<Rightarrow> (n, preq_peer_id r, preq_request r, rep) \<in> ae_rets c) (zip reqs outs)"

definition do_hb_finish ::
  "u64 \<Rightarrow> int \<Rightarrow> nat \<Rightarrow> AppendEntriesReply option list \<Rightarrow> cluster \<Rightarrow> outcome" where
  "do_hb_finish n now draw outs c =
     (case pc c n of
        HbCalls ret reqs \<Rightarrow>
          if answered n reqs outs c then
            (case hb_finish now draw (map2 peer_result reqs outs) (node c n) of
               None \<Rightarrow> Undefined
             | Some (to_apply, s) \<Rightarrow> Next (put n s (HbApply ret to_apply) c))
          else Disabled
      | _ \<Rightarrow> Disabled)"

text \<open>The loop \<open>for (auto &r : to_apply) apply(r)\<close>, outside the lock: one call per step.\<close>

definition do_hb_apply :: "u64 \<Rightarrow> cluster \<Rightarrow> outcome" where
  "do_hb_apply n c =
     (case pc c n of
        HbApply ret [] \<Rightarrow> Next (put n (node c n) (hb_return ret) c)
      | HbApply ret (r # rs) \<Rightarrow> Next (put n (apply_result r (node c n)) (HbApply ret rs) c)
      | _ \<Rightarrow> Disabled)"

definition do_leader_wait :: "u64 \<Rightarrow> cluster \<Rightarrow> outcome" where
  "do_leader_wait n c =
     (case pc c n of LeaderWait \<Rightarrow> Next (put n (node c n) RunTop c) | _ \<Rightarrow> Disabled)"

section \<open>The other threads\<close>

text \<open>The service methods \<open>RequestVote\<close> and \<open>AppendEntries\<close>, for a call that was made.\<close>

definition serve_vote :: "u64 \<Rightarrow> u64 \<Rightarrow> RequestVoteReq \<Rightarrow> nat \<Rightarrow> nat \<Rightarrow> cluster \<Rightarrow> outcome" where
  "serve_vote f n req d1 d2 c =
     (if (f, n, req) \<in> rv_calls c then
        (case handle_request_vote d1 d2 req (node c n) of
           (rep, s) \<Rightarrow> Next ((put n s (pc c n) c)\<lparr>rv_rets := insert (f, n, req, rep) (rv_rets c)\<rparr>))
      else Disabled)"

definition serve_append :: "u64 \<Rightarrow> u64 \<Rightarrow> AppendEntriesRequest \<Rightarrow> nat \<Rightarrow> cluster \<Rightarrow> outcome" where
  "serve_append f n req d c =
     (if (f, n, req) \<in> ae_calls c then
        (case handle_append_entries d req (node c n) of
           None \<Rightarrow> Undefined
         | Some (rep, s) \<Rightarrow>
             Next ((put n s (pc c n) c)\<lparr>ae_rets := insert (f, n, req, rep) (ae_rets c)\<rparr>))
      else Disabled)"

definition do_propose :: "u64 \<Rightarrow> bytes \<Rightarrow> cluster \<Rightarrow> outcome" where
  "do_propose n data c = Next (put n (snd (propose data (node c n))) (pc c n) c)"

definition do_kill :: "u64 \<Rightarrow> cluster \<Rightarrow> outcome" where
  "do_kill n c = Next (put n (kill (node c n)) (pc c n) c)"

section \<open>Steps and runs\<close>

datatype event =
    Start u64 nat
  | Top u64 int
  | Wait u64 int
  | Elect u64 nat
  | AskTerm u64
  | AskIdx u64
  | Ask u64
  | AskFail u64
  | AskReturn u64 RequestVoteReply
  | MyTerm u64
  | StaleTerm u64 nat
  | Tally u64 nat
  | Lead u64 int
  | HeartbeatBuild u64
  | HeartbeatFinish u64 int nat "AppendEntriesReply option list"
  | HeartbeatApply u64
  | LeaderIdle u64
  | ServeVote u64 u64 RequestVoteReq nat nat
  | ServeAppend u64 u64 AppendEntriesRequest nat
  | Propose u64 bytes
  | Kill u64

fun actor :: "event \<Rightarrow> u64" where
  "actor (Start n _) = n" | "actor (Top n _) = n" | "actor (Wait n _) = n"
| "actor (Elect n _) = n" | "actor (AskTerm n) = n" | "actor (AskIdx n) = n"
| "actor (Ask n) = n" | "actor (AskFail n) = n" | "actor (AskReturn n _) = n"
| "actor (MyTerm n) = n" | "actor (StaleTerm n _) = n" | "actor (Tally n _) = n"
| "actor (Lead n _) = n" | "actor (HeartbeatBuild n) = n" | "actor (HeartbeatFinish n _ _ _) = n"
| "actor (HeartbeatApply n) = n" | "actor (LeaderIdle n) = n" | "actor (ServeVote _ n _ _ _) = n"
| "actor (ServeAppend _ n _ _) = n" | "actor (Propose n _) = n" | "actor (Kill n) = n"

fun exec_at :: "event \<Rightarrow> cluster \<Rightarrow> outcome" where
  "exec_at (Start n d) c = do_start n d c"
| "exec_at (Top n t) c = do_top n t c"
| "exec_at (Wait n t) c = do_wait n t c"
| "exec_at (Elect n d) c = do_elect_check n d c"
| "exec_at (AskTerm n) c = do_vote_term n c"
| "exec_at (AskIdx n) c = do_vote_idx n c"
| "exec_at (Ask n) c = do_vote_call n c"
| "exec_at (AskFail n) c = do_vote_fail n c"
| "exec_at (AskReturn n rep) c = do_vote_return n rep c"
| "exec_at (MyTerm n) c = do_my_term n c"
| "exec_at (StaleTerm n d) c = do_stale_term n d c"
| "exec_at (Tally n d) c = do_tally n d c"
| "exec_at (Lead n t) c = do_become_leader n t c"
| "exec_at (HeartbeatBuild n) c = do_hb_build n c"
| "exec_at (HeartbeatFinish n t d outs) c = do_hb_finish n t d outs c"
| "exec_at (HeartbeatApply n) c = do_hb_apply n c"
| "exec_at (LeaderIdle n) c = do_leader_wait n c"
| "exec_at (ServeVote f n req d1 d2) c = serve_vote f n req d1 d2 c"
| "exec_at (ServeAppend f n req d) c = serve_append f n req d c"
| "exec_at (Propose n data) c = do_propose n data c"
| "exec_at (Kill n) c = do_kill n c"

definition exec :: "event \<Rightarrow> cluster \<Rightarrow> outcome" where
  "exec e c = (if actor e \<in> set (members c) then exec_at e c else Disabled)"

text \<open>A run: a list of steps, all of them possible.\<close>

fun exec_all :: "event list \<Rightarrow> cluster \<Rightarrow> outcome" where
  "exec_all [] c = Next c"
| "exec_all (e # es) c = (case exec e c of Next c' \<Rightarrow> exec_all es c' | r \<Rightarrow> r)"

text \<open>
  The steps after which the safety of the protocol is proved. Three behaviours of the code
  are excluded; \<open>Raft_Races\<close> has runs that show what they lead to.

  \<^item> The section of lines 121-128 runs although the node's term has reached or passed the
    reply's term since \<open>my_term\<close> was read: the term would go down.
  \<^item> A node that won its current term and then gave up the lease (lines 324-329, which
    forget the vote but keep the term) is asked for a vote in that same term.
  \<^item> A term counter wraps around.
\<close>

fun regular :: "event \<Rightarrow> cluster \<Rightarrow> bool" where
  "regular (StaleTerm n d) c =
     (case pc c n of VoteStale votes rep \<Rightarrow> current_term (node c n) < rvr_term rep | _ \<Rightarrow> True)"
| "regular (ServeVote f n req d1 d2) c =
     (\<not> (rv_term req = current_term (node c n) \<and> voted_for (node c n) = None \<and>
         (current_term (node c n), n) \<in> elected c))"
| "regular (Elect n d) c = (current_term (node c n) + 1 < 2 ^ 64)"
| "regular _ c = True"

definition cluster_step :: "cluster \<Rightarrow> event \<Rightarrow> cluster \<Rightarrow> bool" where
  "cluster_step c e c' \<longleftrightarrow> regular e c \<and> exec e c = Next c'"

abbreviation cluster_reach :: "u64 list \<Rightarrow> cluster \<Rightarrow> bool" where
  "cluster_reach ms \<equiv> reach (cluster_start ms) cluster_step"

end
