(* ===== verification/Raft_Spec.thy ===== *)
theory Raft_Spec
  imports Raft_Node
begin

text \<open>
  The abstract protocol that the cluster of nodes implements: no messages, no program
  counters, no timers. Its state holds for every node its term, log and standing
  (candidate or leader), and for every term what happened in it: who voted for whom, who
  was elected, with which log, how that log has grown (\<open>s_llog\<close>, the leader's log), and
  up to which index each node has acknowledged that log.

  Its six actions are \<open>bump\<close> (adopt a term as a follower), \<open>timeout\<close> (become a
  candidate), \<open>grant\<close> (vote), \<open>elect\<close>, \<open>append\<close> (a leader appends an entry)
  and \<open>accept\<close> (a follower takes a slice of the leader's log, by the rule of the
  AppendEntries handler).

  Proved for every reachable state, over any quorum system: one leader per term, log
  matching, leader completeness (an entry acknowledged by a quorum in its own term is in
  the log of every later leader), and agreement of committed prefixes. The heart is
  \<open>safe_inv\<close>, stated for \<open>choosable\<close> entries: entries that a quorum has
  acknowledged \<^emph>\<open>or may still acknowledge\<close>, which can only become fewer.
\<close>

section \<open>The abstract state and its actions\<close>

record spec =
  s_term :: "u64 \<Rightarrow> u64"
  s_log :: "u64 \<Rightarrow> Entry list"
  s_cand :: "u64 \<Rightarrow> bool"
  s_lead :: "u64 \<Rightarrow> bool"
  s_grants :: "(u64 \<times> u64 \<times> u64) set"
  s_leader :: "u64 \<rightharpoonup> u64"
  s_llog :: "u64 \<Rightarrow> Entry list"
  s_elen :: "u64 \<Rightarrow> nat"
  s_ack :: "u64 \<Rightarrow> u64 \<Rightarrow> nat"

definition spec_init :: spec where
  "spec_init = \<lparr>s_term = (\<lambda>_. 0), s_log = (\<lambda>_. []), s_cand = (\<lambda>_. False),
     s_lead = (\<lambda>_. False), s_grants = {}, s_leader = Map.empty, s_llog = (\<lambda>_. []),
     s_elen = (\<lambda>_. 0), s_ack = (\<lambda>_ _. 0)\<rparr>"

text \<open>The voter's log \<open>mine\<close> is not ahead of the candidate's log \<open>theirs\<close>.\<close>

definition not_ahead :: "Entry list \<Rightarrow> Entry list \<Rightarrow> bool" where
  "not_ahead mine theirs \<longleftrightarrow>
     last_log_term theirs > last_log_term mine \<or>
     last_log_term theirs = last_log_term mine \<and> length theirs \<ge> length mine"

definition do_bump :: "u64 \<Rightarrow> u64 \<Rightarrow> spec \<Rightarrow> spec" where
  "do_bump v t a = a\<lparr>s_term := (s_term a)(v := t), s_cand := (s_cand a)(v := False),
     s_lead := (s_lead a)(v := False)\<rparr>"

definition do_timeout :: "u64 \<Rightarrow> u64 \<Rightarrow> spec \<Rightarrow> spec" where
  "do_timeout v t a = a\<lparr>s_term := (s_term a)(v := t), s_cand := (s_cand a)(v := True),
     s_lead := (s_lead a)(v := False), s_grants := insert (t, v, v) (s_grants a)\<rparr>"

definition do_grant :: "u64 \<Rightarrow> u64 \<Rightarrow> spec \<Rightarrow> spec" where
  "do_grant v c a = a\<lparr>s_grants := insert (s_term a v, v, c) (s_grants a)\<rparr>"

definition do_elect :: "u64 \<Rightarrow> spec \<Rightarrow> spec" where
  "do_elect n a =
     (let t = s_term a n in
      a\<lparr>s_cand := (s_cand a)(n := False), s_lead := (s_lead a)(n := True),
        s_leader := (s_leader a)(t \<mapsto> n), s_llog := (s_llog a)(t := s_log a n),
        s_elen := (s_elen a)(t := length (s_log a n)),
        s_ack := (s_ack a)(t := (s_ack a t)(n := length (s_log a n)))\<rparr>)"

definition do_append :: "u64 \<Rightarrow> Entry \<Rightarrow> spec \<Rightarrow> spec" where
  "do_append n e a =
     (let t = s_term a n; l = s_log a n @ [e] in
      a\<lparr>s_log := (s_log a)(n := l), s_llog := (s_llog a)(t := l),
        s_ack := (s_ack a)(t := (s_ack a t)(n := length l))\<rparr>)"

definition do_accept :: "u64 \<Rightarrow> nat \<Rightarrow> Entry list \<Rightarrow> spec \<Rightarrow> spec" where
  "do_accept v k l a =
     (let t = s_term a v in
      a\<lparr>s_log := (s_log a)(v := l),
        s_ack := (s_ack a)(t := (s_ack a t)(v := max (s_ack a t v) k))\<rparr>)"

text \<open>The slice of length \<open>len\<close> after position \<open>prev\<close>.\<close>

definition slice :: "nat \<Rightarrow> nat \<Rightarrow> 'a list \<Rightarrow> 'a list" where
  "slice prev len l = take len (drop prev l)"

inductive spec_step :: "(u64 set \<Rightarrow> bool) \<Rightarrow> spec \<Rightarrow> spec \<Rightarrow> bool" for q where
  bump: "s_term a v \<le> t \<Longrightarrow> spec_step q a (do_bump v t a)"
| timeout: "s_term a v < t \<Longrightarrow> spec_step q a (do_timeout v t a)"
| grant: "s_term a v \<le> s_term a c \<Longrightarrow>
    (\<forall>d. (s_term a v, v, d) \<in> s_grants a \<longrightarrow> d = c) \<Longrightarrow>
    (s_cand a c \<and> s_term a c = s_term a v \<longrightarrow> not_ahead (s_log a v) (s_log a c)) \<Longrightarrow>
    spec_step q a (do_grant v c a)"
| elect: "s_cand a n \<Longrightarrow> q Q \<Longrightarrow> (\<forall>v \<in> Q. (s_term a n, v, n) \<in> s_grants a) \<Longrightarrow>
    spec_step q a (do_elect n a)"
| append: "s_lead a n \<Longrightarrow> e_term e = s_term a n \<Longrightarrow> spec_step q a (do_append n e a)"
| accept: "s_leader a (s_term a v) \<noteq> None \<Longrightarrow> \<not> s_cand a v \<Longrightarrow> \<not> s_lead a v \<Longrightarrow>
    prev + len \<le> length (s_llog a (s_term a v)) \<Longrightarrow> prev \<le> length (s_log a v) \<Longrightarrow>
    (prev > 0 \<longrightarrow> e_term (s_log a v ! (prev - 1)) = e_term (s_llog a (s_term a v) ! (prev - 1))) \<Longrightarrow>
    append_spec (s_log a v) prev (slice prev len (s_llog a (s_term a v))) l \<Longrightarrow>
    spec_step q a (do_accept v (prev + len) l a)"

inductive_cases spec_stepE [consumes 1, case_names bump timeout grant elect append accept]:
  "spec_step q a b"

inductive spec_steps :: "(u64 set \<Rightarrow> bool) \<Rightarrow> spec \<Rightarrow> spec \<Rightarrow> bool" for q where
  spec_refl: "spec_steps q a a"
| spec_trans: "spec_steps q a b \<Longrightarrow> spec_step q b c \<Longrightarrow> spec_steps q a c"

inductive spec_reachable :: "(u64 set \<Rightarrow> bool) \<Rightarrow> spec \<Rightarrow> bool" for q where
  spec_start: "spec_reachable q spec_init"
| spec_next: "spec_reachable q a \<Longrightarrow> spec_step q a b \<Longrightarrow> spec_reachable q b"

section \<open>Committed and choosable entries, well-formed logs\<close>

text \<open>Index \<open>k\<close> of the log of term \<open>t\<close>'s leader is an entry made in term \<open>t\<close>.\<close>

definition own :: "spec \<Rightarrow> u64 \<Rightarrow> nat \<Rightarrow> bool" where
  "own a t k \<longleftrightarrow> s_leader a t \<noteq> None \<and> s_elen a t < k \<and> k \<le> length (s_llog a t)"

definition choosable :: "(u64 set \<Rightarrow> bool) \<Rightarrow> spec \<Rightarrow> u64 \<Rightarrow> nat \<Rightarrow> bool" where
  "choosable q a t k \<longleftrightarrow> (\<exists>Q. q Q \<and> (\<forall>v \<in> Q. k \<le> s_ack a t v \<or> s_term a v \<le> t))"

definition committed :: "(u64 set \<Rightarrow> bool) \<Rightarrow> spec \<Rightarrow> u64 \<Rightarrow> nat \<Rightarrow> bool" where
  "committed q a t k \<longleftrightarrow> own a t k \<and> (\<exists>Q. q Q \<and> (\<forall>v \<in> Q. k \<le> s_ack a t v))"

text \<open>
  The first \<open>c\<close> entries of \<open>l\<close> are committed, by a leader of a term up to \<open>t\<close>:
  what a node at term \<open>t\<close> may know.
\<close>

definition known :: "(u64 set \<Rightarrow> bool) \<Rightarrow> spec \<Rightarrow> u64 \<Rightarrow> Entry list \<Rightarrow> nat \<Rightarrow> bool" where
  "known q a t l c \<longleftrightarrow> c = 0 \<or>
     (\<exists>u k. u \<le> t \<and> committed q a u k \<and> c \<le> k \<and> agree c l (s_llog a u))"

text \<open>Every entry of \<open>l\<close> sits where its term's leader put it, with the same history.\<close>

definition good :: "spec \<Rightarrow> Entry list \<Rightarrow> bool" where
  "good a l \<longleftrightarrow> (\<forall>i < length l. own a (e_term (l ! i)) (Suc i) \<and>
     agree (Suc i) l (s_llog a (e_term (l ! i))))"

section \<open>The invariant\<close>

definition vote_inv :: "spec \<Rightarrow> bool" where
  "vote_inv a \<longleftrightarrow>
     (\<forall>t v c. (t, v, c) \<in> s_grants a \<longrightarrow> t \<le> s_term a v \<and> t \<le> s_term a c) \<and>
     (\<forall>t v c d. (t, v, c) \<in> s_grants a \<longrightarrow> (t, v, d) \<in> s_grants a \<longrightarrow> c = d)"

definition leader_inv :: "(u64 set \<Rightarrow> bool) \<Rightarrow> spec \<Rightarrow> bool" where
  "leader_inv q a \<longleftrightarrow>
     (\<forall>t n. s_leader a t = Some n \<longrightarrow>
        t \<le> s_term a n \<and> (\<exists>Q. q Q \<and> (\<forall>v \<in> Q. (t, v, n) \<in> s_grants a))) \<and>
     (\<forall>n. s_lead a n \<longrightarrow> s_leader a (s_term a n) = Some n \<and> s_log a n = s_llog a (s_term a n)) \<and>
     (\<forall>n. s_cand a n \<longrightarrow> (s_term a n, n, n) \<in> s_grants a \<and> s_leader a (s_term a n) \<noteq> Some n \<and>
        \<not> s_lead a n \<and> (\<forall>e \<in> set (s_log a n). e_term e < s_term a n))"

definition log_inv :: "spec \<Rightarrow> bool" where
  "log_inv a \<longleftrightarrow>
     (\<forall>n. good a (s_log a n) \<and> (\<forall>e \<in> set (s_log a n). e_term e \<le> s_term a n)) \<and>
     (\<forall>t. good a (s_llog a t) \<and> s_elen a t \<le> length (s_llog a t) \<and>
        (\<forall>i < length (s_llog a t).
           if i < s_elen a t then e_term (s_llog a t ! i) < t else e_term (s_llog a t ! i) = t))"

definition ack_inv :: "spec \<Rightarrow> bool" where
  "ack_inv a \<longleftrightarrow>
     (\<forall>t v. s_ack a t v \<noteq> 0 \<longrightarrow> t \<le> s_term a v) \<and>
     (\<forall>t v. s_ack a t v \<le> length (s_llog a t)) \<and>
     (\<forall>t. s_leader a t = None \<longrightarrow> s_llog a t = [])"

definition safe_inv :: "(u64 set \<Rightarrow> bool) \<Rightarrow> spec \<Rightarrow> bool" where
  "safe_inv q a \<longleftrightarrow>
     (\<forall>t u k. t < u \<longrightarrow> s_leader a u \<noteq> None \<longrightarrow> own a t k \<longrightarrow> choosable q a t k \<longrightarrow>
        k \<le> s_elen a u \<and> agree k (s_llog a u) (s_llog a t)) \<and>
     (\<forall>t v k. k \<le> s_ack a t v \<longrightarrow> own a t k \<longrightarrow> choosable q a t k \<longrightarrow>
        agree k (s_log a v) (s_llog a t)) \<and>
     (\<forall>t u w c k. (u, w, c) \<in> s_grants a \<longrightarrow> s_cand a c \<longrightarrow> s_term a c = u \<longrightarrow> t < u \<longrightarrow>
        k \<le> s_ack a t w \<longrightarrow> own a t k \<longrightarrow> choosable q a t k \<longrightarrow>
        agree k (s_log a c) (s_llog a t))"

definition spec_inv :: "(u64 set \<Rightarrow> bool) \<Rightarrow> spec \<Rightarrow> bool" where
  "spec_inv q a \<longleftrightarrow> vote_inv a \<and> leader_inv q a \<and> log_inv a \<and> ack_inv a \<and> safe_inv q a"

end
