(* ===== verification/Raft_Spec_Safety.thy ===== *)
theory Raft_Spec_Safety
  imports Raft_Spec
begin

text \<open>
  The invariant of the abstract protocol of \<open>Raft_Spec\<close> through its actions: one lemma
  per action and part of the invariant, wherever the argument does not need that quorums
  intersect. \<open>Raft_Spec_Quorum\<close> has the rest of the argument and the safety theorems.
\<close>

section \<open>Well-formed logs\<close>

lemma goodD: "good a l \<Longrightarrow> i < length l \<Longrightarrow>
   own a (e_term (l ! i)) (Suc i) \<and> agree (Suc i) l (s_llog a (e_term (l ! i)))"
  by (simp add: good_def)

lemma good_take: "good a l \<Longrightarrow> good a (take k l)"
  by (auto simp: good_def)

lemma good_matching:
  assumes "good a l" "good a m" "i < length l" "i < length m" "e_term (l ! i) = e_term (m ! i)"
  shows "agree (Suc i) l m"
proof -
  have "agree (Suc i) l (s_llog a (e_term (l ! i)))" using goodD [OF assms(1,3)] by simp
  moreover have "agree (Suc i) m (s_llog a (e_term (l ! i)))"
    using goodD [OF assms(2,4)] assms(5) by simp
  ultimately show ?thesis by (blast intro: agree_trans agree_sym)
qed

lemma good_last:
  assumes "good a l" "l \<noteq> []"
  shows "own a (last_log_term l) (length l)" "agree (length l) l (s_llog a (last_log_term l))"
  using goodD [OF assms(1), of "length l - 1"] assms(2) by (simp_all add: last_log_term_nth)

lemma log_inv_llog:
  assumes "log_inv a"
  shows "good a (s_llog a t)" "s_elen a t \<le> length (s_llog a t)"
    "i < s_elen a t \<Longrightarrow> i < length (s_llog a t) \<Longrightarrow> e_term (s_llog a t ! i) < t"
    "s_elen a t \<le> i \<Longrightarrow> i < length (s_llog a t) \<Longrightarrow> e_term (s_llog a t ! i) = t"
  using assms by (auto simp: log_inv_def dest: spec [of _ t])

lemma log_inv_log:
  assumes "log_inv a"
  shows "good a (s_log a n)" "e \<in> set (s_log a n) \<Longrightarrow> e_term e \<le> s_term a n"
  using assms by (auto simp: log_inv_def)

lemma llog_term_le: "log_inv a \<Longrightarrow> i < length (s_llog a t) \<Longrightarrow> e_term (s_llog a t ! i) \<le> t"
  by (cases "i < s_elen a t") (auto dest: log_inv_llog(3) [of a i t] log_inv_llog(4) [of a t i])

lemma own_pos: "own a t k \<Longrightarrow> 0 < k"
  by (auto simp: own_def)

lemma own_term: "log_inv a \<Longrightarrow> own a t k \<Longrightarrow> e_term (s_llog a t ! (k - 1)) = t"
  by (rule log_inv_llog(4)) (auto simp: own_def)

lemma good_terms_mono:
  assumes "log_inv a" "good a l" "i \<le> j" "j < length l"
  shows "e_term (l ! i) \<le> e_term (l ! j)"
proof -
  have ag: "agree (Suc j) l (s_llog a (e_term (l ! j)))" using goodD [OF assms(2,4)] by simp
  then have "l ! i = s_llog a (e_term (l ! j)) ! i" using agree_nth [OF ag, of i] assms(3) by simp
  moreover have "i < length (s_llog a (e_term (l ! j)))" using ag assms(3) by (auto simp: agree_def)
  ultimately show ?thesis using llog_term_le [OF assms(1), of i "e_term (l ! j)"] by simp
qed

lemma last_log_term_ge:
  assumes "log_inv a" "good a l" "own a t k" "agree k l (s_llog a t)"
  shows "t \<le> last_log_term l" "l \<noteq> []"
proof -
  from assms(3,4) have k: "0 < k" "k \<le> length l" by (auto simp: own_def agree_def)
  then show ne: "l \<noteq> []" by auto
  have "l ! (k - 1) = s_llog a t ! (k - 1)" using agree_nth [OF assms(4), of "k - 1"] k by simp
  then have "e_term (l ! (k - 1)) = t" using own_term [OF assms(1,3)] by simp
  moreover have "e_term (l ! (k - 1)) \<le> e_term (l ! (length l - 1))"
    using k by (intro good_terms_mono [OF assms(1,2)]) auto
  ultimately show "t \<le> last_log_term l" using ne by (simp add: last_log_term_nth)
qed

section \<open>What accepting a slice leaves\<close>

lemma slice_nth: "i < length (slice prev len L) \<Longrightarrow> slice prev len L ! i = L ! (prev + i)"
  by (auto simp: slice_def less_diff_conv)

lemma length_slice: "prev + len \<le> length L \<Longrightarrow> length (slice prev len L) = len"
  by (simp add: slice_def)

lemma slice_rest:
  assumes "prev + len \<le> length L" "j \<le> len"
  shows "take (prev + j) L @ drop j (slice prev len L) = take (prev + len) L"
proof -
  have "drop j (slice prev len L) = take (len - j) (drop (prev + j) L)"
    by (simp add: slice_def drop_take add.commute)
  then show ?thesis using assms take_add [of "prev + j" "len - j" L] by simp
qed

lemma accept_result:
  assumes "good a m" "good a L" "prev + len \<le> length L" "prev \<le> length m"
    and "prev > 0 \<longrightarrow> e_term (m ! (prev - 1)) = e_term (L ! (prev - 1))"
    and "append_spec m prev (slice prev len L) l"
  shows "l = (if agree (prev + len) m L then m else take (prev + len) L)"
proof -
  have len: "length (slice prev len L) = len" using assms(3) by (rule length_slice)
  from assms(6) len obtain j where j: "j \<le> len" "prev + j \<le> length m"
    "\<forall>i < j. e_term (m ! (prev + i)) = e_term (slice prev len L ! i)"
    "if j = len then l = m else l = take (prev + j) m @ drop j (slice prev len L) \<and>
       (prev + j < length m \<longrightarrow> e_term (m ! (prev + j)) \<noteq> e_term (slice prev len L ! j))"
    unfolding append_spec_def by auto
  have ag: "agree (prev + i) m L" if "i \<le> j" for i
    using that
  proof (cases i)
    case 0
    show ?thesis
    proof (cases "prev = 0")
      case False
      with 0 good_matching [OF assms(1,2), of "prev - 1"] assms(3-5) show ?thesis by simp
    qed (simp add: 0)
  next
    case (Suc i')
    with that j(1) len have "slice prev len L ! i' = L ! (prev + i')" by (intro slice_nth) simp
    with Suc that j(1-3) assms(3) good_matching [OF assms(1,2), of "prev + i'"] show ?thesis
      by (simp add: less_eq_Suc_le)
  qed
  show ?thesis
  proof (cases "j = len")
    case True
    with ag [of len] j(4) show ?thesis by simp
  next
    case False
    with j(1) have "j < len" by simp
    with len have "slice prev len L ! j = L ! (prev + j)" by (intro slice_nth) simp
    with False j(4) \<open>j < len\<close> have "\<not> agree (prev + len) m L"
      using agree_nth [of "prev + len" m L "prev + j"] j(2) by (auto simp: agree_def)
    moreover have "take (prev + j) m = take (prev + j) L" using ag [of j] by (simp add: agree_def)
    ultimately show ?thesis using False j(1,4) slice_rest [OF assms(3) j(1)] by simp
  qed
qed

section \<open>Choosable entries become fewer\<close>

lemma choosable_antimono:
  assumes "choosable q b t k"
    and "\<And>v. k \<le> s_ack b t v \<or> s_term b v \<le> t \<Longrightarrow> k \<le> s_ack a t v \<or> s_term a v \<le> t"
  shows "choosable q a t k"
  using assms by (fastforce simp: choosable_def)

lemma committed_choosable: "committed q a t k \<Longrightarrow> choosable q a t k"
  by (auto simp: committed_def choosable_def)

lemma safe_inv_later_leader:
  "safe_inv q a \<Longrightarrow> t < u \<Longrightarrow> s_leader a u \<noteq> None \<Longrightarrow> own a t k \<Longrightarrow> choosable q a t k \<Longrightarrow>
   k \<le> s_elen a u \<and> agree k (s_llog a u) (s_llog a t)"
  by (simp add: safe_inv_def)

lemma safe_inv_acked:
  "safe_inv q a \<Longrightarrow> k \<le> s_ack a t v \<Longrightarrow> own a t k \<Longrightarrow> choosable q a t k \<Longrightarrow>
   agree k (s_log a v) (s_llog a t)"
  by (simp add: safe_inv_def)

lemma safe_inv_voted:
  "safe_inv q a \<Longrightarrow> (s_term a c, w, c) \<in> s_grants a \<Longrightarrow> s_cand a c \<Longrightarrow> t < s_term a c \<Longrightarrow>
   k \<le> s_ack a t w \<Longrightarrow> own a t k \<Longrightarrow> choosable q a t k \<Longrightarrow> agree k (s_log a c) (s_llog a t)"
  unfolding safe_inv_def by blast

lemma safe_invI:
  assumes "\<And>t u k. t < u \<Longrightarrow> s_leader a u \<noteq> None \<Longrightarrow> own a t k \<Longrightarrow> choosable q a t k \<Longrightarrow>
      k \<le> s_elen a u \<and> agree k (s_llog a u) (s_llog a t)"
    and "\<And>t v k. k \<le> s_ack a t v \<Longrightarrow> own a t k \<Longrightarrow> choosable q a t k \<Longrightarrow>
      agree k (s_log a v) (s_llog a t)"
    and "\<And>t w c k. (s_term a c, w, c) \<in> s_grants a \<Longrightarrow> s_cand a c \<Longrightarrow> t < s_term a c \<Longrightarrow>
      k \<le> s_ack a t w \<Longrightarrow> own a t k \<Longrightarrow> choosable q a t k \<Longrightarrow> agree k (s_log a c) (s_llog a t)"
  shows "safe_inv q a"
proof -
  have 3: "agree k (s_log a c) (s_llog a t)" if "(u, w, c) \<in> s_grants a" "s_cand a c"
    "s_term a c = u" "t < u" "k \<le> s_ack a t w" "own a t k" "choosable q a t k" for t u w c k
    using that by (intro assms(3)) simp_all
  show ?thesis unfolding safe_inv_def by (intro conjI allI impI) (fact assms(1,2) 3 | simp add: assms(1))+
qed

text \<open>A log that is not behind one holding a choosable entry holds it too.\<close>

lemma not_ahead_agree:
  assumes inv: "log_inv a" "safe_inv q a" and good: "good a mine" "good a theirs"
    and own: "own a t k" "choosable q a t k" and ag: "agree k mine (s_llog a t)"
    and up: "not_ahead mine theirs"
  shows "agree k theirs (s_llog a t)"
proof -
  note mine = last_log_term_ge [OF inv(1) good(1) own(1) ag]
  have klen: "0 < k" "k \<le> length mine" using own(1) ag by (auto simp: own_def agree_def)
  have ne: "theirs \<noteq> []" using up mine klen by (auto simp: not_ahead_def)
  note last = good_last [OF good(2) ne]
  show ?thesis
  proof (cases "last_log_term theirs = last_log_term mine")
    case True
    with up klen have "k \<le> length theirs" by (auto simp: not_ahead_def)
    then have "agree k theirs (s_llog a (last_log_term mine))"
      using agree_mono [OF last(2)] True by simp
    moreover have "agree k mine (s_llog a (last_log_term mine))"
      using good_last(2) [OF good(1) mine(2)] klen agree_mono by blast
    ultimately show ?thesis using ag by (meson agree_sym agree_trans)
  next
    case False
    with up mine have "t < last_log_term theirs" by (auto simp: not_ahead_def)
    with last(1) own safe_inv_later_leader [OF inv(2)] have
      k: "k \<le> s_elen a (last_log_term theirs)"
      "agree k (s_llog a (last_log_term theirs)) (s_llog a t)" by (auto simp: own_def)
    with last(1) have "agree k theirs (s_llog a (last_log_term theirs))"
      by (intro agree_mono [OF last(2)]) (simp add: own_def)
    with k(2) show ?thesis by (rule agree_trans [rotated])
  qed
qed

section \<open>What the actions leave alone\<close>

lemma do_bump_simps [simp]:
  "s_term (do_bump v t a) = (s_term a)(v := t)" "s_log (do_bump v t a) = s_log a"
  "s_cand (do_bump v t a) = (s_cand a)(v := False)" "s_lead (do_bump v t a) = (s_lead a)(v := False)"
  "s_grants (do_bump v t a) = s_grants a" "s_leader (do_bump v t a) = s_leader a"
  "s_llog (do_bump v t a) = s_llog a" "s_elen (do_bump v t a) = s_elen a"
  "s_ack (do_bump v t a) = s_ack a"
  by (simp_all add: do_bump_def)

lemma do_timeout_simps [simp]:
  "s_term (do_timeout v t a) = (s_term a)(v := t)" "s_log (do_timeout v t a) = s_log a"
  "s_cand (do_timeout v t a) = (s_cand a)(v := True)"
  "s_lead (do_timeout v t a) = (s_lead a)(v := False)"
  "s_grants (do_timeout v t a) = insert (t, v, v) (s_grants a)"
  "s_leader (do_timeout v t a) = s_leader a" "s_llog (do_timeout v t a) = s_llog a"
  "s_elen (do_timeout v t a) = s_elen a" "s_ack (do_timeout v t a) = s_ack a"
  by (simp_all add: do_timeout_def)

lemma do_grant_simps [simp]:
  "s_term (do_grant v c a) = s_term a" "s_log (do_grant v c a) = s_log a"
  "s_cand (do_grant v c a) = s_cand a" "s_lead (do_grant v c a) = s_lead a"
  "s_grants (do_grant v c a) = insert (s_term a v, v, c) (s_grants a)"
  "s_leader (do_grant v c a) = s_leader a" "s_llog (do_grant v c a) = s_llog a"
  "s_elen (do_grant v c a) = s_elen a" "s_ack (do_grant v c a) = s_ack a"
  by (simp_all add: do_grant_def)

lemma do_elect_simps [simp]:
  "s_term (do_elect n a) = s_term a" "s_log (do_elect n a) = s_log a"
  "s_cand (do_elect n a) = (s_cand a)(n := False)" "s_lead (do_elect n a) = (s_lead a)(n := True)"
  "s_grants (do_elect n a) = s_grants a"
  "s_leader (do_elect n a) = (s_leader a)(s_term a n \<mapsto> n)"
  "s_llog (do_elect n a) = (s_llog a)(s_term a n := s_log a n)"
  "s_elen (do_elect n a) = (s_elen a)(s_term a n := length (s_log a n))"
  "s_ack (do_elect n a) =
     (s_ack a)(s_term a n := (s_ack a (s_term a n))(n := length (s_log a n)))"
  by (simp_all add: do_elect_def Let_def)

lemma do_append_simps [simp]:
  "s_term (do_append n e a) = s_term a"
  "s_log (do_append n e a) = (s_log a)(n := s_log a n @ [e])"
  "s_cand (do_append n e a) = s_cand a" "s_lead (do_append n e a) = s_lead a"
  "s_grants (do_append n e a) = s_grants a" "s_leader (do_append n e a) = s_leader a"
  "s_llog (do_append n e a) = (s_llog a)(s_term a n := s_log a n @ [e])"
  "s_elen (do_append n e a) = s_elen a"
  "s_ack (do_append n e a) =
     (s_ack a)(s_term a n := (s_ack a (s_term a n))(n := Suc (length (s_log a n))))"
  by (simp_all add: do_append_def Let_def)

lemma do_accept_simps [simp]:
  "s_term (do_accept v k l a) = s_term a" "s_log (do_accept v k l a) = (s_log a)(v := l)"
  "s_cand (do_accept v k l a) = s_cand a" "s_lead (do_accept v k l a) = s_lead a"
  "s_grants (do_accept v k l a) = s_grants a" "s_leader (do_accept v k l a) = s_leader a"
  "s_llog (do_accept v k l a) = s_llog a" "s_elen (do_accept v k l a) = s_elen a"
  "s_ack (do_accept v k l a) = (s_ack a)(s_term a v :=
     (s_ack a (s_term a v))(v := max (s_ack a (s_term a v) v) k))"
  by (simp_all add: do_accept_def Let_def)

lemma own_frame [simp]:
  "own (do_bump v t a) = own a" "own (do_timeout v t a) = own a"
  "own (do_grant v c a) = own a" "own (do_accept v k l a) = own a"
  by (simp_all add: own_def fun_eq_iff)

lemma good_frame [simp]:
  "good (do_bump v t a) = good a" "good (do_timeout v t a) = good a"
  "good (do_grant v c a) = good a" "good (do_accept v k l a) = good a"
  by (simp_all add: good_def fun_eq_iff)

section \<open>Preservation by bump, timeout and grant\<close>

lemma vote_invD:
  assumes "vote_inv a" "(t, v, c) \<in> s_grants a"
  shows "t \<le> s_term a v" "t \<le> s_term a c" "(t, v, d) \<in> s_grants a \<Longrightarrow> c = d"
  using assms by (auto simp: vote_inv_def)

lemma leader_inv_leader:
  assumes "leader_inv q a" "s_leader a t = Some n"
  shows "t \<le> s_term a n" "\<exists>Q. q Q \<and> (\<forall>v \<in> Q. (t, v, n) \<in> s_grants a)"
  using assms by (auto simp: leader_inv_def)

lemma leader_inv_lead:
  assumes "leader_inv q a" "s_lead a n"
  shows "s_leader a (s_term a n) = Some n" "s_log a n = s_llog a (s_term a n)"
  using assms by (auto simp: leader_inv_def)

lemma leader_inv_cand:
  assumes "leader_inv q a" "s_cand a n"
  shows "(s_term a n, n, n) \<in> s_grants a" "s_leader a (s_term a n) \<noteq> Some n" "\<not> s_lead a n"
    "e \<in> set (s_log a n) \<Longrightarrow> e_term e < s_term a n"
  using assms by (auto simp: leader_inv_def)

lemma leader_invI:
  assumes "\<And>t n. s_leader a t = Some n \<Longrightarrow>
      t \<le> s_term a n \<and> (\<exists>Q. q Q \<and> (\<forall>v \<in> Q. (t, v, n) \<in> s_grants a))"
    and "\<And>n. s_lead a n \<Longrightarrow> s_leader a (s_term a n) = Some n \<and> s_log a n = s_llog a (s_term a n)"
    and "\<And>n. s_cand a n \<Longrightarrow> (s_term a n, n, n) \<in> s_grants a \<and> s_leader a (s_term a n) \<noteq> Some n \<and>
      \<not> s_lead a n \<and> (\<forall>e \<in> set (s_log a n). e_term e < s_term a n)"
  shows "leader_inv q a"
  unfolding leader_inv_def using assms by simp

lemma bump_vote_inv: "vote_inv a \<Longrightarrow> s_term a v \<le> t \<Longrightarrow> vote_inv (do_bump v t a)"
  unfolding vote_inv_def by (auto intro: le_trans)

lemma bump_leader_inv: "leader_inv q a \<Longrightarrow> s_term a v \<le> t \<Longrightarrow> leader_inv q (do_bump v t a)"
  unfolding leader_inv_def by (auto intro: le_trans)

lemma bump_log_inv: "log_inv a \<Longrightarrow> s_term a v \<le> t \<Longrightarrow> log_inv (do_bump v t a)"
  unfolding log_inv_def by (auto intro: le_trans)

lemma bump_ack_inv: "ack_inv a \<Longrightarrow> s_term a v \<le> t \<Longrightarrow> ack_inv (do_bump v t a)"
  unfolding ack_inv_def by (auto intro: le_trans)

lemma bump_choosable: "choosable q (do_bump v u a) t k \<Longrightarrow> s_term a v \<le> u \<Longrightarrow> choosable q a t k"
  by (erule choosable_antimono) (auto split: if_splits)

lemma bump_safe_inv:
  assumes "safe_inv q a" "s_term a v \<le> t"
  shows "safe_inv q (do_bump v t a)"
proof (rule safe_invI, goal_cases)
  case (1 t' u k)
  then show ?case using safe_inv_later_leader [OF assms(1)] bump_choosable assms(2) by simp
next
  case (2 t' w k)
  then show ?case using safe_inv_acked [OF assms(1)] bump_choosable assms(2) by simp
next
  case (3 t' w c k)
  then show ?case using safe_inv_voted [OF assms(1), of c w t' k] bump_choosable [of q v t a t' k] assms(2)
    by (simp split: if_splits)
qed

lemma timeout_vote_inv:
  assumes "vote_inv a" "s_term a v < t"
  shows "vote_inv (do_timeout v t a)"
proof -
  have "\<not> t \<le> s_term a v" using assms(2) by simp
  then have "(t, v, c) \<notin> s_grants a" for c using vote_invD(1) [OF assms(1)] by blast
  moreover have "vote_inv (do_bump v t a)" using assms by (simp add: bump_vote_inv)
  ultimately show ?thesis unfolding vote_inv_def by auto
qed

lemma timeout_leader_inv:
  assumes "leader_inv q a" "log_inv a" "s_term a v < t"
  shows "leader_inv q (do_timeout v t a)"
proof (rule leader_invI, goal_cases)
  case (1 u n)
  then have "s_leader a u = Some n" by simp
  from leader_inv_leader [OF assms(1) this] assms(3) show ?case by auto
next
  case (2 n)
  with leader_inv_lead [OF assms(1)] show ?case by (auto split: if_splits)
next
  case (3 n)
  show ?case
  proof (cases "n = v")
    case True
    have "s_leader a t \<noteq> Some v" using leader_inv_leader(1) [OF assms(1), of t v] assms(3) by auto
    moreover have "\<forall>e \<in> set (s_log a v). e_term e < t"
      using log_inv_log(2) [OF assms(2)] assms(3) by (auto intro: le_less_trans)
    ultimately show ?thesis using True by simp
  next
    case False
    with 3 leader_inv_cand [OF assms(1), of n] show ?thesis by simp
  qed
qed

lemma timeout_log_inv: "log_inv a \<Longrightarrow> s_term a v < t \<Longrightarrow> log_inv (do_timeout v t a)"
  using bump_log_inv [of a v t] by (simp add: log_inv_def)

lemma timeout_ack_inv: "ack_inv a \<Longrightarrow> s_term a v < t \<Longrightarrow> ack_inv (do_timeout v t a)"
  using bump_ack_inv [of a v t] by (simp add: ack_inv_def)

lemma timeout_choosable: "choosable q (do_timeout v u a) t k \<Longrightarrow> s_term a v < u \<Longrightarrow> choosable q a t k"
  by (erule choosable_antimono) (auto split: if_splits)

lemma timeout_safe_inv:
  assumes "safe_inv q a" "vote_inv a" "s_term a v < t"
  shows "safe_inv q (do_timeout v t a)"
proof (rule safe_invI, goal_cases)
  case (1 t' u k)
  then show ?case using safe_inv_later_leader [OF assms(1)] timeout_choosable assms(3) by simp
next
  case (2 t' w k)
  then show ?case using safe_inv_acked [OF assms(1)] timeout_choosable assms(3) by simp
next
  case (3 t' w c k)
  then have ch: "choosable q a t' k" using timeout_choosable assms(3) by blast
  show ?case
  proof (cases "c = v")
    case True
    with assms(3) have "(t, w, v) \<notin> s_grants a" using vote_invD(2) [OF assms(2)] by fastforce
    with 3 True have "w = v" by auto
    with 3 True show ?thesis using safe_inv_acked [OF assms(1) _ _ ch] by simp
  next
    case False
    with 3 show ?thesis using safe_inv_voted [OF assms(1), of c w t' k] ch by auto
  qed
qed

lemma grant_vote_inv:
  assumes "vote_inv a" "s_term a v \<le> s_term a c" "\<forall>d. (s_term a v, v, d) \<in> s_grants a \<longrightarrow> d = c"
  shows "vote_inv (do_grant v c a)"
  using assms unfolding vote_inv_def by auto

lemma grant_leader_inv: "leader_inv q a \<Longrightarrow> leader_inv q (do_grant v c a)"
  unfolding leader_inv_def by simp (meson insertI2)

lemma grant_log_inv: "log_inv a \<Longrightarrow> log_inv (do_grant v c a)"
  unfolding log_inv_def by simp

lemma grant_ack_inv: "ack_inv a \<Longrightarrow> ack_inv (do_grant v c a)"
  unfolding ack_inv_def by simp

lemma grant_choosable [simp]: "choosable q (do_grant v c a) = choosable q a"
  by (simp add: choosable_def fun_eq_iff)

lemma grant_safe_inv:
  assumes "safe_inv q a" "log_inv a"
    and "s_cand a c \<and> s_term a c = s_term a v \<longrightarrow> not_ahead (s_log a v) (s_log a c)"
  shows "safe_inv q (do_grant v c a)"
proof (rule safe_invI, goal_cases)
  case (1 t' u k)
  then show ?case using safe_inv_later_leader [OF assms(1), of t' u k] by simp
next
  case (2 t' w k)
  then show ?case by (simp add: safe_inv_acked [OF assms(1)])
next
  case (3 t' w d k)
  show ?case
  proof (cases "(s_term a d, w, d) \<in> s_grants a")
    case True
    with 3 show ?thesis using safe_inv_voted [OF assms(1) True] by simp
  next
    case False
    with 3(1) have eq: "w = v" "d = c" "s_term a c = s_term a v" by auto
    from 3(2) eq(2) have "s_cand a c" by simp
    with assms(3) eq(3) have "not_ahead (s_log a v) (s_log a c)" by blast
    moreover have "agree k (s_log a v) (s_llog a t')"
      using 3(4-6) eq(1) by (intro safe_inv_acked [OF assms(1)]) simp_all
    ultimately have "agree k (s_log a c) (s_llog a t')"
      using 3(5,6) log_inv_log(1) [OF assms(2)]
      by - (rule not_ahead_agree [OF assms(2,1) log_inv_log(1) [OF assms(2), of v]
            log_inv_log(1) [OF assms(2), of c]], simp_all)
    with eq show ?thesis by simp
  qed
qed

section \<open>Preservation by accept\<close>

lemma accept_vote_inv: "vote_inv a \<Longrightarrow> vote_inv (do_accept v k l a)"
  unfolding vote_inv_def by simp

lemma accept_leader_inv:
  assumes "leader_inv q a" "\<not> s_cand a v" "\<not> s_lead a v"
  shows "leader_inv q (do_accept v k l a)"
proof (rule leader_invI, goal_cases)
  case (1 t n)
  then show ?case using leader_inv_leader [OF assms(1), of t n] by simp
next
  case (2 n)
  moreover from 2 assms(3) have "n \<noteq> v" by auto
  ultimately show ?case using leader_inv_lead [OF assms(1), of n] by simp
next
  case (3 n)
  moreover from 3 assms(2) have "n \<noteq> v" by auto
  ultimately show ?case using leader_inv_cand [OF assms(1), of n] by simp
qed

lemma accept_log_inv:
  assumes "log_inv a" "l = s_log a v \<or> l = take k (s_llog a (s_term a v))"
  shows "log_inv (do_accept v k l a)"
proof -
  have "good a l"
    using assms(2) log_inv_log(1) [OF assms(1)] log_inv_llog(1) [OF assms(1)] by (auto intro: good_take)
  moreover have "e_term e \<le> s_term a v" if "e \<in> set l" for e
  proof (cases "e \<in> set (s_log a v)")
    case True
    then show ?thesis by (rule log_inv_log(2) [OF assms(1)])
  next
    case False
    with that assms(2) have "e \<in> set (s_llog a (s_term a v))" by (auto dest: in_set_takeD)
    then show ?thesis using llog_term_le [OF assms(1)] by (auto simp: in_set_conv_nth)
  qed
  ultimately show ?thesis using assms(1) unfolding log_inv_def by simp
qed

lemma accept_ack_inv:
  assumes "ack_inv a" "k \<le> length (s_llog a (s_term a v))"
  shows "ack_inv (do_accept v k l a)"
  using assms unfolding ack_inv_def by simp

lemma accept_choosable: "choosable q (do_accept v j l a) t k \<Longrightarrow> choosable q a t k"
  by (erule choosable_antimono) (auto split: if_splits)

text \<open>An accepted slice keeps every choosable entry that the follower has acknowledged.\<close>

lemma accept_keeps:
  assumes inv: "safe_inv q a" "ack_inv a" and T: "T = s_term a v" "s_leader a T \<noteq> None"
    and l: "l = (if agree j (s_log a v) (s_llog a T) then s_log a v else take j (s_llog a T))"
    and k: "k \<le> s_ack a t v" "own a t k" "choosable q a t k"
  shows "agree k l (s_llog a t)"
proof (cases "agree j (s_log a v) (s_llog a T)")
  case True
  with safe_inv_acked [OF inv(1) k] l show ?thesis by simp
next
  case False
  have old: "agree k (s_log a v) (s_llog a t)" by (rule safe_inv_acked [OF inv(1) k])
  from k(1) own_pos [OF k(2)] have "s_ack a t v \<noteq> 0" by simp
  with inv(2) T(1) have "t \<le> T" by (simp add: ack_inv_def)
  then have Lt: "agree k (s_llog a T) (s_llog a t)"
  proof (cases "t = T")
    case True
    with k(2) show ?thesis by (simp add: own_def agree_refl)
  next
    case False
    with \<open>t \<le> T\<close> safe_inv_later_leader [OF inv(1) _ T(2) k(2,3)] show ?thesis by simp
  qed
  with old have "agree k (s_log a v) (s_llog a T)" by (blast intro: agree_trans agree_sym)
  with False have "k < j" using agree_mono [of k _ _ j] not_le by blast
  with Lt l False show ?thesis by simp
qed

lemma accept_safe_inv:
  assumes inv: "safe_inv q a" "vote_inv a" "ack_inv a"
    and T: "s_leader a (s_term a v) \<noteq> None" and nc: "\<not> s_cand a v"
    and j: "j \<le> length (s_llog a (s_term a v))"
    and l: "l = (if agree j (s_log a v) (s_llog a (s_term a v)) then s_log a v
                 else take j (s_llog a (s_term a v)))"
  shows "safe_inv q (do_accept v j l a)"
proof (rule safe_invI, goal_cases)
  case (1 t u k)
  then show ?case
    using safe_inv_later_leader [OF inv(1), of t u k] accept_choosable [OF 1(4)] by simp
next
  case (2 t w k)
  note ch = accept_choosable [OF 2(3)]
  from 2(2) have own: "own a t k" by simp
  show ?case
  proof (cases "w = v")
    case False
    with 2(1) have "k \<le> s_ack a t w" by (simp split: if_splits)
    from safe_inv_acked [OF inv(1) this own ch] False show ?thesis by simp
  next
    case True
    show ?thesis
    proof (cases "k \<le> s_ack a t v")
      case kt: True
      from accept_keeps [OF inv(1,3) refl T l kt own ch] True show ?thesis by simp
    next
      case False
      with 2(1) True have "t = s_term a v" "k \<le> j" by (auto split: if_splits)
      with l j True show ?thesis by (auto intro: agree_mono agree_refl)
    qed
  qed
next
  case (3 t w c k)
  from 3(2) nc have c: "c \<noteq> v" by auto
  have "s_term a c \<le> s_term a w" using 3(1) vote_invD(1) [OF inv(2), of "s_term a c" w c] by simp
  with 3(3) have "w = v \<Longrightarrow> t \<noteq> s_term a v" by auto
  with 3(4) have "k \<le> s_ack a t w" by (auto split: if_splits)
  with 3(1-3,5) c safe_inv_voted [OF inv(1), of c w t k] accept_choosable [OF 3(6)]
  show ?case by simp
qed

section \<open>Preservation by append\<close>

lemma own_append:
  assumes "s_lead a n" "leader_inv q a"
  shows "own (do_append n e a) t k \<longleftrightarrow>
    own a t k \<or> t = s_term a n \<and> k = Suc (length (s_llog a t)) \<and> s_elen a t \<le> length (s_llog a t)"
  using leader_inv_lead [OF assms(2,1)] by (auto simp: own_def)

lemma good_append:
  assumes "s_lead a n" "leader_inv q a" "good a l"
  shows "good (do_append n e a) l"
  unfolding good_def
proof (intro allI impI)
  fix i
  assume "i < length l"
  from goodD [OF assms(3) this] leader_inv_lead [OF assms(2,1)]
  show "own (do_append n e a) (e_term (l ! i)) (Suc i) \<and>
     agree (Suc i) l (s_llog (do_append n e a) (e_term (l ! i)))"
    by (auto simp: own_append [OF assms(1,2)] own_def)
qed

lemma append_leader_inv:
  assumes "s_lead a n" "leader_inv q a"
  shows "leader_inv q (do_append n e a)"
proof (rule leader_invI, goal_cases)
  case (1 t m)
  then show ?case using leader_inv_leader [OF assms(2), of t m] by simp
next
  case (2 m)
  then show ?case
    using leader_inv_lead [OF assms(2), of m] leader_inv_lead [OF assms(2,1)] by auto
next
  case (3 m)
  then have "s_cand a m" by simp
  moreover from this have "m \<noteq> n" using leader_inv_cand(3) [OF assms(2), of m] assms(1) by auto
  ultimately show ?case using leader_inv_cand [OF assms(2), of m] by simp
qed

lemma append_log_inv:
  assumes "s_lead a n" "leader_inv q a" "log_inv a" "e_term e = s_term a n"
  shows "log_inv (do_append n e a)"
proof -
  let ?T = "s_term a n"
  note lead = leader_inv_lead [OF assms(2,1)]
  note good = good_append [OF assms(1,2)]
  have new: "good (do_append n e a) (s_log a n @ [e])"
    unfolding good_def
  proof (intro allI impI)
    fix i
    assume i: "i < length (s_log a n @ [e])"
    show "own (do_append n e a) (e_term ((s_log a n @ [e]) ! i)) (Suc i) \<and>
     agree (Suc i) (s_log a n @ [e]) (s_llog (do_append n e a) (e_term ((s_log a n @ [e]) ! i)))"
    proof (cases "i = length (s_log a n)")
      case True
      with lead assms(4) log_inv_llog(2) [OF assms(3), of ?T] show ?thesis
        by (simp add: own_def agree_refl)
    next
      case False
      with i have "i < length (s_log a n)" by simp
      from goodD [OF good [OF log_inv_log(1) [OF assms(3)]] this] this show ?thesis
        by (simp add: nth_append del: do_append_simps)
    qed
  qed
  have log: "good (do_append n e a) (s_log (do_append n e a) m) \<and>
      (\<forall>x \<in> set (s_log (do_append n e a) m). e_term x \<le> s_term (do_append n e a) m)" for m
    using new good log_inv_log [OF assms(3)] assms(4) by auto
  have llog: "good (do_append n e a) (s_llog (do_append n e a) t)" for t
    using new good log_inv_llog(1) [OF assms(3)] by simp
  have el: "s_elen (do_append n e a) t \<le> length (s_llog (do_append n e a) t) \<and>
      (\<forall>i < length (s_llog (do_append n e a) t).
        if i < s_elen (do_append n e a) t then e_term (s_llog (do_append n e a) t ! i) < t
        else e_term (s_llog (do_append n e a) t ! i) = t)" for t
  proof (cases "t = ?T")
    case False
    then show ?thesis using log_inv_llog [OF assms(3)] by simp
  next
    case True
    then show ?thesis using log_inv_llog(2,4) [OF assms(3), of ?T] log_inv_llog(3) [OF assms(3), of _ ?T]
        lead(2) assms(4)
      by (auto simp: nth_append less_Suc_eq)
  qed
  show ?thesis unfolding log_inv_def using log llog el by blast
qed

lemma append_ack_inv:
  assumes "s_lead a n" "leader_inv q a" "ack_inv a"
  shows "ack_inv (do_append n e a)"
  using assms(3) leader_inv_lead [OF assms(2,1)] unfolding ack_inv_def by (auto intro: le_SucI)

lemma append_choosable: "choosable q (do_append n e a) t k \<Longrightarrow> choosable q a t k"
  by (erule choosable_antimono) (auto split: if_splits)

section \<open>Election\<close>

lemma own_elect:
  assumes "s_leader a (s_term a n) = None"
  shows "own (do_elect n a) t k = own a t k"
  using assms by (auto simp: own_def)

lemma own_not_elect: "s_leader a T = None \<Longrightarrow> own a t k \<Longrightarrow> t \<noteq> T"
  by (auto simp: own_def)

lemma good_elect:
  assumes "s_leader a (s_term a n) = None" "good a l"
  shows "good (do_elect n a) l"
  unfolding good_def
proof (intro allI impI)
  fix i
  assume "i < length l"
  from goodD [OF assms(2) this] own_not_elect [OF assms(1), of "e_term (l ! i)" "Suc i"]
  show "own (do_elect n a) (e_term (l ! i)) (Suc i) \<and>
     agree (Suc i) l (s_llog (do_elect n a) (e_term (l ! i)))"
    by (simp add: own_elect [OF assms(1)])
qed

lemma elect_leader_inv:
  assumes "leader_inv q a" "s_leader a (s_term a n) = None" "q Q"
    and "\<forall>v \<in> Q. (s_term a n, v, n) \<in> s_grants a"
  shows "leader_inv q (do_elect n a)"
proof (rule leader_invI, goal_cases)
  case (1 t m)
  then show ?case using leader_inv_leader [OF assms(1), of t m] assms(3,4)
    by (cases "t = s_term a n") auto
next
  case (2 m)
  then show ?case
    using leader_inv_lead [OF assms(1), of m] assms(2) by (cases "m = n") auto
next
  case (3 m)
  then show ?case using leader_inv_cand [OF assms(1), of m] by (auto split: if_splits)
qed

lemma elect_log_inv:
  assumes "leader_inv q a" "log_inv a" "s_cand a n" "s_leader a (s_term a n) = None"
  shows "log_inv (do_elect n a)"
proof -
  note good = good_elect [OF assms(4)]
  have "good (do_elect n a) (s_llog (do_elect n a) t)" for t
    using good log_inv_llog(1) [OF assms(2)] log_inv_log(1) [OF assms(2)] by simp
  moreover have "s_elen (do_elect n a) t \<le> length (s_llog (do_elect n a) t) \<and>
      (\<forall>i < length (s_llog (do_elect n a) t).
        if i < s_elen (do_elect n a) t then e_term (s_llog (do_elect n a) t ! i) < t
        else e_term (s_llog (do_elect n a) t ! i) = t)" for t
    using log_inv_llog [OF assms(2)] leader_inv_cand(4) [OF assms(1,3)] by simp
  moreover have "good (do_elect n a) (s_log (do_elect n a) m) \<and>
      (\<forall>x \<in> set (s_log (do_elect n a) m). e_term x \<le> s_term (do_elect n a) m)" for m
    using good log_inv_log [OF assms(2)] by simp
  ultimately show ?thesis unfolding log_inv_def by blast
qed

lemma elect_ack_inv:
  assumes "ack_inv a" "s_leader a (s_term a n) = None"
  shows "ack_inv (do_elect n a)"
proof -
  have "s_llog a (s_term a n) = []" using assms by (simp add: ack_inv_def)
  moreover have "s_ack a (s_term a n) v \<le> length (s_llog a (s_term a n))" for v
    using assms(1) by (simp add: ack_inv_def)
  ultimately have "s_ack a (s_term a n) v = 0" for v by simp
  with assms show ?thesis unfolding ack_inv_def by simp
qed

lemma elect_choosable:
  "t \<noteq> s_term a n \<Longrightarrow> choosable q (do_elect n a) t k = choosable q a t k"
  by (simp add: choosable_def)

end
