(* ===== verification/Raft_Spec_Quorum.thy ===== *)
theory Raft_Spec_Quorum
  imports Raft_Spec_Safety
begin

text \<open>
  The safety of the abstract protocol of \<open>Raft_Spec\<close> over any quorum system whose quorums
  intersect (locale \<open>quorum_system\<close>): election and append keep the invariant, so every
  action does; one leader per term, leader completeness, and agreement of everything that
  is known to be committed. The locale is interpreted on the majorities that the code
  counts (\<open>majority_of\<close>).
\<close>

section \<open>Quorums\<close>

text \<open>
  What the protocol asks of the sets that elect a leader and commit an entry: any two of
  them share a node.
\<close>

locale quorum_system =
  fixes q :: "u64 set \<Rightarrow> bool"
  assumes quorums_meet: "q A \<Longrightarrow> q B \<Longrightarrow> A \<inter> B \<noteq> {}"
begin

lemma meetE:
  assumes "q A" "q B"
  obtains v where "v \<in> A" "v \<in> B"
  using quorums_meet [OF assms] by blast

lemma one_leader:
  assumes "vote_inv a" "leader_inv q a" "s_leader a t = Some m"
    and "q Q" "\<forall>v \<in> Q. (t, v, n) \<in> s_grants a"
  shows "m = n"
proof -
  from leader_inv_leader(2) [OF assms(2,3)] obtain P where P: "q P" "\<forall>v \<in> P. (t, v, m) \<in> s_grants a"
    by blast
  obtain v where "v \<in> P" "v \<in> Q" using meetE [OF P(1) assms(4)] .
  with P(2) assms(5) show ?thesis using vote_invD(3) [OF assms(1), of t v m n] by blast
qed

lemma elect_no_leader:
  assumes "vote_inv a" "leader_inv q a" "s_cand a n"
    and "q Q" "\<forall>v \<in> Q. (s_term a n, v, n) \<in> s_grants a"
  shows "s_leader a (s_term a n) = None"
proof (cases "s_leader a (s_term a n)")
  case (Some m)
  from one_leader [OF assms(1,2) Some assms(4,5)] Some leader_inv_cand(2) [OF assms(2,3)]
  show ?thesis by simp
qed

text \<open>A new leader holds every choosable entry: the voters' quorum meets the choosing one.\<close>

lemma elect_complete:
  assumes "vote_inv a" "safe_inv q a" "s_cand a n" "q Q"
    and "\<forall>v \<in> Q. (s_term a n, v, n) \<in> s_grants a"
    and "t < s_term a n" "own a t k" "choosable q a t k"
  shows "agree k (s_log a n) (s_llog a t)"
proof -
  from assms(8) obtain P where P: "q P" "\<forall>v \<in> P. k \<le> s_ack a t v \<or> s_term a v \<le> t"
    by (auto simp: choosable_def)
  obtain v where v: "v \<in> P" "v \<in> Q" using meetE [OF P(1) assms(4)] .
  from v(2) assms(5) have g: "(s_term a n, v, n) \<in> s_grants a" by blast
  from vote_invD(1) [OF assms(1) g] assms(6) P(2) v(1) have "k \<le> s_ack a t v" by fastforce
  from safe_inv_voted [OF assms(2) g assms(3,6) this assms(7,8)] show ?thesis .
qed

lemma elect_safe_inv:
  assumes "vote_inv a" "leader_inv q a" "safe_inv q a" "s_cand a n" "q Q"
    and "\<forall>v \<in> Q. (s_term a n, v, n) \<in> s_grants a"
  shows "safe_inv q (do_elect n a)"
proof -
  note none = elect_no_leader [OF assms(1,2,4-6)]
  have own: "own a t k \<and> t \<noteq> s_term a n \<and> choosable q a t k"
    if "own (do_elect n a) t k" "choosable q (do_elect n a) t k" for t k
    using that own_not_elect [OF none] by (simp add: own_elect [OF none] elect_choosable)
  show ?thesis
  proof (rule safe_invI, goal_cases)
    case (1 t u k)
    note o = own [OF 1(3,4)]
    show ?case
    proof (cases "u = s_term a n")
      case True
      have "agree k (s_log a n) (s_llog a t)"
        using 1(1) o True by (intro elect_complete [OF assms(1,3,4,5,6)]) simp_all
      with True o show ?thesis by (simp add: agree_def)
    next
      case False
      with 1 o show ?thesis using safe_inv_later_leader [OF assms(3), of t u k] by simp
    qed
  next
    case (2 t w k)
    note o = own [OF 2(2,3)]
    with 2(1) show ?case using safe_inv_acked [OF assms(3), of k t w] by simp
  next
    case (3 t w c k)
    note o = own [OF 3(5,6)]
    with 3(1-4) show ?case using safe_inv_voted [OF assms(3), of c w t k]
      by (simp split: if_splits)
  qed
qed

text \<open>An entry appended after a later election cannot be chosen any more.\<close>

lemma append_not_choosable:
  assumes "vote_inv a" "leader_inv q a" "ack_inv a" "s_lead a n"
    and "s_term a n < u" "s_leader a u \<noteq> None" "length (s_llog a (s_term a n)) < k"
  shows "\<not> choosable q (do_append n e a) (s_term a n) k"
proof
  let ?T = "s_term a n"
  assume "choosable q (do_append n e a) ?T k"
  then obtain P where P: "q P" "\<forall>v \<in> P. k \<le> s_ack (do_append n e a) ?T v \<or> s_term a v \<le> ?T"
    by (auto simp: choosable_def)
  from assms(6) obtain m where "s_leader a u = Some m" by blast
  from leader_inv_leader(2) [OF assms(2) this] obtain Q where
    Q: "q Q" "\<forall>v \<in> Q. (u, v, m) \<in> s_grants a" by blast
  obtain v where v: "v \<in> P" "v \<in> Q" using meetE [OF P(1) Q(1)] .
  with Q(2) vote_invD(1) [OF assms(1), of u v m] assms(5) have "?T < s_term a v" by auto
  moreover from this have "v \<noteq> n" by auto
  ultimately have "k \<le> s_ack a ?T v" using P(2) v(1) by auto
  moreover have "s_ack a ?T v \<le> length (s_llog a ?T)" using assms(3) by (simp add: ack_inv_def)
  ultimately show False using assms(7) by simp
qed

lemma append_safe_inv:
  assumes inv: "vote_inv a" "leader_inv q a" "log_inv a" "ack_inv a" "safe_inv q a" "s_lead a n"
  shows "safe_inv q (do_append n e a)"
proof -
  let ?T = "s_term a n"
  note lead = leader_inv_lead [OF inv(2,6)]
  note own_iff = own_append [OF inv(6,2)]
  have ack: "s_ack a t v \<le> length (s_llog a t)" for t v using inv(4) by (simp add: ack_inv_def)
  have llog: "agree k l (s_llog a t) \<Longrightarrow> agree k l (s_llog (do_append n e a) t)" for k l t
    using lead(2) agree_lengths [of k l "s_llog a t"] by auto
  have log: "agree k (s_log a w) l \<Longrightarrow> agree k (s_log (do_append n e a) w) l" for k l w
    using agree_lengths [of k "s_log a w" l] by auto
  have old: "own a t k" if "own (do_append n e a) t k" "k \<le> s_ack a t v" for t k v
    using that ack [of t v] by (auto simp: own_iff)
  show ?thesis
  proof (rule safe_invI, goal_cases)
    case (1 t u k)
    have leader: "s_leader a u \<noteq> None" using 1(2) by simp
    have own: "own a t k"
    proof (rule ccontr)
      assume "\<not> own a t k"
      with 1(3) have "t = ?T" "length (s_llog a ?T) < k" by (auto simp: own_iff)
      with append_not_choosable [OF inv(1,2,4,6) _ leader, of k e] 1(1,4) show False by simp
    qed
    from safe_inv_later_leader [OF inv(5) 1(1) leader own append_choosable [OF 1(4)]]
    have "k \<le> s_elen a u" "agree k (s_llog a u) (s_llog a t)" by simp_all
    from this(1) llog [OF agree_sym [OF llog [OF this(2)]]] show ?case
      by (simp del: do_append_simps(7)) (rule agree_sym)
  next
    case (2 t w k)
    show ?case
    proof (cases "k \<le> s_ack a t w")
      case True
      from safe_inv_acked [OF inv(5) True old [OF 2(2) True] append_choosable [OF 2(3)]]
      show ?thesis by (intro log llog)
    next
      case False
      with 2(1) have "w = n" "t = ?T" by (auto split: if_splits)
      with 2(2) show ?thesis by (simp add: own_def agree_refl)
    qed
  next
    case (3 t w c k)
    have g: "(s_term a c, w, c) \<in> s_grants a" and c: "s_cand a c" "t < s_term a c"
      using 3(1-3) by simp_all
    have "w = n \<Longrightarrow> t \<noteq> ?T" using vote_invD(1) [OF inv(1) g] c(2) by auto
    with 3(4) have k: "k \<le> s_ack a t w" by (auto split: if_splits)
    from safe_inv_voted [OF inv(5) g c k old [OF 3(5) k] append_choosable [OF 3(6)]]
    show ?case by (intro log llog)
  qed
qed

theorem spec_step_inv:
  assumes "spec_step q a b" "spec_inv q a"
  shows "spec_inv q b"
proof -
  from assms(2) have inv: "vote_inv a" "leader_inv q a" "log_inv a" "ack_inv a" "safe_inv q a"
    by (simp_all add: spec_inv_def)
  from assms(1) show ?thesis
  proof (cases rule: spec_stepE)
    case (bump v t)
    with inv show ?thesis unfolding spec_inv_def
      by (simp add: bump_vote_inv bump_leader_inv bump_log_inv bump_ack_inv bump_safe_inv)
  next
    case (timeout v t)
    with inv show ?thesis unfolding spec_inv_def
      by (simp add: timeout_vote_inv timeout_leader_inv timeout_log_inv timeout_ack_inv
          timeout_safe_inv)
  next
    case (grant v c)
    with inv show ?thesis unfolding spec_inv_def
      by (simp add: grant_vote_inv grant_leader_inv grant_log_inv grant_ack_inv grant_safe_inv)
  next
    case (elect n Q)
    note none = elect_no_leader [OF inv(1,2) elect(2-4)]
    have "vote_inv b" using inv(1) elect(1) unfolding vote_inv_def by simp
    with inv none elect show ?thesis unfolding spec_inv_def
      using elect_leader_inv [OF inv(2) none] elect_log_inv [OF inv(2,3)] elect_ack_inv [OF inv(4)]
        elect_safe_inv [OF inv(1,2,5)] by blast
  next
    case (append n e)
    have "vote_inv b" using inv(1) append(1) unfolding vote_inv_def by simp
    with inv append show ?thesis unfolding spec_inv_def
      using append_leader_inv [OF append(2) inv(2)] append_log_inv [OF append(2) inv(2,3)]
        append_ack_inv [OF append(2) inv(2,4)] append_safe_inv [OF inv append(2)] by blast
  next
    case (accept v prev len l n)
    have l: "l = (if agree (prev + len) (s_log a v) (s_llog a (s_term a v)) then s_log a v
                 else take (prev + len) (s_llog a (s_term a v)))"
      using accept log_inv_log(1) [OF inv(3)] log_inv_llog(1) [OF inv(3)]
      by (intro accept_result [of a]) simp_all
    then have ll: "l = s_log a v \<or> l = take (prev + len) (s_llog a (s_term a v))" by simp
    have "s_leader a (s_term a v) \<noteq> None" using accept(8) by simp
    note safe = accept_safe_inv [OF inv(5,1,4) this accept(2,4) l]
    show ?thesis unfolding spec_inv_def accept(1)
      using accept_vote_inv [OF inv(1)] accept_leader_inv [OF inv(2) accept(2,3)]
        accept_log_inv [OF inv(3) ll] accept_ack_inv [OF inv(4) accept(4)] safe by blast
  qed
qed

lemma spec_init_inv: "spec_inv q spec_init"
  by (simp add: spec_inv_def vote_inv_def leader_inv_def log_inv_def ack_inv_def safe_inv_def
      good_def own_def spec_init_def)

theorem spec_reachable_inv: "spec_reachable q a \<Longrightarrow> spec_inv q a"
  by (induction rule: spec_reachable.induct) (blast intro: spec_init_inv spec_step_inv)+

end

section \<open>What stays committed, and agrees\<close>

text \<open>The order in which abstract states follow each other: nothing committed is lost.\<close>

definition extends :: "spec \<Rightarrow> spec \<Rightarrow> bool" where
  "extends a b \<longleftrightarrow>
     (\<forall>t. s_leader a t \<noteq> None \<longrightarrow> s_leader b t = s_leader a t \<and> s_elen b t = s_elen a t \<and>
        agree (length (s_llog a t)) (s_llog b t) (s_llog a t)) \<and>
     (\<forall>t v. s_ack a t v \<le> s_ack b t v) \<and> (\<forall>v. s_term a v \<le> s_term b v) \<and> s_grants a \<subseteq> s_grants b"

lemma extends_refl: "extends a a"
  by (simp add: extends_def agree_refl)

lemma extendsD:
  assumes "extends a b"
  shows "s_leader a t = Some n \<Longrightarrow> s_leader b t = Some n"
    "s_leader a t \<noteq> None \<Longrightarrow> s_elen b t = s_elen a t"
    "s_leader a t \<noteq> None \<Longrightarrow> agree (length (s_llog a t)) (s_llog b t) (s_llog a t)"
    "s_ack a t v \<le> s_ack b t v" "s_term a v \<le> s_term b v" "x \<in> s_grants a \<Longrightarrow> x \<in> s_grants b"
  using assms by (auto simp: extends_def)

lemma extends_trans:
  assumes "extends a b" "extends b c"
  shows "extends a c"
proof -
  have "s_leader c t = s_leader a t \<and> s_elen c t = s_elen a t \<and>
      agree (length (s_llog a t)) (s_llog c t) (s_llog a t)" if "s_leader a t \<noteq> None" for t
  proof -
    from that obtain n where n: "s_leader a t = Some n" by blast
    note b = extendsD(1) [OF assms(1) n]
    have ab: "agree (length (s_llog a t)) (s_llog b t) (s_llog a t)"
      by (rule extendsD(3) [OF assms(1) that])
    have "agree (length (s_llog b t)) (s_llog c t) (s_llog b t)"
      using b by (intro extendsD(3) [OF assms(2)]) simp
    then have "agree (length (s_llog a t)) (s_llog c t) (s_llog b t)"
      using agree_lengths [OF ab] by (blast intro: agree_mono)
    from agree_trans [OF this ab] show ?thesis
      using n b extendsD(1) [OF assms(2) b] extendsD(2) [OF assms(1), of t]
        extendsD(2) [OF assms(2), of t] by simp
  qed
  then show ?thesis
    using extendsD(4,5,6) [OF assms(1)] extendsD(4,5,6) [OF assms(2)]
    unfolding extends_def by (blast intro: le_trans)
qed

lemma own_extends: "extends a b \<Longrightarrow> own a t k \<Longrightarrow> own b t k"
  using extendsD(1-3) [of a b t] agree_lengths [OF extendsD(3), of a b t] by (auto simp: own_def)

lemma committed_extends: "extends a b \<Longrightarrow> committed q a t k \<Longrightarrow> committed q b t k"
  unfolding committed_def by (blast intro: own_extends le_trans extendsD(4))

lemma known_extends:
  assumes "extends a b" "known q a t l c" "t \<le> t'"
  shows "known q b t' l c"
proof (cases "c = 0")
  case False
  with assms(2) obtain u k where k: "u \<le> t" "committed q a u k" "c \<le> k" "agree c l (s_llog a u)"
    by (auto simp: known_def)
  from k(2) have "s_leader a u \<noteq> None" by (auto simp: committed_def own_def)
  from extendsD(3) [OF assms(1) this] agree_lengths [OF k(4)] have "agree c (s_llog a u) (s_llog b u)"
    by (blast intro: agree_mono agree_sym)
  from agree_trans [OF k(4) this] committed_extends [OF assms(1) k(2)] k(1,3) assms(3)
  show ?thesis unfolding known_def by (blast intro: le_trans)
qed (simp add: known_def)

lemma known_length: "known q a t l c \<Longrightarrow> c \<le> length l"
  by (auto simp: known_def agree_def)

lemma known_agree: "known q a t l c \<Longrightarrow> agree d m l \<Longrightarrow> c \<le> d \<Longrightarrow> known q a t m c"
  unfolding known_def by (blast intro: agree_trans agree_mono)

lemma known_mono: "known q a t l c \<Longrightarrow> d \<le> c \<Longrightarrow> known q a t l d"
  unfolding known_def by (meson agree_mono le_trans le_zero_eq)

context quorum_system
begin

lemma committed_later:
  assumes "spec_inv q a" "committed q a t k" "t \<le> u" "s_leader a u \<noteq> None"
  shows "agree k (s_llog a u) (s_llog a t)"
proof (cases "t = u")
  case True
  with assms(2) show ?thesis by (simp add: committed_def own_def agree_refl)
next
  case False
  with assms safe_inv_later_leader [of q a t u k] committed_choosable [OF assms(2)] show ?thesis
    by (simp add: spec_inv_def committed_def)
qed

lemma known_leader:
  assumes "spec_inv q a" "known q a t l c" "t \<le> u" "s_leader a u \<noteq> None"
  shows "agree c l (s_llog a u)"
proof (cases "c = 0")
  case False
  with assms(2) obtain v k where k: "v \<le> t" "committed q a v k" "c \<le> k" "agree c l (s_llog a v)"
    by (auto simp: known_def)
  from committed_later [OF assms(1) k(2) le_trans [OF k(1) assms(3)] assms(4)] k(3)
  have "agree c (s_llog a v) (s_llog a u)" by (blast intro: agree_mono agree_sym)
  with k(4) show ?thesis by (rule agree_trans)
qed simp

theorem known_unique:
  assumes "spec_inv q a" "known q a t l c" "known q a u m d"
  shows "agree (min c d) l m"
proof (cases "c = 0 \<or> d = 0")
  case False
  have *: "agree (min c d) l m"
    if "known q a t l c" "d \<noteq> 0" "w \<le> u" "t \<le> w" "committed q a w k" "d \<le> k"
      "agree d m (s_llog a w)" for t u w l m c d k
  proof -
    from that(5) have "s_leader a w \<noteq> None" by (auto simp: committed_def own_def)
    from known_leader [OF assms(1) that(1,4) this] that(7) show ?thesis by (rule agree_linear)
  qed
  from False assms(2) obtain v k where v: "v \<le> t" "committed q a v k" "c \<le> k" "agree c l (s_llog a v)"
    by (auto simp: known_def)
  from False assms(3) obtain w j where w: "w \<le> u" "committed q a w j" "d \<le> j" "agree d m (s_llog a w)"
    by (auto simp: known_def)
  have kv: "known q a v l c" and kw: "known q a w m d" using v w unfolding known_def by blast+
  show ?thesis
  proof (cases "v \<le> w")
    case True
    from False have "d \<noteq> 0" by simp
    from * [OF kv this order.refl True w(2-4)] show ?thesis .
  next
    case F: False
    then have "w \<le> v" by simp
    from False have "c \<noteq> 0" by simp
    from * [OF kw this order.refl \<open>w \<le> v\<close> v(2-4)] show ?thesis
      by (simp add: min.commute agree_sym)
  qed
qed auto

lemma spec_step_extends:
  assumes "spec_step q a b" "spec_inv q a"
  shows "extends a b"
proof -
  from assms(2) have inv: "vote_inv a" "leader_inv q a" "log_inv a" "ack_inv a" "safe_inv q a"
    by (simp_all add: spec_inv_def)
  have ack: "s_ack a t v \<le> length (s_llog a t)" for t v using inv(4) by (simp add: ack_inv_def)
  from assms(1) show ?thesis
  proof (cases rule: spec_stepE)
    case (elect n Q)
    note none = elect_no_leader [OF inv(1,2) elect(2-4)]
    with ack [of "s_term a n"] inv(4) have "s_ack a (s_term a n) v = 0" for v
      by (simp add: ack_inv_def)
    with none show ?thesis unfolding elect(1) extends_def by (auto simp: agree_refl)
  next
    case (append n e)
    note lead = leader_inv_lead [OF inv(2) append(2)]
    with ack [of "s_term a n" n] show ?thesis
      unfolding append(1) extends_def by (auto simp: agree_refl intro: le_SucI)
  qed (auto simp: extends_def agree_refl)
qed

text \<open>A follower that takes a slice keeps what it knows to be committed.\<close>

lemma accept_known:
  assumes "spec_inv q a" "known q a (s_term a v) (s_log a v) c"
    and "s_leader a (s_term a v) \<noteq> None"
    and "prev + len \<le> length (s_llog a (s_term a v))" "prev \<le> length (s_log a v)"
    and "prev > 0 \<longrightarrow> e_term (s_log a v ! (prev - 1)) = e_term (s_llog a (s_term a v) ! (prev - 1))"
    and "append_spec (s_log a v) prev (slice prev len (s_llog a (s_term a v))) l"
  shows "known q a (s_term a v) l c" "agree (prev + len) l (s_llog a (s_term a v))"
proof -
  let ?L = "s_llog a (s_term a v)"
  from assms(1) have inv: "log_inv a" by (simp add: spec_inv_def)
  have l: "l = (if agree (prev + len) (s_log a v) ?L then s_log a v else take (prev + len) ?L)"
    using assms(4-7) log_inv_log(1) [OF inv] log_inv_llog(1) [OF inv]
    by (intro accept_result [of a]) simp_all
  with assms(4) show "agree (prev + len) l ?L" by (auto simp: agree_refl)
  have c: "agree c (s_log a v) ?L" by (rule known_leader [OF assms(1,2) order.refl assms(3)])
  show "known q a (s_term a v) l c"
  proof (cases "agree (prev + len) (s_log a v) ?L")
    case False
    with c have "c < prev + len" using agree_mono not_le by blast
    with c l False have "agree c l (s_log a v)" by (auto intro: agree_sym)
    from known_agree [OF assms(2) this] show ?thesis by simp
  qed (simp add: l assms(2))
qed

end

section \<open>Majorities\<close>

text \<open>
  The quorums of the code: sets of nodes with at least \<open>(peers.size() + 1) / 2 + 1\<close>
  members, where a node's peers are the other nodes of the cluster.
\<close>

definition majority_of :: "u64 list \<Rightarrow> u64 set \<Rightarrow> bool" where
  "majority_of ids Q \<longleftrightarrow> Q \<subseteq> set ids \<and> length ids div 2 + 1 \<le> card Q"

interpretation maj: quorum_system "majority_of ids" for ids
proof
  fix A B
  assume a: "majority_of ids A" and b: "majority_of ids B"
  show "A \<inter> B \<noteq> {}"
  proof
    assume e: "A \<inter> B = {}"
    have fin: "finite A" "finite B"
      using a b by (auto simp: majority_of_def intro: finite_subset)
    have "card (A \<union> B) \<le> card (set ids)"
      using a b by (intro card_mono) (auto simp: majority_of_def)
    also have "\<dots> \<le> length ids" by (rule card_length)
    finally have "card A + card B \<le> length ids"
      using card_Un_disjoint [OF fin e] by simp
    moreover have "length ids div 2 + 1 \<le> card A" "length ids div 2 + 1 \<le> card B"
      using a b by (simp_all add: majority_of_def)
    ultimately show False by linarith
  qed
qed

end
