(* ===== verification/Raft_Relation.thy ===== *)
theory Raft_Relation
  imports Raft_Cluster Raft_Spec_Quorum
begin

text \<open>
  The relation between a state of the cluster (\<open>Raft_Cluster\<close>) and a state of the
  abstract protocol (\<open>Raft_Spec\<close>): per node, per program counter, and per message.

  \<^item> \<open>node_rel\<close>: terms, logs and roles correspond; a vote of the current term is
    remembered in \<open>voted_for\<close>, unless the node won the term and forgot it; the committed
    prefix and the applied results are known to be committed.
  \<^item> \<open>pc_rel\<close>: a candidate's count is a set of granted votes; what it is about to send is
    true while it stays a candidate of that term; a leader's next and match indices are
    right once they have been initialised.
  \<^item> \<open>rv_req_ok\<close>, \<open>ae_req_ok\<close>: a vote request is true as long as its sender is still a
    candidate of its term; an AppendEntries request is a slice of the log of its term's
    leader, with a commit index that it covers.

  \<open>rel_step\<close> is the frame lemma: what has to be shown of a step at one node.
\<close>

section \<open>Definitions\<close>

subsection \<open>Messages and results\<close>

definition ae_req_ok :: "u64 list \<Rightarrow> spec \<Rightarrow> u64 \<Rightarrow> AppendEntriesRequest \<Rightarrow> bool" where
  "ae_req_ok ms a f req \<longleftrightarrow>
     (let t = ae_term req; L = s_llog a t; k = ae_prevLogIndex req; m = length (ae_entries req) in
      s_leader a t = Some f \<and> k + m \<le> length L \<and> slice k m L = ae_entries req \<and>
      (k > 0 \<longrightarrow> ae_prevLogTerm req = e_term (L ! (k - 1))) \<and>
      ae_leaderCommit req \<le> k + m \<and> known (majority_of ms) a t L (ae_leaderCommit req))"

definition rv_req_ok :: "u64 \<Rightarrow> Raft \<Rightarrow> RequestVoteReq \<Rightarrow> bool" where
  "rv_req_ok f s req \<longleftrightarrow>
     rv_candidateId req = f \<and> rv_term req \<le> current_term s \<and>
     (role s = CANDIDATE \<and> current_term s = rv_term req \<longrightarrow>
        rv_lastLogIndex req = length (rlog s) \<and> rv_lastLogTerm req = last_log_term (rlog s))"

definition out_ok :: "u64 list \<Rightarrow> spec \<Rightarrow> u64 \<Rightarrow> ApplyResult \<Rightarrow> bool" where
  "out_ok ms a t r \<longleftrightarrow>
     ar_valid r \<and> 0 < ar_index r \<and>
     (\<exists>l. known (majority_of ms) a t l (ar_index r) \<and> ar_data r = e_command (l ! (ar_index r - 1)))"

subsection \<open>Nodes and program counters\<close>

definition node_rel :: "u64 list \<Rightarrow> spec \<Rightarrow> (u64 \<times> u64) set \<Rightarrow> u64 \<Rightarrow> Raft \<Rightarrow> bool" where
  "node_rel ms a el n s \<longleftrightarrow>
     node_id s = n \<and> peers_of n ms (peers s) \<and>
     s_term a n = current_term s \<and> s_log a n = rlog s \<and>
     s_cand a n = (role s = CANDIDATE) \<and> s_lead a n = (role s = LEADER) \<and>
     (\<forall>d. (current_term s, n, d) \<in> s_grants a \<longrightarrow>
        voted_for s = Some d \<or> voted_for s = None \<and> (current_term s, n) \<in> el) \<and>
     known (majority_of ms) a (current_term s) (rlog s) (commit_index s) \<and>
     last_applied s = commit_index s \<and>
     distinct (map fst (matchIndex s)) \<and> fst ` set (matchIndex s) \<subseteq> set ms - {n} \<and>
     distinct (map fst (nextIndex s)) \<and> fst ` set (nextIndex s) \<subseteq> set ms - {n} \<and>
     (role s = LEADER \<longrightarrow> length (rlog s) \<le> s_ack a (current_term s) n) \<and>
     (\<forall>r \<in> set (ready_out s). out_ok ms a (current_term s) r)"

definition lead_rel :: "u64 list \<Rightarrow> spec \<Rightarrow> u64 \<Rightarrow> Raft \<Rightarrow> bool" where
  "lead_rel ms a n s \<longleftrightarrow>
     next_ok s \<and> set ms - {n} \<subseteq> fst ` set (nextIndex s) \<and>
     (\<forall>(p, m) \<in> set (matchIndex s). m \<le> s_ack a (current_term s) p)"

text \<open>
  \<open>votes\<close> counts a set of nodes that voted for \<open>n\<close> and are not among those still to
  be asked.
\<close>

definition tally_ok :: "u64 list \<Rightarrow> spec \<Rightarrow> u64 \<Rightarrow> Raft \<Rightarrow> u64 \<Rightarrow> (u64, bool) umap \<Rightarrow> bool" where
  "tally_ok ms a n s votes rest \<longleftrightarrow>
     distinct (map fst rest) \<and> fst ` set rest \<subseteq> set ms - {n} \<and> snd ` set rest \<subseteq> {True} \<and>
     (role s = CANDIDATE \<longrightarrow>
        (\<exists>S. n \<in> S \<and> S \<subseteq> set ms \<and> S \<inter> fst ` set rest = {} \<and> card S = votes \<and>
           (\<forall>v \<in> S. (current_term s, v, n) \<in> s_grants a)))"

definition preq_ok :: "u64 list \<Rightarrow> spec \<Rightarrow> u64 \<Rightarrow> Raft \<Rightarrow> PeerReq \<Rightarrow> bool" where
  "preq_ok ms a n s r \<longleftrightarrow>
     preq_peer_id r \<in> set ms - {n} \<and> preq_prev_idx r = ae_prevLogIndex (preq_request r) \<and>
     preq_entries_sent r = length (ae_entries (preq_request r)) \<and>
     ae_req_ok ms a n (preq_request r) \<and>
     (role s = LEADER \<longrightarrow> ae_term (preq_request r) = current_term s)"

definition pc_rel :: "u64 list \<Rightarrow> spec \<Rightarrow> u64 \<Rightarrow> Raft \<Rightarrow> run_pc \<Rightarrow> bool" where
  "pc_rel ms a n s p \<longleftrightarrow>
     (role s = LEADER \<and> p \<noteq> BecameLeader \<longrightarrow> lead_rel ms a n s) \<and>
     (case p of
        VoteNext votes rest \<Rightarrow> tally_ok ms a n s votes rest
      | VoteTerm votes x rest t \<Rightarrow>
          tally_ok ms a n s votes ((x, True) # rest) \<and> t \<le> current_term s \<and>
          (role s = CANDIDATE \<longrightarrow> t = current_term s)
      | VoteIdx votes x rest t i \<Rightarrow>
          tally_ok ms a n s votes ((x, True) # rest) \<and> t \<le> current_term s \<and>
          (role s = CANDIDATE \<longrightarrow> t = current_term s \<and> i = length (rlog s))
      | VoteCall votes x rest req \<Rightarrow>
          tally_ok ms a n s votes ((x, True) # rest) \<and>
          (role s = CANDIDATE \<longrightarrow> rv_term req = current_term s)
      | VoteReply votes x rest rep \<Rightarrow>
          tally_ok ms a n s votes ((x, True) # rest) \<and>
          (role s = CANDIDATE \<and> rvr_voteGranted rep \<longrightarrow> (current_term s, x, n) \<in> s_grants a)
      | VoteStale votes rep \<Rightarrow> tally_ok ms a n s votes []
      | VoteTally votes \<Rightarrow> tally_ok ms a n s votes []
      | HbCalls _ reqs \<Rightarrow> (\<forall>r \<in> set reqs. preq_ok ms a n s r)
      | HbApply _ rs \<Rightarrow> (\<forall>r \<in> set rs. out_ok ms a (current_term s) r)
      | _ \<Rightarrow> True)"

subsection \<open>The whole cluster\<close>

definition msg_rel :: "cluster \<Rightarrow> spec \<Rightarrow> bool" where
  "msg_rel c a \<longleftrightarrow>
     (\<forall>(f, n, req) \<in> rv_calls c. f \<in> set (members c) \<and> n \<in> set (members c) \<and> rv_req_ok f (node c f) req) \<and>
     (\<forall>(f, n, req, rep) \<in> rv_rets c. rvr_voteGranted rep \<longrightarrow> (rv_term req, n, f) \<in> s_grants a) \<and>
     (\<forall>(f, n, req) \<in> ae_calls c. n \<in> set (members c) \<and> ae_req_ok (members c) a f req) \<and>
     (\<forall>(f, n, req, rep) \<in> ae_rets c. aer_success rep \<longrightarrow>
        ae_prevLogIndex req + length (ae_entries req) \<le> s_ack a (ae_term req) n)"

definition rel :: "cluster \<Rightarrow> spec \<Rightarrow> bool" where
  "rel c a \<longleftrightarrow>
     spec_reachable (majority_of (members c)) a \<and> distinct (members c) \<and>
     (\<forall>t n. s_leader a t = Some n \<longleftrightarrow> (t, n) \<in> elected c) \<and>
     (\<forall>n \<in> set (members c). node_rel (members c) a (elected c) n (node c n) \<and>
        pc_rel (members c) a n (node c n) (pc c n)) \<and>
     msg_rel c a"

subsection \<open>Abstract steps at one node\<close>

definition others_same :: "u64 \<Rightarrow> spec \<Rightarrow> spec \<Rightarrow> bool" where
  "others_same v a b \<longleftrightarrow>
     (\<forall>m. m \<noteq> v \<longrightarrow> s_term b m = s_term a m \<and> s_log b m = s_log a m \<and> s_cand b m = s_cand a m \<and>
        s_lead b m = s_lead a m \<and> (\<forall>t d. (t, m, d) \<in> s_grants b \<longleftrightarrow> (t, m, d) \<in> s_grants a))"

definition sim :: "u64 list \<Rightarrow> u64 \<Rightarrow> spec \<Rightarrow> spec \<Rightarrow> bool" where
  "sim ms v a b \<longleftrightarrow> spec_steps (majority_of ms) a b \<and> others_same v a b"

section \<open>Abstract steps at one node\<close>

lemma sim_refl [simp, intro]: "sim ms v a a"
  by (simp add: sim_def others_same_def spec_refl)

lemma sim_step: "sim ms v a b \<Longrightarrow> spec_step (majority_of ms) b c \<Longrightarrow> others_same v b c \<Longrightarrow> sim ms v a c"
  by (auto simp: sim_def others_same_def intro: spec_trans)

lemma sim_one: "spec_step (majority_of ms) a b \<Longrightarrow> others_same v a b \<Longrightarrow> sim ms v a b"
  by (rule sim_step [OF sim_refl])

lemma others_same_actions [simp]:
  "others_same v a (do_bump v t a)" "others_same v a (do_timeout v t a)"
  "others_same v a (do_grant v d a)" "others_same v a (do_elect v a)"
  "others_same v a (do_append v e a)" "others_same v a (do_accept v k l a)"
  by (auto simp: others_same_def)

lemma spec_steps_reachable: "spec_steps q a b \<Longrightarrow> spec_reachable q a \<Longrightarrow> spec_reachable q b"
  by (induction rule: spec_steps.induct) (auto intro: spec_next)

lemma spec_steps_extends:
  "spec_steps (majority_of ms) a b \<Longrightarrow> spec_reachable (majority_of ms) a \<Longrightarrow> extends a b"
proof (induction rule: spec_steps.induct)
  case (spec_trans a b c)
  then have "spec_reachable (majority_of ms) b" by (blast intro: spec_steps_reachable)
  with spec_trans maj.spec_step_extends maj.spec_reachable_inv show ?case
    by (blast intro: extends_trans)
qed (rule extends_refl)

lemma sim_extends: "sim ms v a b \<Longrightarrow> spec_reachable (majority_of ms) a \<Longrightarrow> extends a b"
  by (auto simp: sim_def intro: spec_steps_extends)

section \<open>What an extension of the abstract state keeps\<close>

lemma out_ok_extends: "extends a b \<Longrightarrow> out_ok ms a t r \<Longrightarrow> t \<le> t' \<Longrightarrow> out_ok ms b t' r"
  unfolding out_ok_def by (blast intro: known_extends)

lemma slice_agree: "agree j L M \<Longrightarrow> k + m \<le> j \<Longrightarrow> slice k m L = slice k m M"
  using agree_mono [of j L M "k + m"] by (simp add: slice_def take_drop agree_def add.commute)

lemma ae_req_ok_extends:
  assumes "extends a b" "ae_req_ok ms a f req"
  shows "ae_req_ok ms b f req"
proof -
  let ?t = "ae_term req" and ?k = "ae_prevLogIndex req" and ?m = "length (ae_entries req)"
  from assms(2) have r: "s_leader a ?t = Some f" "?k + ?m \<le> length (s_llog a ?t)"
    "slice ?k ?m (s_llog a ?t) = ae_entries req"
    "?k > 0 \<longrightarrow> ae_prevLogTerm req = e_term (s_llog a ?t ! (?k - 1))"
    "ae_leaderCommit req \<le> ?k + ?m" "known (majority_of ms) a ?t (s_llog a ?t) (ae_leaderCommit req)"
    by (simp_all add: ae_req_ok_def Let_def)
  have ag: "agree (length (s_llog a ?t)) (s_llog b ?t) (s_llog a ?t)"
    using r(1) by (intro extendsD(3) [OF assms(1)]) simp
  have "slice ?k ?m (s_llog b ?t) = ae_entries req" using slice_agree [OF ag r(2)] r(3) by simp
  moreover have "?k > 0 \<longrightarrow> ae_prevLogTerm req = e_term (s_llog b ?t ! (?k - 1))"
    using r(2,4) agree_nth [OF ag, of "?k - 1"] by auto
  moreover have "known (majority_of ms) b ?t (s_llog b ?t) (ae_leaderCommit req)"
    using r(2,5) by (intro known_agree [OF known_extends [OF assms(1) r(6) order.refl] ag]) simp
  ultimately show ?thesis
    using r extendsD(1) [OF assms(1) r(1)] agree_lengths [OF ag] by (simp add: ae_req_ok_def Let_def)
qed

lemma node_rel_other:
  assumes "extends a b" "others_same v a b" "n \<noteq> v" "el \<subseteq> el'" "node_rel ms a el n s"
  shows "node_rel ms b el' n s"
proof -
  from assms(2,3) have same: "s_term b n = s_term a n" "s_log b n = s_log a n" "s_cand b n = s_cand a n"
    "s_lead b n = s_lead a n" "\<And>t d. (t, n, d) \<in> s_grants b \<longleftrightarrow> (t, n, d) \<in> s_grants a"
    by (simp_all add: others_same_def)
  have "known (majority_of ms) b (current_term s) (rlog s) (commit_index s)"
    using assms(5) by (intro known_extends [OF assms(1)]) (auto simp: node_rel_def)
  moreover have "length (rlog s) \<le> s_ack b (current_term s) n" if "role s = LEADER"
    using that assms(5) extendsD(4) [OF assms(1)] by (auto simp: node_rel_def intro: le_trans)
  moreover have "\<forall>r \<in> set (ready_out s). out_ok ms b (current_term s) r"
    using assms(5) out_ok_extends [OF assms(1)] by (auto simp: node_rel_def)
  ultimately show ?thesis
    using assms(4,5) by (auto simp: node_rel_def same)
qed

lemma tally_ok_extends: "extends a b \<Longrightarrow> tally_ok ms a n s votes rest \<Longrightarrow> tally_ok ms b n s votes rest"
  unfolding tally_ok_def by (blast intro: extendsD(6))

lemma lead_rel_extends: "extends a b \<Longrightarrow> lead_rel ms a n s \<Longrightarrow> lead_rel ms b n s"
  unfolding lead_rel_def by (blast intro: le_trans extendsD(4))

lemma preq_ok_extends: "extends a b \<Longrightarrow> preq_ok ms a n s r \<Longrightarrow> preq_ok ms b n s r"
  unfolding preq_ok_def by (blast intro: ae_req_ok_extends)

lemma pc_rel_extends:
  assumes "extends a b" "pc_rel ms a n s p"
  shows "pc_rel ms b n s p"
  using assms(2) extendsD(6) [OF assms(1)]
  by (cases p) (auto simp: pc_rel_def tally_ok_extends [OF assms(1)] lead_rel_extends [OF assms(1)]
      preq_ok_extends [OF assms(1)] out_ok_extends [OF assms(1)])

section \<open>The frame lemma\<close>

lemma relD:
  assumes "rel c a"
  shows "spec_reachable (majority_of (members c)) a" "distinct (members c)"
    "s_leader a t = Some n \<longleftrightarrow> (t, n) \<in> elected c"
    "n \<in> set (members c) \<Longrightarrow> node_rel (members c) a (elected c) n (node c n)"
    "n \<in> set (members c) \<Longrightarrow> pc_rel (members c) a n (node c n) (pc c n)"
    "msg_rel c a"
  using assms by (simp_all add: rel_def)

lemma node_relD:
  assumes "node_rel ms a el n s"
  shows "node_id s = n" "peers_of n ms (peers s)"
    "s_term a n = current_term s" "s_log a n = rlog s"
    "s_cand a n = (role s = CANDIDATE)" "s_lead a n = (role s = LEADER)"
    "(current_term s, n, d) \<in> s_grants a \<Longrightarrow>
      voted_for s = Some d \<or> voted_for s = None \<and> (current_term s, n) \<in> el"
    "known (majority_of ms) a (current_term s) (rlog s) (commit_index s)"
    "last_applied s = commit_index s"
    "distinct (map fst (matchIndex s))" "fst ` set (matchIndex s) \<subseteq> set ms - {n}"
    "distinct (map fst (nextIndex s))" "fst ` set (nextIndex s) \<subseteq> set ms - {n}"
    "role s = LEADER \<Longrightarrow> length (rlog s) \<le> s_ack a (current_term s) n"
    "r \<in> set (ready_out s) \<Longrightarrow> out_ok ms a (current_term s) r"
  using assms by (simp_all add: node_rel_def)

lemma msg_relD:
  assumes "msg_rel c a"
  shows "(f, n, r1) \<in> rv_calls c \<Longrightarrow>
      f \<in> set (members c) \<and> n \<in> set (members c) \<and> rv_req_ok f (node c f) r1"
    "(f, n, r1, p1) \<in> rv_rets c \<Longrightarrow> rvr_voteGranted p1 \<Longrightarrow> (rv_term r1, n, f) \<in> s_grants a"
    "(f, n, r2) \<in> ae_calls c \<Longrightarrow> n \<in> set (members c) \<and> ae_req_ok (members c) a f r2"
    "(f, n, r2, p2) \<in> ae_rets c \<Longrightarrow> aer_success p2 \<Longrightarrow>
      ae_prevLogIndex r2 + length (ae_entries r2) \<le> s_ack a (ae_term r2) n"
  using assms unfolding msg_rel_def by blast+

lemma put_simps [simp]:
  "members (put n s p c) = members c" "node (put n s p c) = (node c)(n := s)"
  "pc (put n s p c) = (pc c)(n := p)" "rv_calls (put n s p c) = rv_calls c"
  "rv_rets (put n s p c) = rv_rets c" "ae_calls (put n s p c) = ae_calls c"
  "ae_rets (put n s p c) = ae_rets c" "elected (put n s p c) = elected c"
  by (simp_all add: put_def)

lemma rv_req_ok_keeps:
  assumes "rv_req_ok f s req" "current_term s \<le> current_term s'"
    and "role s' = CANDIDATE \<Longrightarrow> current_term s' = current_term s \<Longrightarrow>
      role s = CANDIDATE \<and> rlog s' = rlog s"
  shows "rv_req_ok f s' req"
  using assms by (auto simp: rv_req_ok_def)

lemma rel_step:
  assumes R: "rel c a" and v: "v \<in> set (members c)" and S: "sim (members c) v a b"
    and c': "members c' = members c" "node c' = (node c)(v := s')" "pc c' = (pc c)(v := p')"
    and el: "\<And>t n. s_leader b t = Some n \<longleftrightarrow> (t, n) \<in> elected c'"
    and new: "node_rel (members c) b (elected c') v s'" "pc_rel (members c) b v s' p'"
    and cand: "role s' = CANDIDATE \<Longrightarrow> current_term s' = current_term (node c v) \<Longrightarrow>
      role (node c v) = CANDIDATE \<and> rlog s' = rlog (node c v)"
    and rvc: "\<And>f n req. (f, n, req) \<in> rv_calls c' \<Longrightarrow> (f, n, req) \<notin> rv_calls c \<Longrightarrow>
      f \<in> set (members c) \<and> n \<in> set (members c) \<and> rv_req_ok f (node c' f) req"
    and rvr: "\<And>f n req rep. (f, n, req, rep) \<in> rv_rets c' \<Longrightarrow> (f, n, req, rep) \<notin> rv_rets c \<Longrightarrow>
      rvr_voteGranted rep \<Longrightarrow> (rv_term req, n, f) \<in> s_grants b"
    and aec: "\<And>f n req. (f, n, req) \<in> ae_calls c' \<Longrightarrow> (f, n, req) \<notin> ae_calls c \<Longrightarrow>
      n \<in> set (members c) \<and> ae_req_ok (members c) b f req"
    and aer: "\<And>f n req rep. (f, n, req, rep) \<in> ae_rets c' \<Longrightarrow> (f, n, req, rep) \<notin> ae_rets c \<Longrightarrow>
      aer_success rep \<Longrightarrow> ae_prevLogIndex req + length (ae_entries req) \<le> s_ack b (ae_term req) n"
  shows "rel c' b"
proof -
  let ?ms = "members c"
  note ext = sim_extends [OF S relD(1) [OF R]]
  note msg = msg_relD [OF relD(6) [OF R]]
  have steps: "spec_steps (majority_of ?ms) a b" and same: "others_same v a b"
    using S by (simp_all add: sim_def)
  have elsub: "elected c \<subseteq> elected c'"
    using extendsD(1) [OF ext] el relD(3) [OF R] by auto
  have "s_term a v \<le> s_term b v" by (rule extendsD(5) [OF ext])
  then have tle: "current_term (node c v) \<le> current_term s'"
    using relD(4) [OF R v] new(1) by (simp add: node_rel_def)
  have nodes: "node_rel ?ms b (elected c') n (node c' n) \<and> pc_rel ?ms b n (node c' n) (pc c' n)"
    if "n \<in> set ?ms" for n
  proof (cases "n = v")
    case False
    with node_rel_other [OF ext same False elsub relD(4) [OF R that]]
      pc_rel_extends [OF ext relD(5) [OF R that]] c' show ?thesis by simp
  qed (simp add: c' new)
  have "rv_req_ok f (node c' f) req" if "(f, n, req) \<in> rv_calls c" for f n req
    using msg(1) [OF that] rv_req_ok_keeps [OF _ tle cand, of v req] by (auto simp: c')
  then have 1: "f \<in> set ?ms \<and> n \<in> set ?ms \<and> rv_req_ok f (node c' f) req"
    if "(f, n, req) \<in> rv_calls c'" for f n req
    using that msg(1) rvc by blast
  have 2: "(rv_term req, n, f) \<in> s_grants b"
    if "(f, n, req, rep) \<in> rv_rets c'" "rvr_voteGranted rep" for f n req rep
    using that msg(2) rvr extendsD(6) [OF ext] by blast
  have 3: "n \<in> set ?ms \<and> ae_req_ok ?ms b f req" if "(f, n, req) \<in> ae_calls c'" for f n req
    using that msg(3) aec ae_req_ok_extends [OF ext] by blast
  have 4: "ae_prevLogIndex req + length (ae_entries req) \<le> s_ack b (ae_term req) n"
    if "(f, n, req, rep) \<in> ae_rets c'" "aer_success rep" for f n req rep
    using that msg(4) aer extendsD(4) [OF ext] le_trans by blast
  have "msg_rel c' b" unfolding msg_rel_def c'(1) using 1 2 3 4 by blast
  then show ?thesis
    unfolding rel_def c'(1)
    using spec_steps_reachable [OF steps relD(1) [OF R]] relD(2) [OF R] el nodes by blast
qed

section \<open>Steps that leave the node as it is, but for timers and flags\<close>

definition same_core :: "Raft \<Rightarrow> Raft \<Rightarrow> bool" where
  "same_core s s' \<longleftrightarrow>
     node_id s' = node_id s \<and> peers s' = peers s \<and> current_term s' = current_term s \<and>
     rlog s' = rlog s \<and> role s' = role s \<and> voted_for s' = voted_for s \<and>
     commit_index s' = commit_index s \<and> last_applied s' = last_applied s \<and>
     nextIndex s' = nextIndex s \<and> matchIndex s' = matchIndex s \<and> ready_out s' = ready_out s"

lemma same_core_refl [simp]: "same_core s s"
  by (simp add: same_core_def)

lemma node_rel_core: "node_rel ms a el n s \<Longrightarrow> same_core s s' \<Longrightarrow> node_rel ms a el n s'"
  by (simp add: node_rel_def same_core_def)

lemma pc_rel_core:
  assumes "same_core s s'" "pc_rel ms a n s p"
  shows "pc_rel ms a n s' p"
proof -
  have "tally_ok ms a n s' = tally_ok ms a n s" "preq_ok ms a n s' = preq_ok ms a n s"
    "lead_rel ms a n s' = lead_rel ms a n s"
    using assms(1) by (simp_all add: same_core_def tally_ok_def preq_ok_def lead_rel_def next_ok_def fun_eq_iff)
  with assms show ?thesis by (cases p) (simp_all add: pc_rel_def same_core_def)
qed

lemma rel_idle:
  assumes "rel c a" "v \<in> set (members c)" "same_core (node c v) s'"
    and "pc_rel (members c) a v s' p'"
  shows "rel (put v s' p' c) a"
  using assms(3)
  by (intro rel_step [OF assms(1,2) sim_refl, where s' = s' and p' = p'])
    (simp_all add: relD(3) [OF assms(1)] assms(4) node_rel_core [OF relD(4) [OF assms(1,2)]] same_core_def)

text \<open>A node that is a follower afterwards: what the run thread was doing stays sound.\<close>

lemma pc_rel_follower:
  assumes "pc_rel ms a n s p" "role s' = FOLLOWER" "current_term s \<le> current_term s'"
  shows "pc_rel ms a n s' p"
proof -
  have t: "tally_ok ms a n s votes rest \<Longrightarrow> tally_ok ms a n s' votes rest" for votes rest
    using assms(2) by (simp add: tally_ok_def)
  have r: "preq_ok ms a n s r \<Longrightarrow> preq_ok ms a n s' r" for r
    using assms(2) by (simp add: preq_ok_def)
  have o: "out_ok ms a (current_term s) r \<Longrightarrow> out_ok ms a (current_term s') r" for r
    using out_ok_extends [OF extends_refl _ assms(3)] .
  show ?thesis using assms t r o by (cases p) (auto simp: pc_rel_def)
qed

end
