(* ===== verification/Raft_Sim_Run.thy ===== *)
theory Raft_Sim_Run
  imports Raft_Relation
begin

text \<open>
  The steps of the run thread keep the relation of \<open>Raft_Relation\<close>, one lemma per step of
  \<open>Raft_Cluster\<close>: those that only move the program counter, the heartbeat build, stepping
  down, starting and winning an election; and a client's proposal. The handlers and the
  second half of \<open>send_heartbeats\<close> are in \<open>Raft_Sim_Rpc\<close>.
\<close>

section \<open>Steps of the run thread that leave the abstract state alone\<close>

lemma pc_rel_lead: "pc_rel ms a n s p \<Longrightarrow> role s = LEADER \<Longrightarrow> p \<noteq> BecameLeader \<Longrightarrow> lead_rel ms a n s"
  by (simp add: pc_rel_def)

lemma pc_rel_vote_loop:
  assumes "tally_ok ms a n s votes rest" "role s = LEADER \<Longrightarrow> lead_rel ms a n s"
  shows "pc_rel ms a n s (vote_loop votes rest)"
  using assms by (auto simp: pc_rel_def vote_loop_def)

lemma tally_ok_subset:
  assumes "tally_ok ms a n s votes rest" "distinct (map fst rest')" "set rest' \<subseteq> set rest"
  shows "tally_ok ms a n s votes rest'"
proof -
  have sub: "fst ` set rest' \<subseteq> fst ` set rest" "snd ` set rest' \<subseteq> snd ` set rest"
    using assms(3) by auto
  have dis: "S \<inter> fst ` set rest = {} \<Longrightarrow> S \<inter> fst ` set rest' = {}" for S :: "u64 set"
    using sub(1) by blast
  have "\<exists>S. n \<in> S \<and> S \<subseteq> set ms \<and> S \<inter> fst ` set rest' = {} \<and> card S = votes \<and>
      (\<forall>v \<in> S. (current_term s, v, n) \<in> s_grants a)" if "role s = CANDIDATE"
  proof -
    from assms(1) that obtain S where "n \<in> S" "S \<subseteq> set ms" "S \<inter> fst ` set rest = {}"
      "card S = votes" "\<forall>v \<in> S. (current_term s, v, n) \<in> s_grants a"
      unfolding tally_ok_def by blast
    with dis [of S] show ?thesis by (intro exI [of _ S]) simp
  qed
  with assms(1,2) order_trans [OF sub(1)] order_trans [OF sub(2)] show ?thesis
    by (simp add: tally_ok_def)
qed

lemma tally_ok_drop: "tally_ok ms a n s votes (x # rest) \<Longrightarrow> tally_ok ms a n s votes rest"
  by (rule tally_ok_subset) (auto simp: tally_ok_def)

lemma tally_ok_Nil: "tally_ok ms a n s votes rest \<Longrightarrow> tally_ok ms a n s votes []"
  by (rule tally_ok_subset) auto

lemma tally_ok_count:
  assumes "tally_ok ms a n s votes ((x, True) # rest)"
    and "role s = CANDIDATE \<Longrightarrow> (current_term s, x, n) \<in> s_grants a"
  shows "tally_ok ms a n s (votes + 1) rest"
proof -
  have "\<exists>S. n \<in> S \<and> S \<subseteq> set ms \<and> S \<inter> fst ` set rest = {} \<and> card S = votes + 1 \<and>
      (\<forall>v \<in> S. (current_term s, v, n) \<in> s_grants a)" if "role s = CANDIDATE"
  proof -
    from assms(1) that obtain S where S: "n \<in> S" "S \<subseteq> set ms" "S \<inter> fst ` set ((x, True) # rest) = {}"
      "card S = votes" "\<forall>v \<in> S. (current_term s, v, n) \<in> s_grants a"
      unfolding tally_ok_def by blast
    have "finite S" using S(2) by (rule finite_subset) simp
    moreover have "x \<notin> S" using S(3) by auto
    ultimately have "card (insert x S) = votes + 1" using S(4) by simp
    moreover have "x \<in> set ms" "x \<notin> fst ` set rest" using assms(1) by (auto simp: tally_ok_def)
    ultimately show ?thesis using S assms(2) [OF that] by (intro exI [of _ "insert x S"]) auto
  qed
  with assms(1) show ?thesis by (simp add: tally_ok_def)
qed

lemma rel_do_start:
  assumes "rel c a" "v \<in> set (members c)" "do_start v d c = Next c'"
  shows "rel c' a"
proof -
  from assms(3) have "pc c v = RunStart" "c' = put v (reset_election_timer d (node c v)) RunTop c"
    by (auto simp: do_start_def split: run_pc.splits)
  moreover have core: "same_core (node c v) (reset_election_timer d (node c v))"
    by (simp add: same_core_def)
  moreover have "pc_rel (members c) a v (node c v) RunTop"
    using relD(5) [OF assms(1,2)] calculation(1) by (simp add: pc_rel_def)
  ultimately show ?thesis using rel_idle [OF assms(1,2) core pc_rel_core [OF core]] by simp
qed

lemma rel_do_top:
  assumes "rel c a" "v \<in> set (members c)" "do_top v now c = Next c'"
  shows "rel c' a"
proof -
  let ?s = "node c v"
  from assms(3) have p: "pc c v = RunTop" by (auto simp: do_top_def split: run_pc.splits)
  then have c': "c' = (if is_dead ?s then put v ?s Halted c
      else put v (run_top ?s) (if role ?s = LEADER then HbBuild True else Waiting now) c)"
    using assms(3) by (auto simp: do_top_def Let_def split: if_splits)
  have core: "same_core ?s (run_top ?s)" by (simp add: run_top_def same_core_def)
  from relD(5) [OF assms(1,2)] p have "pc_rel (members c) a v ?s Halted"
    "pc_rel (members c) a v ?s (HbBuild True)" "pc_rel (members c) a v ?s (Waiting now)"
    by (simp_all add: pc_rel_def)
  then show ?thesis
    unfolding c' using rel_idle [OF assms(1,2) same_core_refl]
      rel_idle [OF assms(1,2) core pc_rel_core [OF core]] by simp
qed

lemma rel_do_wait:
  assumes "rel c a" "v \<in> set (members c)" "do_wait v now c = Next c'"
  shows "rel c' a"
proof -
  from assms(3) obtain t where "pc c v = Waiting t" "c' = put v (node c v) ElectionCheck c"
    by (auto simp: do_wait_def Let_def split: run_pc.splits if_splits)
  with relD(5) [OF assms(1,2)] show ?thesis
    using rel_idle [OF assms(1,2) same_core_refl] by (simp add: pc_rel_def)
qed

lemma rel_do_vote_term:
  assumes "rel c a" "v \<in> set (members c)" "do_vote_term v c = Next c'"
  shows "rel c' a"
proof -
  let ?s = "node c v"
  from assms(3) obtain votes p rest where p: "pc c v = VoteNext votes ((p, True) # rest)"
    and "c' = put v ?s (VoteTerm votes p rest (current_term ?s)) c"
    by (auto simp: do_vote_term_def split: run_pc.splits list.splits if_splits)
  with relD(5) [OF assms(1,2)] show ?thesis
    using rel_idle [OF assms(1,2) same_core_refl] by (simp add: pc_rel_def)
qed

lemma rel_do_vote_idx:
  assumes "rel c a" "v \<in> set (members c)" "do_vote_idx v c = Next c'"
  shows "rel c' a"
proof -
  let ?s = "node c v"
  from assms(3) obtain votes p rest t where "pc c v = VoteTerm votes p rest t"
    and "c' = put v ?s (VoteIdx votes p rest t (length (rlog ?s))) c"
    by (auto simp: do_vote_idx_def split: run_pc.splits)
  with relD(5) [OF assms(1,2)] show ?thesis
    using rel_idle [OF assms(1,2) same_core_refl] by (simp add: pc_rel_def)
qed

lemma rel_do_vote_call:
  assumes "rel c a" "v \<in> set (members c)" "do_vote_call v c = Next c'"
  shows "rel c' a"
proof -
  let ?s = "node c v"
  from assms(3) obtain votes p rest t i where p: "pc c v = VoteIdx votes p rest t i"
    by (auto simp: do_vote_call_def split: run_pc.splits)
  define req where "req = request_vote_msg t (node_id ?s) i (last_log_term (rlog ?s))"
  from assms(3) p have c': "c' = (put v ?s (VoteCall votes p rest req) c)
      \<lparr>rv_calls := insert (v, p, req) (rv_calls c)\<rparr>"
    by (simp add: do_vote_call_def req_def Let_def)
  note pcr = relD(5) [OF assms(1,2), unfolded p]
  have "node_id ?s = v" using relD(4) [OF assms(1,2)] by (simp add: node_rel_def)
  moreover have t: "t \<le> current_term ?s" "role ?s = CANDIDATE \<longrightarrow> t = current_term ?s \<and> i = length (rlog ?s)"
    and tally: "tally_ok (members c) a v ?s votes ((p, True) # rest)"
    using pcr by (simp_all add: pc_rel_def)
  ultimately have ok: "rv_req_ok v ?s req"
    by (cases "role ?s = CANDIDATE") (simp_all add: rv_req_ok_def req_def request_vote_msg_def)
  have p_in: "p \<in> set (members c)" using tally by (simp add: tally_ok_def)
  have "pc_rel (members c) a v ?s (VoteCall votes p rest req)"
    using pcr by (simp add: pc_rel_def req_def request_vote_msg_def)
  then show ?thesis
    unfolding c' using ok p_in assms(2) relD(4) [OF assms(1,2)]
    by (intro rel_step [OF assms(1,2) sim_refl, where s' = ?s and p' = "VoteCall votes p rest req"])
      (auto simp: relD(3) [OF assms(1)])
qed

lemma rel_do_vote_fail:
  assumes "rel c a" "v \<in> set (members c)" "do_vote_fail v c = Next c'"
  shows "rel c' a"
proof -
  from assms(3) obtain votes p rest req where p: "pc c v = VoteCall votes p rest req"
    and c': "c' = put v (node c v) (vote_loop votes rest) c"
    by (auto simp: do_vote_fail_def split: run_pc.splits)
  from relD(5) [OF assms(1,2), unfolded p] have "pc_rel (members c) a v (node c v) (vote_loop votes rest)"
    by (intro pc_rel_vote_loop) (auto simp: pc_rel_def dest: tally_ok_drop)
  with c' show ?thesis by (simp add: rel_idle [OF assms(1,2)])
qed

lemma rel_do_vote_return:
  assumes "rel c a" "v \<in> set (members c)" "do_vote_return v rep c = Next c'"
  shows "rel c' a"
proof -
  from assms(3) obtain votes p rest req where p: "pc c v = VoteCall votes p rest req"
    and ret: "(v, p, req, rep) \<in> rv_rets c"
    and c': "c' = put v (node c v) (VoteReply votes p rest rep) c"
    by (auto simp: do_vote_return_def split: run_pc.splits if_splits)
  from relD(5) [OF assms(1,2), unfolded p] msg_relD(2) [OF relD(6) [OF assms(1)] ret]
  have "pc_rel (members c) a v (node c v) (VoteReply votes p rest rep)"
    by (auto simp: pc_rel_def)
  with c' show ?thesis by (simp add: rel_idle [OF assms(1,2)])
qed

lemma rel_do_my_term:
  assumes "rel c a" "v \<in> set (members c)" "do_my_term v c = Next c'"
  shows "rel c' a"
proof -
  let ?s = "node c v" and ?ms = "members c"
  from assms(3) obtain votes p rest rep where p: "pc c v = VoteReply votes p rest rep"
    by (auto simp: do_my_term_def split: run_pc.splits)
  note pcr = relD(5) [OF assms(1,2), unfolded p]
  have lead: "role ?s = LEADER \<Longrightarrow> lead_rel ?ms a v ?s" using pcr by (simp add: pc_rel_def)
  have old: "tally_ok ?ms a v ?s votes ((p, True) # rest)" using pcr by (simp add: pc_rel_def)
  have new: "tally_ok ?ms a v ?s (votes + 1) rest" if "rvr_voteGranted rep"
    using that pcr by (intro tally_ok_count [OF old]) (simp add: pc_rel_def)
  have 1: "pc_rel ?ms a v ?s (VoteStale votes rep)"
    using lead tally_ok_Nil [OF old] by (simp add: pc_rel_def)
  have 2: "pc_rel ?ms a v ?s (VoteTally (votes + 1))" if "rvr_voteGranted rep"
    using lead tally_ok_Nil [OF new [OF that]] by (simp add: pc_rel_def)
  have 3: "pc_rel ?ms a v ?s (vote_loop (votes + 1) rest)" if "rvr_voteGranted rep"
    using pc_rel_vote_loop [OF new [OF that] lead] .
  have 4: "pc_rel ?ms a v ?s (vote_loop votes rest)"
    using pc_rel_vote_loop [OF tally_ok_drop [OF old] lead] .
  show ?thesis
    using assms(3) p 1 2 3 4 rel_idle [OF assms(1,2) same_core_refl]
    by (auto simp: do_my_term_def Let_def split: if_splits)
qed

lemma rel_do_leader_wait:
  assumes "rel c a" "v \<in> set (members c)" "do_leader_wait v c = Next c'"
  shows "rel c' a"
proof -
  from assms(3) have "pc c v = LeaderWait" "c' = put v (node c v) RunTop c"
    by (auto simp: do_leader_wait_def split: run_pc.splits)
  with relD(5) [OF assms(1,2)] show ?thesis
    using rel_idle [OF assms(1,2) same_core_refl] by (simp add: pc_rel_def)
qed

lemma rel_do_kill:
  assumes "rel c a" "v \<in> set (members c)" "do_kill v c = Next c'"
  shows "rel c' a"
proof -
  have core: "same_core (node c v) (kill (node c v))"
    by (simp add: same_core_def kill_def)
  with rel_idle [OF assms(1,2) core pc_rel_core [OF core relD(5) [OF assms(1,2)]]] assms(3)
  show ?thesis by (simp add: do_kill_def)
qed

lemma rel_do_become_leader:
  assumes "rel c a" "v \<in> set (members c)" "do_become_leader v now c = Next c'"
  shows "rel c' a"
proof -
  let ?s = "node c v" and ?ms = "members c"
  let ?s' = "become_leader now ?s"
  from assms(3) have p: "pc c v = BecameLeader" and c': "c' = put v ?s' (HbBuild False) c"
    by (auto simp: do_become_leader_def split: run_pc.splits)
  note nr = relD(4) [OF assms(1,2)]
  have keys: "fst ` set (peers ?s) = set ?ms - {v}" using node_relD(2) [OF nr] by (simp add: peers_of_def)
  have match: "distinct (map fst (matchIndex ?s'))" "fst ` set (matchIndex ?s') \<subseteq> set ?ms - {v}"
    and nxt: "distinct (map fst (nextIndex ?s'))" "fst ` set (nextIndex ?s') = set ?ms - {v}"
    using node_relD(10-13) [OF nr] keys by (auto simp: distinct_fold_update keys_fold_update)
  then have node: "node_rel ?ms a (elected c) v ?s'" using nr by (simp add: node_rel_def)
  have "x = length (rlog ?s) + 1" if "(p, x) \<in> set (nextIndex ?s')" for p x
    using that keys node_relD(12,13) [OF nr] fold_update_all [of "nextIndex ?s" "peers ?s" p x] by simp
  moreover have "m = 0" if "(p, m) \<in> set (matchIndex ?s')" for p m
    using that keys node_relD(10,11) [OF nr] fold_update_all [of "matchIndex ?s" "peers ?s" p m] by simp
  ultimately have "lead_rel ?ms a v ?s'" using nxt(2) by (auto simp: lead_rel_def next_ok_def)
  then have pcr: "pc_rel ?ms a v ?s' (HbBuild False)" by (simp add: pc_rel_def)
  show ?thesis
    unfolding c' using node pcr
    by (intro rel_step [OF assms(1,2) sim_refl, where s' = ?s' and p' = "HbBuild False"])
      (simp_all add: relD(3) [OF assms(1)])
qed

section \<open>Building the heartbeats\<close>

lemma hb_build_loop_keys:
  assumes "hb_build_loop ps s = Some (rs, s')" "fst ` set ps \<subseteq> fst ` set (nextIndex s)"
  shows "s' = s"
  using assms
proof (induction ps arbitrary: rs)
  case (Cons x ps)
  obtain p stub where x: "x = (p, stub)" by force
  have "map_of (nextIndex s) p \<noteq> None" using Cons.prems(2) x by (simp add: map_of_eq_None_iff)
  then have nx: "hb_next p s = s" by (auto simp: hb_next_def)
  have sub: "fst ` set ps \<subseteq> fst ` set (nextIndex s)" using Cons.prems(2) by simp
  from Cons.prems(1) obtain rs' where "hb_build_loop ps s = Some (rs', s')"
    by (auto simp: x nx Let_def split: if_splits option.splits)
  from Cons.IH [OF this sub] show ?case .
qed simp

lemma req_ok_ae:
  assumes node: "node_rel ms a el n s" and inv: "leader_inv q a" and lead: "role s = LEADER"
    and r: "req_ok s r"
  shows "preq_ok ms a n s r"
proof -
  let ?k = "preq_prev_idx r" and ?T = "current_term s"
  from r have k: "?k \<le> length (rlog s)" "preq_peer_id r \<in> fst ` set (peers s)"
    "preq_request r = hb_request s ?k (last_log_term (take ?k (rlog s)))"
    "preq_entries_sent r = length (rlog s) - ?k"
    by (simp_all add: req_ok_def Let_def)
  have L: "s_leader a ?T = Some n" "s_llog a ?T = rlog s"
    using leader_inv_lead [OF inv, of n] node_relD(3,4,6) [OF node] lead by simp_all
  have "ae_req_ok ms a n (preq_request r)"
    unfolding ae_req_ok_def Let_def k(3)
    using k(1) L node_relD(8) [OF node] known_length [OF node_relD(8) [OF node]]
    by (simp add: hb_request_def slice_def last_log_term_take)
  then show ?thesis
    using k node_relD(2) [OF node] by (simp add: preq_ok_def hb_request_def peers_of_def)
qed

lemma rel_inv: "rel c a \<Longrightarrow> spec_inv (majority_of (members c)) a"
  by (rule maj.spec_reachable_inv [OF relD(1)])

lemma rel_invD:
  assumes "rel c a"
  shows "vote_inv a" "leader_inv (majority_of (members c)) a" "log_inv a" "ack_inv a"
    "safe_inv (majority_of (members c)) a"
  using rel_inv [OF assms] by (simp_all add: spec_inv_def)

lemma rel_do_hb_build:
  assumes R: "rel c a" and v: "v \<in> set (members c)" and step: "do_hb_build v c = Next c'"
  shows "rel c' a"
proof -
  let ?s = "node c v" and ?ms = "members c"
  from step obtain ret where p: "pc c v = HbBuild ret"
    by (auto simp: do_hb_build_def split: run_pc.splits)
  note pcr = relD(5) [OF R v, unfolded p] and node = relD(4) [OF R v]
  show ?thesis
  proof (cases "role ?s = LEADER")
    case False
    with step p have "c' = put v ?s (hb_return ret) c" by (simp add: do_hb_build_def hb_build_not_leader)
    with False rel_idle [OF R v same_core_refl] show ?thesis by (simp add: pc_rel_def hb_return_def)
  next
    case True
    then have lead: "lead_rel ?ms a v ?s" using pcr by (simp add: pc_rel_def)
    then have "next_ok ?s" by (simp add: lead_rel_def)
    then obtain rs n where b: "hb_build ?s = Some (Some rs, ?s\<lparr>nextIndex := n\<rparr>)"
      "\<forall>r \<in> set rs. req_ok ?s r" by (rule hb_build_ok [OF _ True])
    have "fst ` set (peers ?s) \<subseteq> fst ` set (nextIndex ?s)"
      using lead node_relD(2) [OF node] by (simp add: lead_rel_def peers_of_def)
    with b(1) True have same: "?s\<lparr>nextIndex := n\<rparr> = ?s"
      by (auto simp: hb_build_def intro: hb_build_loop_keys)
    have c': "c' = (put v ?s (HbCalls ret rs) c)
        \<lparr>ae_calls := ae_calls c \<union> (\<lambda>r. (v, preq_peer_id r, preq_request r)) ` set rs\<rparr>"
      using step p b(1) by (simp add: do_hb_build_def same)
    have ok: "\<forall>r \<in> set rs. preq_ok ?ms a v ?s r"
      using b(2) req_ok_ae [OF node rel_invD(2) [OF R] True] by blast
    with lead have "pc_rel ?ms a v ?s (HbCalls ret rs)" by (simp add: pc_rel_def)
    with node show ?thesis
      unfolding c' using ok
      by (intro rel_step [OF R v sim_refl, where s' = ?s and p' = "HbCalls ret rs"])
        (auto simp: relD(3) [OF R] preq_ok_def)
  qed
qed

section \<open>Stepping down\<close>

definition same_log :: "Raft \<Rightarrow> Raft \<Rightarrow> bool" where
  "same_log s s' \<longleftrightarrow>
     node_id s' = node_id s \<and> peers s' = peers s \<and> rlog s' = rlog s \<and>
     commit_index s' = commit_index s \<and> last_applied s' = last_applied s \<and>
     nextIndex s' = nextIndex s \<and> matchIndex s' = matchIndex s \<and> ready_out s' = ready_out s"

lemma same_logD:
  assumes "same_log s s'"
  shows "node_id s' = node_id s" "peers s' = peers s" "rlog s' = rlog s"
    "commit_index s' = commit_index s" "last_applied s' = last_applied s"
    "nextIndex s' = nextIndex s" "matchIndex s' = matchIndex s" "ready_out s' = ready_out s"
  using assms by (simp_all add: same_log_def)

text \<open>No vote of a term that the node has not reached.\<close>

lemma no_future_grant: "vote_inv a \<Longrightarrow> s_term a v < t \<Longrightarrow> (t, v, d) \<notin> s_grants a"
  using vote_invD(1) [of a t v d] by auto

lemma node_rel_outs:
  assumes "node_rel ms a el n s" "extends a b" "current_term s \<le> t"
  shows "\<forall>r \<in> set (ready_out s). out_ok ms b t r"
  using node_relD(15) [OF assms(1)] out_ok_extends [OF assms(2) _ assms(3)] by blast

lemma bump_sim:
  assumes "rel c a" "v \<in> set (members c)" "current_term (node c v) \<le> t"
  shows "sim (members c) v a (do_bump v t a)" "extends a (do_bump v t a)"
proof -
  have "s_term a v \<le> t" using node_relD(3) [OF relD(4) [OF assms(1,2)]] assms(3) by simp
  then have "spec_step (majority_of (members c)) a (do_bump v t a)" by (rule spec_step.bump)
  then show "sim (members c) v a (do_bump v t a)" by (rule sim_one) simp
  then show "extends a (do_bump v t a)" by (rule sim_extends [OF _ relD(1) [OF assms(1)]])
qed

lemma node_rel_bump:
  assumes node: "node_rel ms a el v s" and inv: "vote_inv a"
    and ext: "extends a (do_bump v (current_term s') a)"
    and s': "same_log s s'" "role s' = FOLLOWER" "current_term s \<le> current_term s'"
    and vote: "current_term s' = current_term s \<Longrightarrow>
      voted_for s' = voted_for s \<or> voted_for s' = None \<and> (current_term s, v) \<in> el"
  shows "node_rel ms (do_bump v (current_term s') a) el v s'"
proof -
  let ?b = "do_bump v (current_term s') a"
  note same = same_logD [OF s'(1)]
  have grants: "voted_for s' = Some d \<or> voted_for s' = None \<and> (current_term s', v) \<in> el"
    if g: "(current_term s', v, d) \<in> s_grants ?b" for d
  proof (cases "current_term s' = current_term s")
    case True
    with g node_relD(7) [OF node, of d] vote [OF True] show ?thesis by auto
  next
    case False
    with s'(3) node_relD(3) [OF node] g no_future_grant [OF inv] show ?thesis by simp
  qed
  have "known (majority_of ms) ?b (current_term s') (rlog s) (commit_index s)"
    by (rule known_extends [OF ext node_relD(8) [OF node] s'(3)])
  moreover have "\<forall>r \<in> set (ready_out s). out_ok ms ?b (current_term s') r"
    by (rule node_rel_outs [OF node ext s'(3)])
  ultimately show ?thesis
    using node_relD(1,2,4,9-13) [OF node] s'(2) grants unfolding node_rel_def same by simp
qed

lemma rel_bump:
  assumes R: "rel c a" and v: "v \<in> set (members c)"
    and s': "same_log (node c v) s'" "role s' = FOLLOWER"
      "current_term (node c v) \<le> current_term s'"
    and vote: "current_term s' = current_term (node c v) \<Longrightarrow>
      voted_for s' = voted_for (node c v) \<or>
      voted_for s' = None \<and> (current_term (node c v), v) \<in> elected c"
    and pcr: "pc_rel (members c) (do_bump v (current_term s') a) v s' p'"
  shows "rel (put v s' p' c) (do_bump v (current_term s') a)"
  using s'(2) pcr node_rel_bump [OF relD(4) [OF R v] rel_invD(1) [OF R] bump_sim(2) [OF R v s'(3)] s' vote]
  by (intro rel_step [OF R v bump_sim(1) [OF R v s'(3)], where s' = s' and p' = p'])
    (simp_all add: relD(3) [OF R])

lemma rel_do_stale_term:
  assumes R: "rel c a" and v: "v \<in> set (members c)" and step: "do_stale_term v d c = Next c'"
    and reg: "regular (StaleTerm v d) c"
  shows "\<exists>b. spec_steps (majority_of (members c)) a b \<and> rel c' b"
proof -
  let ?s = "node c v"
  from step obtain votes rep where p: "pc c v = VoteStale votes rep"
    by (auto simp: do_stale_term_def split: run_pc.splits)
  let ?s' = "stale_term d rep ?s"
  have c': "c' = put v ?s' (VoteTally votes) c" using step p by (simp add: do_stale_term_def)
  have s': "same_log ?s ?s'" "role ?s' = FOLLOWER" "current_term ?s' = rvr_term rep"
    by (simp_all add: stale_term_def same_log_def)
  have t: "current_term ?s < current_term ?s'" using reg p s'(3) by simp
  have "tally_ok (members c) a v ?s votes []"
    using relD(5) [OF R v, unfolded p] by (simp add: pc_rel_def)
  then have "pc_rel (members c) (do_bump v (current_term ?s') a) v ?s' (VoteTally votes)"
    using s'(2) by (simp add: pc_rel_def tally_ok_def)
  with rel_bump [OF R v s'(1,2)] t have "rel c' (do_bump v (current_term ?s') a)" by (simp add: c')
  with bump_sim(1) [OF R v less_imp_le [OF t]] show ?thesis unfolding sim_def by blast
qed

section \<open>Elections\<close>

lemma peers_of_length:
  assumes "peers_of n ms ps" "distinct ms" "n \<in> set ms"
  shows "length ps + 1 = length ms"
proof -
  have "length ps = card (fst ` set ps)"
    using assms(1) distinct_card [of "map fst ps"] by (simp add: peers_of_def)
  also have "\<dots> = card (set ms - {n})" using assms(1) by (simp add: peers_of_def)
  finally show ?thesis using assms(2,3) length_pos_if_in_set [OF assms(3)] by (simp add: distinct_card)
qed

lemma majority_members:
  "rel c a \<Longrightarrow> v \<in> set (members c) \<Longrightarrow> majority (node c v) = length (members c) div 2 + 1"
  using peers_of_length [OF node_relD(2) [OF relD(4)] relD(2)] by (simp add: majority_def)

lemma rel_do_elect_check:
  assumes R: "rel c a" and v: "v \<in> set (members c)" and step: "do_elect_check v d c = Next c'"
    and reg: "regular (Elect v d) c"
  shows "\<exists>b. spec_steps (majority_of (members c)) a b \<and> rel c' b"
proof -
  let ?s = "node c v" and ?ms = "members c"
  from step have p: "pc c v = ElectionCheck"
    by (auto simp: do_elect_check_def split: run_pc.splits)
  note pcr = relD(5) [OF R v, unfolded p] and node = relD(4) [OF R v]
  show ?thesis
  proof (cases "\<not> received_heartbeat ?s \<and> role ?s \<noteq> LEADER")
    case False
    with step p have "c' = put v ?s RunTop c" by (auto simp: do_elect_check_def election_check_def)
    moreover have "pc_rel ?ms a v ?s RunTop" using pcr by (simp add: pc_rel_def)
    ultimately show ?thesis using rel_idle [OF R v same_core_refl] spec_refl by blast
  next
    case True
    let ?t = "current_term ?s + 1" and ?b = "do_timeout v (current_term ?s + 1) a"
    define s' where "s' = reset_election_timer d
        (?s\<lparr>role := CANDIDATE, current_term := ?t, voted_for := Some (node_id ?s)\<rparr>)"
    from reg have "inc64 (current_term ?s) = ?t" by (simp add: inc64_no_wrap)
    with True step p have c': "c' = put v s' (vote_loop 1 (peers s')) c"
      by (simp add: do_elect_check_def election_check_def s'_def)
    have lt: "s_term a v < ?t" using node_relD(3) [OF node] by simp
    then have "spec_step (majority_of ?ms) a ?b" by (rule spec_step.timeout)
    then have S: "sim ?ms v a ?b" by (rule sim_one) simp
    note ext = sim_extends [OF S relD(1) [OF R]]
    have grants: "(?t, v, d) \<notin> s_grants a" for d by (rule no_future_grant [OF rel_invD(1) [OF R] lt])
    have "known (majority_of ?ms) ?b ?t (rlog ?s) (commit_index ?s)"
      by (rule known_extends [OF ext node_relD(8) [OF node]]) simp
    moreover have "\<forall>r \<in> set (ready_out ?s). out_ok ?ms ?b ?t r"
      by (rule node_rel_outs [OF node ext]) simp
    ultimately have nr: "node_rel ?ms ?b (elected c) v s'"
      using node_relD(1,2,4,9-13) [OF node] grants unfolding node_rel_def by (simp add: s'_def)
    have pe: "peers_of v ?ms (peers ?s)" by (rule node_relD(2) [OF node])
    have "tally_ok ?ms ?b v s' 1 (peers s')"
      unfolding tally_ok_def using pe v
      by (auto simp: s'_def peers_of_def intro!: exI [of _ "{v}"])
    then have "pc_rel ?ms ?b v s' (vote_loop 1 (peers s'))"
      by (rule pc_rel_vote_loop) (simp add: s'_def)
    with nr have "rel c' ?b"
      unfolding c'
      by (intro rel_step [OF R v S, where s' = s' and p' = "vote_loop 1 (peers s')"])
        (simp_all add: relD(3) [OF R] s'_def)
    with S show ?thesis unfolding sim_def by blast
  qed
qed

lemma rel_do_tally:
  assumes R: "rel c a" and v: "v \<in> set (members c)" and step: "do_tally v d c = Next c'"
  shows "\<exists>b. spec_steps (majority_of (members c)) a b \<and> rel c' b"
proof -
  let ?s = "node c v" and ?ms = "members c"
  from step obtain votes where p: "pc c v = VoteTally votes"
    by (auto simp: do_tally_def split: run_pc.splits)
  note pcr = relD(5) [OF R v, unfolded p] and node = relD(4) [OF R v]
  consider (win) "role ?s = CANDIDATE" "majority ?s \<le> votes"
    | (lose) "role ?s = CANDIDATE" "votes < majority ?s" | (idle) "role ?s \<noteq> CANDIDATE"
    by linarith
  then show ?thesis
  proof cases
    case idle
    with step p have "c' = put v ?s RunTop c" by (simp add: do_tally_def election_result_def)
    moreover have "pc_rel ?ms a v ?s RunTop" using pcr by (simp add: pc_rel_def)
    ultimately show ?thesis using rel_idle [OF R v same_core_refl] spec_refl by blast
  next
    case lose
    let ?s' = "reset_election_timer d (?s\<lparr>role := FOLLOWER\<rparr>)"
    from lose step p have c': "c' = put v ?s' RunTop c" by (simp add: do_tally_def election_result_def)
    have "rel c' (do_bump v (current_term ?s') a)"
      unfolding c' by (rule rel_bump [OF R v]) (simp_all add: same_log_def pc_rel_def)
    with bump_sim(1) [OF R v, of "current_term ?s'"] show ?thesis by (auto simp: sim_def)
  next
    case win
    let ?T = "current_term ?s" and ?b = "do_elect v a" and ?s' = "?s\<lparr>role := LEADER\<rparr>"
    have c': "c' = (put v ?s' BecameLeader c)\<lparr>elected := insert (?T, v) (elected c)\<rparr>"
      using step p win by (simp add: do_tally_def election_result_def)
    have "tally_ok ?ms a v ?s votes []" using pcr by (simp add: pc_rel_def)
    with win(1) obtain Q where Q: "Q \<subseteq> set ?ms" "card Q = votes" "\<forall>w \<in> Q. (?T, w, v) \<in> s_grants a"
      unfolding tally_ok_def by blast
    have maj: "majority_of ?ms Q"
      using Q(1,2) win(2) majority_members [OF R v] by (simp add: majority_of_def)
    have cand: "s_cand a v" "s_term a v = ?T" using node_relD(3,5) [OF node] win(1) by simp_all
    have gr: "\<forall>w \<in> Q. (s_term a v, w, v) \<in> s_grants a" using Q(3) cand(2) by simp
    from spec_step.elect [of a v "majority_of ?ms" Q, OF cand(1) maj gr] have S: "sim ?ms v a ?b" by (rule sim_one) simp
    note ext = sim_extends [OF S relD(1) [OF R]]
    have none: "s_leader a ?T = None"
      using maj.elect_no_leader [OF rel_invD(1,2) [OF R] cand(1) maj gr] cand(2) by simp
    have el: "s_leader ?b t = Some n \<longleftrightarrow> (t, n) \<in> insert (?T, v) (elected c)" for t n
      using relD(3) [OF R, of t n] none cand(2) by auto
    have "known (majority_of ?ms) ?b ?T (rlog ?s) (commit_index ?s)"
      by (rule known_extends [OF ext node_relD(8) [OF node] order.refl])
    moreover have "\<forall>r \<in> set (ready_out ?s). out_ok ?ms ?b ?T r"
      by (rule node_rel_outs [OF node ext]) simp
    ultimately have nr: "node_rel ?ms ?b (insert (?T, v) (elected c)) v ?s'"
      using node_relD(1-4,7,9-13) [OF node] unfolding node_rel_def by auto
    have "pc_rel ?ms ?b v ?s' BecameLeader" by (simp add: pc_rel_def)
    with nr el have "rel c' ?b"
      unfolding c' by (intro rel_step [OF R v S, where s' = ?s' and p' = BecameLeader]) simp_all
    with S show ?thesis unfolding sim_def by blast
  qed
qed

section \<open>Proposals and applied results\<close>

lemma pc_rel_append:
  assumes "pc_rel ms b n s p" "role s = LEADER"
  shows "pc_rel ms b n (s\<lparr>rlog := rlog s @ es\<rparr>) p"
proof -
  let ?s' = "s\<lparr>rlog := rlog s @ es\<rparr>"
  have "tally_ok ms b n ?s' = tally_ok ms b n s" "preq_ok ms b n ?s' = preq_ok ms b n s"
    by (simp_all add: tally_ok_def preq_ok_def fun_eq_iff)
  moreover have "lead_rel ms b n s \<Longrightarrow> lead_rel ms b n ?s'"
    by (auto simp: lead_rel_def next_ok_def)
  ultimately show ?thesis using assms by (cases p) (simp_all add: pc_rel_def)
qed

lemma rel_do_propose:
  assumes R: "rel c a" and v: "v \<in> set (members c)" and step: "do_propose v data c = Next c'"
  shows "\<exists>b. spec_steps (majority_of (members c)) a b \<and> rel c' b"
proof -
  let ?s = "node c v" and ?ms = "members c"
  note pcr = relD(5) [OF R v] and node = relD(4) [OF R v]
  show ?thesis
  proof (cases "role ?s = LEADER")
    case False
    with step have "c' = put v ?s (pc c v) c" by (simp add: do_propose_def propose_def)
    with rel_idle [OF R v same_core_refl pcr] spec_refl show ?thesis by blast
  next
    case True
    define e where "e = \<lparr>e_term = current_term ?s, e_command = data\<rparr>"
    let ?s' = "?s\<lparr>rlog := rlog ?s @ [e]\<rparr>" and ?b = "do_append v e a" and ?T = "current_term ?s"
    have c': "c' = put v ?s' (pc c v) c"
      using step True by (simp add: do_propose_def propose_def e_def Let_def)
    have lead: "s_lead a v" "e_term e = s_term a v"
      using node_relD(3,6) [OF node] True by (simp_all add: e_def)
    from spec_step.append [OF lead] have S: "sim ?ms v a ?b" by (rule sim_one) simp
    note ext = sim_extends [OF S relD(1) [OF R]]
    have k: "known (majority_of ?ms) ?b ?T (rlog ?s) (commit_index ?s)"
      by (rule known_extends [OF ext node_relD(8) [OF node] order.refl])
    then have "known (majority_of ?ms) ?b ?T (rlog ?s @ [e]) (commit_index ?s)"
      by (rule known_agree [of _ _ _ _ _ "length (rlog ?s)"])
        (simp_all add: agree_refl known_length [OF k])
    moreover have "\<forall>r \<in> set (ready_out ?s). out_ok ?ms ?b ?T r"
      by (rule node_rel_outs [OF node ext]) simp
    ultimately have nr: "node_rel ?ms ?b (elected c) v ?s'"
      using node_relD(1-6,7,9-13) [OF node] unfolding node_rel_def by auto
    have "pc_rel ?ms ?b v ?s' (pc c v)" by (rule pc_rel_append [OF pc_rel_extends [OF ext pcr] True])
    with nr True have "rel c' ?b"
      unfolding c'
      by (intro rel_step [OF R v S, where s' = ?s' and p' = "pc c v"]) (simp_all add: relD(3) [OF R])
    with S show ?thesis unfolding sim_def by blast
  qed
qed

lemma rel_do_hb_apply:
  assumes R: "rel c a" and v: "v \<in> set (members c)" and step: "do_hb_apply v c = Next c'"
  shows "rel c' a"
proof -
  let ?s = "node c v" and ?ms = "members c"
  from step obtain ret rs where p: "pc c v = HbApply ret rs"
    by (auto simp: do_hb_apply_def split: run_pc.splits)
  note pcr = relD(5) [OF R v, unfolded p] and node = relD(4) [OF R v]
  show ?thesis
  proof (cases rs)
    case Nil
    with step p have "c' = put v ?s (hb_return ret) c" by (simp add: do_hb_apply_def)
    moreover have "pc_rel ?ms a v ?s (hb_return ret)" using pcr by (simp add: pc_rel_def hb_return_def)
    ultimately show ?thesis using rel_idle [OF R v same_core_refl] by simp
  next
    case (Cons r rs')
    let ?s' = "apply_result r ?s"
    have c': "c' = put v ?s' (HbApply ret rs') c" using step p Cons by (simp add: do_hb_apply_def)
    have same: "tally_ok ?ms a v ?s' = tally_ok ?ms a v ?s" "lead_rel ?ms a v ?s' = lead_rel ?ms a v ?s"
      by (simp_all add: apply_result_def tally_ok_def lead_rel_def next_ok_def fun_eq_iff)
    have ok: "out_ok ?ms a (current_term ?s) r" "\<forall>r \<in> set rs'. out_ok ?ms a (current_term ?s) r"
      using pcr Cons by (simp_all add: pc_rel_def)
    have "node_rel ?ms a (elected c) v ?s'"
      using node ok(1) by (simp add: node_rel_def apply_result_def ball_Un)
    moreover have "pc_rel ?ms a v ?s' (HbApply ret rs')"
      using pcr ok(2) by (simp add: pc_rel_def same) (simp add: apply_result_def)
    ultimately show ?thesis
      unfolding c'
      by (intro rel_step [OF R v sim_refl, where s' = ?s' and p' = "HbApply ret rs'"])
        (simp_all add: relD(3) [OF R] apply_result_def)
  qed
qed

end
