(* ===== verification/Raft_Sim_Rpc.thy ===== *)
theory Raft_Sim_Rpc
  imports Raft_Sim_Run
begin

text \<open>
  The remaining steps keep the relation of \<open>Raft_Relation\<close>: the two RPC handlers, each as
  "adopt the term" followed by the abstract vote or accept, and the second half of
  \<open>send_heartbeats\<close>, where the replies, the commit index and the lease are followed one
  after the other.
\<close>

section \<open>Recorded replies\<close>

lemma rel_rv_ret:
  assumes "rel c a" "rvr_voteGranted rep \<Longrightarrow> (rv_term req, n, f) \<in> s_grants a"
  shows "rel (c\<lparr>rv_rets := insert (f, n, req, rep) (rv_rets c)\<rparr>) a"
  using assms unfolding rel_def msg_rel_def by auto

lemma rel_ae_ret:
  assumes "rel c a"
    and "aer_success rep \<Longrightarrow> ae_prevLogIndex req + length (ae_entries req) \<le> s_ack a (ae_term req) n"
  shows "rel (c\<lparr>ae_rets := insert (f, n, req, rep) (ae_rets c)\<rparr>) a"
  using assms unfolding rel_def msg_rel_def by auto

lemma put_put: "put n s' p' (put n s p c) = put n s' p' c"
  by (simp add: put_def)

lemma put_same: "put n (node c n) (pc c n) c = c"
  by (simp add: put_def)

section \<open>Votes\<close>

text \<open>The vote itself: the node already stands in the request's term.\<close>

lemma rel_grant:
  assumes R: "rel c a" and v: "v \<in> set (members c)" and f: "f \<in> set (members c)"
    and t: "rv_term req = current_term (node c v)" and req: "rv_req_ok f (node c f) req"
    and up: "up_to_date req (rlog (node c v))"
    and free: "voted_for (node c v) = None \<or> voted_for (node c v) = Some f"
    and reg: "voted_for (node c v) = None \<Longrightarrow> (current_term (node c v), v) \<notin> elected c"
  shows "sim (members c) v a (do_grant v f a)"
    "rel (put v (reset_election_timer d ((node c v)\<lparr>voted_for := Some f\<rparr>)) (pc c v) c) (do_grant v f a)"
proof -
  let ?s = "node c v" and ?ms = "members c" and ?b = "do_grant v f a"
  let ?s' = "reset_election_timer d (?s\<lparr>voted_for := Some f\<rparr>)"
  note node = relD(4) [OF R v] and nodef = relD(4) [OF R f]
  have uniq: "d = f" if "(s_term a v, v, d) \<in> s_grants a" for d
    using node_relD(7) [OF node, of d] that node_relD(3) [OF node] free reg by auto
  have le: "s_term a v \<le> s_term a f"
    using node_relD(3) [OF node] node_relD(3) [OF nodef] req t by (simp add: rv_req_ok_def)
  have "not_ahead (s_log a v) (s_log a f)" if "s_cand a f" "s_term a f = s_term a v"
  proof -
    have "rv_lastLogIndex req = length (rlog (node c f))" "rv_lastLogTerm req = last_log_term (rlog (node c f))"
      using that req t node_relD(3,5) [OF nodef] node_relD(3) [OF node] by (simp_all add: rv_req_ok_def)
    with up node_relD(4) [OF node] node_relD(4) [OF nodef] show ?thesis
      by (simp add: up_to_date_iff not_ahead_def)
  qed
  then have "spec_step (majority_of ?ms) a ?b" using le uniq by (intro spec_step.grant) blast+
  then show S: "sim ?ms v a ?b" by (rule sim_one) simp
  note ext = sim_extends [OF S relD(1) [OF R]]
  have "known (majority_of ?ms) ?b (current_term ?s) (rlog ?s) (commit_index ?s)"
    by (rule known_extends [OF ext node_relD(8) [OF node] order.refl])
  moreover have "\<forall>r \<in> set (ready_out ?s). out_ok ?ms ?b (current_term ?s) r"
    by (rule node_rel_outs [OF node ext order.refl])
  moreover have "d = f" if "(current_term ?s, v, d) \<in> s_grants ?b" for d
    using that uniq node_relD(3) [OF node] by auto
  ultimately have nr: "node_rel ?ms ?b (elected c) v ?s'"
    using node_relD(1-6,9-14) [OF node] unfolding node_rel_def by auto
  have same: "tally_ok ?ms ?b v ?s' = tally_ok ?ms ?b v ?s" "preq_ok ?ms ?b v ?s' = preq_ok ?ms ?b v ?s"
    "lead_rel ?ms ?b v ?s' = lead_rel ?ms ?b v ?s"
    by (simp_all add: tally_ok_def preq_ok_def lead_rel_def next_ok_def fun_eq_iff)
  have "pc_rel ?ms ?b v ?s (pc c v)" by (rule pc_rel_extends [OF ext relD(5) [OF R v]])
  then have "pc_rel ?ms ?b v ?s' (pc c v)" by (cases "pc c v") (simp_all add: pc_rel_def same)
  with nr show "rel (put v ?s' (pc c v) c) ?b"
    by (intro rel_step [OF R v S, where s' = ?s' and p' = "pc c v"]) (simp_all add: relD(3) [OF R])
qed

text \<open>Adopting the request's term, before the vote is decided.\<close>

lemma rel_rv_accept_term:
  assumes R: "rel c a" and v: "v \<in> set (members c)" and t: "current_term (node c v) \<le> rv_term req"
  obtains b where "sim (members c) v a b" "rel (put v (rv_accept_term d req (node c v)) (pc c v) c) b"
proof (cases "current_term (node c v) < rv_term req")
  case False
  with t have "rv_accept_term d req (node c v) = node c v" by (simp add: rv_accept_term_def)
  with R show ?thesis using that [of a] by (simp add: put_same)
next
  case True
  let ?s = "node c v"
  let ?s' = "rv_accept_term d req ?s"
  have s': "same_log ?s ?s'" "role ?s' = FOLLOWER" "current_term ?s' = rv_term req"
    using True by (simp_all add: same_log_def)
  have le: "current_term ?s \<le> current_term ?s'" using True s'(3) by simp
  have "pc_rel (members c) (do_bump v (current_term ?s') a) v ?s' (pc c v)"
    by (rule pc_rel_follower [OF pc_rel_extends [OF bump_sim(2) [OF R v le] relD(5) [OF R v]] s'(2) le])
  from rel_bump [OF R v s'(1,2) le _ this] True s'(3) that bump_sim(1) [OF R v le] show ?thesis by simp
qed

lemma sim_trans: "sim ms v a b \<Longrightarrow> sim ms v b c \<Longrightarrow> sim ms v a c"
proof -
  have "spec_steps q b c \<Longrightarrow> spec_steps q a b \<Longrightarrow> spec_steps q a c" for q
    by (induction rule: spec_steps.induct) (auto intro: spec_trans)
  then show "sim ms v a b \<Longrightarrow> sim ms v b c \<Longrightarrow> sim ms v a c"
    unfolding sim_def others_same_def by auto
qed

lemma rel_serve_vote:
  assumes R: "rel c a" and v: "v \<in> set (members c)"
    and step: "serve_vote f v req d1 d2 c = Next c'" and reg: "regular (ServeVote f v req d1 d2) c"
  shows "\<exists>b. spec_steps (majority_of (members c)) a b \<and> rel c' b"
proof -
  let ?s = "node c v" and ?ms = "members c"
  obtain rep s' where h: "handle_request_vote d1 d2 req ?s = (rep, s')" by force
  from step h have call: "(f, v, req) \<in> rv_calls c"
    and c': "c' = (put v s' (pc c v) c)\<lparr>rv_rets := insert (f, v, req, rep) (rv_rets c)\<rparr>"
    by (auto simp: serve_vote_def split: if_splits)
  from msg_relD(1) [OF relD(6) [OF R] call] have f: "f \<in> set ?ms" "rv_req_ok f (node c f) req" by simp_all
  from h show ?thesis
  proof (cases rule: handle_request_vote_cases)
    case stale
    with rel_rv_ret [OF R, of rep req v f] have "rel c' a" by (simp add: c' put_same)
    then show ?thesis using spec_refl by blast
  next
    case deny
    obtain b where b: "sim ?ms v a b" "rel (put v s' (pc c v) c) b"
      using rel_rv_accept_term [OF R v deny(1)] deny(2) by blast
    with rel_rv_ret [OF b(2), of rep req v f] deny(3) have "rel c' b" by (simp add: c')
    with b(1) show ?thesis unfolding sim_def by blast
  next
    case grant
    let ?s1 = "rv_accept_term d1 req ?s" and ?c1 = "put v (rv_accept_term d1 req ?s) (pc c v) c"
    obtain b where b: "sim ?ms v a b" "rel ?c1 b" using rel_rv_accept_term [OF R v grant(1)] .
    have id: "rv_candidateId req = f" using f(2) by (simp add: rv_req_ok_def)
    have call1: "(f, v, req) \<in> rv_calls ?c1" using call by simp
    from msg_relD(1) [OF relD(6) [OF b(2)] call1] have req1: "rv_req_ok f (node ?c1 f) req" by simp
    have pre: "rv_term req = current_term (node ?c1 v)" "up_to_date req (rlog (node ?c1 v))"
      "voted_for (node ?c1 v) = None \<or> voted_for (node ?c1 v) = Some f"
      using grant(1-3) id by auto
    have el: "(current_term (node ?c1 v), v) \<notin> elected ?c1" if "voted_for (node ?c1 v) = None"
    proof (cases "current_term ?s < rv_term req")
      case True
      have "(rv_term req, v) \<notin> elected c"
      proof
        assume "(rv_term req, v) \<in> elected c"
        then have "s_leader a (rv_term req) = Some v" using relD(3) [OF R] by simp
        from leader_inv_leader(1) [OF rel_invD(2) [OF R] this] node_relD(3) [OF relD(4) [OF R v]] True
        show False by simp
      qed
      with pre(1) show ?thesis by simp
    next
      case False
      with grant(1) that reg show ?thesis by simp
    qed
    from v f(1) have in1: "v \<in> set (members ?c1)" "f \<in> set (members ?c1)" by simp_all
    note g = rel_grant [OF b(2) in1 pre(1) req1 pre(2,3) el]
    have "rel (put v s' (pc c v) c) (do_grant v f b)"
      using g(2) [of d2] grant(4) id by (simp add: put_put)
    moreover have "s_term b v = rv_term req"
      by (simp only: node_relD(3) [OF relD(4) [OF b(2) in1(1)]] pre(1))
    then have "(rv_term req, v, f) \<in> s_grants (do_grant v f b)" by simp
    ultimately have "rel c' (do_grant v f b)"
      using rel_rv_ret [of "put v s' (pc c v) c" "do_grant v f b" rep req v f] by (simp add: c')
    moreover have "sim ?ms v a (do_grant v f b)" using sim_trans [OF b(1)] g(1) by simp
    ultimately show ?thesis unfolding sim_def by blast
  qed
qed

section \<open>AppendEntries\<close>

lemma out_ok_result:
  assumes "known (majority_of ms) a t l (Suc i)"
  shows "out_ok ms a t (result_at l i)"
  using assms by (auto simp: out_ok_def result_at_def)

lemma out_ok_results:
  assumes "known (majority_of ms) a t l k"
  shows "\<forall>r \<in> set (map (result_at l) [j..<k]). out_ok ms a t r"
  using known_mono [OF assms] by (auto intro: out_ok_result)

text \<open>The accepted slice: the node already follows in the request's term.\<close>

lemma rel_accept:
  assumes R: "rel c a" and v: "v \<in> set (members c)"
    and fo: "role (node c v) = FOLLOWER" "current_term (node c v) = ae_term req"
    and req: "ae_req_ok (members c) a f req" and prev: "prev_ok req (rlog (node c v))"
    and l: "append_spec (rlog (node c v)) (ae_prevLogIndex req) (ae_entries req) l"
    and k: "k = new_commit (commit_index (node c v)) (ae_leaderCommit req) (length l)"
    and s': "s' = (node c v)\<lparr>rlog := l, commit_index := k,
        last_applied := max (last_applied (node c v)) k,
        ready_out := ready_out (node c v) @ map (result_at l) [last_applied (node c v)..<k]\<rparr>"
  obtains b where "sim (members c) v a b" "rel (put v s' (pc c v) c) b"
    "ae_prevLogIndex req + length (ae_entries req) \<le> s_ack b (ae_term req) v"
proof -
  let ?s = "node c v" and ?ms = "members c" and ?T = "ae_term req"
  let ?prev = "ae_prevLogIndex req" and ?len = "length (ae_entries req)"
  let ?L = "s_llog a ?T"
  note node = relD(4) [OF R v]
  from req have r: "s_leader a ?T = Some f" "?prev + ?len \<le> length ?L" "slice ?prev ?len ?L = ae_entries req"
    "?prev > 0 \<longrightarrow> ae_prevLogTerm req = e_term (?L ! (?prev - 1))" "ae_leaderCommit req \<le> ?prev + ?len"
    "known (majority_of ?ms) a ?T ?L (ae_leaderCommit req)"
    by (simp_all add: ae_req_ok_def Let_def)
  have T: "s_term a v = ?T" "s_log a v = rlog ?s" "\<not> s_cand a v" "\<not> s_lead a v"
    using node_relD(3-6) [OF node] fo by simp_all
  have acc: "s_leader a (s_term a v) \<noteq> None" "?prev + ?len \<le> length (s_llog a (s_term a v))"
    "?prev \<le> length (s_log a v)"
    "?prev > 0 \<longrightarrow> e_term (s_log a v ! (?prev - 1)) = e_term (s_llog a (s_term a v) ! (?prev - 1))"
    "append_spec (s_log a v) ?prev (slice ?prev ?len (s_llog a (s_term a v))) l"
    using r(1-4) prev l by (simp_all add: T prev_ok_def)
  let ?b = "do_accept v (?prev + ?len) l a"
  have S: "sim ?ms v a ?b"
    using acc T(3,4) by (intro sim_one spec_step.accept) simp_all
  note ext = sim_extends [OF S relD(1) [OF R]]
  have "known (majority_of ?ms) a (s_term a v) (s_log a v) (commit_index ?s)"
    using node_relD(8) [OF node] fo(2) T by simp
  note kn = maj.accept_known [OF rel_inv [OF R] this acc]
  have lk: "known (majority_of ?ms) a ?T l k"
  proof (cases "ae_leaderCommit req > commit_index ?s")
    case True
    from agree_lengths [OF kn(2)] r(5) True k have "k = ae_leaderCommit req" by (simp add: new_commit_def)
    then show ?thesis using known_agree [OF r(6) kn(2) [unfolded T(1)]] r(5) by simp
  next
    case False
    with kn(1) T(1) k show ?thesis by (simp add: new_commit_def)
  qed
  have kb: "known (majority_of ?ms) ?b ?T l k" by (rule known_extends [OF ext lk order.refl])
  have ge: "commit_index ?s \<le> k"
    using k agree_lengths [OF kn(2)] r(5) by (auto simp: new_commit_def)
  have "\<forall>r \<in> set (ready_out ?s). out_ok ?ms ?b ?T r"
    by (rule node_rel_outs [OF node ext]) (simp add: fo)
  moreover note out_ok_results [OF kb, of "last_applied ?s"]
  ultimately have outs: "\<forall>r \<in> set (ready_out s'). out_ok ?ms ?b ?T r" by (auto simp: s')
  have nr: "node_rel ?ms ?b (elected c) v s'"
    using node_relD(1,2,7,9-13) [OF node] fo T kb ge outs
    unfolding node_rel_def by (simp add: s')
  have "pc_rel ?ms ?b v s' (pc c v)"
    by (rule pc_rel_follower [OF pc_rel_extends [OF ext relD(5) [OF R v]]]) (simp_all add: s' fo)
  with nr fo have "rel (put v s' (pc c v) c) ?b"
    by (intro rel_step [OF R v S, where s' = s' and p' = "pc c v"]) (simp_all add: relD(3) [OF R] s')
  moreover have "?prev + ?len \<le> s_ack ?b ?T v" using T(1) by simp
  ultimately show ?thesis using that S by blast
qed

lemma rel_ae_accept_term:
  assumes R: "rel c a" and v: "v \<in> set (members c)" and t: "current_term (node c v) \<le> ae_term req"
  obtains b where "sim (members c) v a b" "rel (put v (ae_accept_term d req (node c v)) (pc c v) c) b"
proof -
  let ?s = "node c v" and ?s' = "ae_accept_term d req (node c v)"
  have s': "same_log ?s ?s'" "role ?s' = FOLLOWER" "current_term ?s' = ae_term req"
    using t by (simp_all add: same_log_def)
  have le: "current_term ?s \<le> current_term ?s'" using t s'(3) by simp
  have "pc_rel (members c) (do_bump v (current_term ?s') a) v ?s' (pc c v)"
    by (rule pc_rel_follower [OF pc_rel_extends [OF bump_sim(2) [OF R v le] relD(5) [OF R v]] s'(2) le])
  from rel_bump [OF R v s'(1,2) le _ this] s'(3) that bump_sim(1) [OF R v le] show ?thesis by simp
qed

lemma rel_node_ok: "rel c a \<Longrightarrow> v \<in> set (members c) \<Longrightarrow> node_ok (node c v)"
  using node_relD(9) [OF relD(4), of c a v] by (simp add: node_ok_def)

lemma rel_serve_append:
  assumes R: "rel c a" and v: "v \<in> set (members c)" and step: "serve_append f v req d c = Next c'"
  shows "\<exists>b. spec_steps (majority_of (members c)) a b \<and> rel c' b"
proof -
  let ?s = "node c v" and ?ms = "members c"
  from step obtain rep s' where call: "(f, v, req) \<in> ae_calls c"
    and h: "handle_append_entries d req ?s = Some (rep, s')"
    and c': "c' = (put v s' (pc c v) c)\<lparr>ae_rets := insert (f, v, req, rep) (ae_rets c)\<rparr>"
    by (auto simp: serve_append_def split: if_splits option.splits)
  from h rel_node_ok [OF R v] show ?thesis
  proof (cases rule: handle_append_entries_cases)
    case stale
    with rel_ae_ret [OF R, of rep req v f] have "rel c' a" by (simp add: c' put_same)
    then show ?thesis using spec_refl by blast
  next
    case reject
    obtain b where b: "sim ?ms v a b" "rel (put v s' (pc c v) c) b"
      using rel_ae_accept_term [OF R v reject(1)] reject(3) by blast
    with rel_ae_ret [OF b(2), of rep req v f] reject(4) have "rel c' b" by (simp add: c')
    with b(1) show ?thesis unfolding sim_def by blast
  next
    case (accept l)
    let ?s1 = "ae_accept_term d req ?s"
    let ?c1 = "put v ?s1 (pc c v) c"
    obtain b where b: "sim ?ms v a b" "rel ?c1 b" using rel_ae_accept_term [OF R v accept(1)] .
    have v1: "v \<in> set (members ?c1)" using v by simp
    have fo: "role (node ?c1 v) = FOLLOWER" "current_term (node ?c1 v) = ae_term req"
      "rlog (node ?c1 v) = rlog ?s"
      using accept(1) by simp_all
    have "(f, v, req) \<in> ae_calls ?c1" using call by simp
    from msg_relD(3) [OF relD(6) [OF b(2)] this] have req: "ae_req_ok (members ?c1) b f req" by simp
    define k where "k = new_commit (commit_index (node ?c1 v)) (ae_leaderCommit req) (length l)"
    have "s' = (node ?c1 v)\<lparr>rlog := l, commit_index := k, last_applied := max (last_applied (node ?c1 v)) k,
        ready_out := ready_out (node ?c1 v) @ map (result_at l) [last_applied (node ?c1 v)..<k]\<rparr>"
      using accept(4) by (simp add: ae_accepted_def k_def Let_def)
    from rel_accept [OF b(2) v1 fo(1,2) req _ _ k_def this] accept(2,3) fo(3)
    obtain b' where b': "sim ?ms v b b'" "rel (put v s' (pc c v) c) b'"
      "ae_prevLogIndex req + length (ae_entries req) \<le> s_ack b' (ae_term req) v"
      by (auto simp: put_put)
    with rel_ae_ret [OF b'(2), of rep req v f] have "rel c' b'" by (simp add: c')
    moreover have "sim ?ms v a b'" by (rule sim_trans [OF b(1) b'(1)])
    ultimately show ?thesis unfolding sim_def by blast
  qed
qed

section \<open>The second half of send heartbeats\<close>

text \<open>What the replies of one round keep: only the two index maps change, and stay right.\<close>

definition index_ok :: "u64 list \<Rightarrow> spec \<Rightarrow> u64 \<Rightarrow> Raft \<Rightarrow> Raft \<Rightarrow> bool" where
  "index_ok ms a n s s' \<longleftrightarrow>
     s' = s\<lparr>nextIndex := nextIndex s', matchIndex := matchIndex s'\<rparr> \<and>
     distinct (map fst (matchIndex s')) \<and> fst ` set (matchIndex s') \<subseteq> set ms - {n} \<and>
     distinct (map fst (nextIndex s')) \<and> fst ` set (nextIndex s') \<subseteq> set ms - {n} \<and>
     lead_rel ms a n s'"

lemma index_okD:
  assumes "index_ok ms a n s s'"
  shows "s' = s\<lparr>nextIndex := nextIndex s', matchIndex := matchIndex s'\<rparr>"
    "distinct (map fst (matchIndex s'))" "fst ` set (matchIndex s') \<subseteq> set ms - {n}"
    "distinct (map fst (nextIndex s'))" "fst ` set (nextIndex s') \<subseteq> set ms - {n}"
    "lead_rel ms a n s'"
  using assms by (simp_all add: index_ok_def)

lemma index_ok_frame:
  assumes "index_ok ms a n s s'"
  shows "role s' = role s" "current_term s' = current_term s" "rlog s' = rlog s"
    "commit_index s' = commit_index s" "last_applied s' = last_applied s"
    "voted_for s' = voted_for s" "ready_out s' = ready_out s" "node_id s' = node_id s" "peers s' = peers s"
  by (subst index_okD(1) [OF assms], simp)+

lemma index_ok_success:
  assumes ok: "index_ok ms a n s s'" and p: "res_peer_id r \<in> set ms - {n}"
    and k: "res_prev_idx r + res_entries_sent r \<le> length (rlog s)"
      "res_prev_idx r + res_entries_sent r \<le> s_ack a (current_term s) (res_peer_id r)"
  shows "index_ok ms a n s (hb_success r s')"
proof -
  let ?p = "res_peer_id r" and ?k = "res_prev_idx r + res_entries_sent r"
  note fr = index_ok_frame [OF ok] and lead = index_okD(6) [OF ok]
  have "next_ok (s'\<lparr>nextIndex := AList.update ?p (?k + 1) (nextIndex s')\<rparr>)"
    using lead k(1) fr(3) by (intro next_ok_update) (simp_all add: lead_rel_def)
  moreover have "set ms - {n} \<subseteq> fst ` set (AList.update ?p (?k + 1) (nextIndex s'))"
    using lead by (auto simp: lead_rel_def fst_set_update)
  moreover have "m \<le> s_ack a (current_term s) x" if "(x, m) \<in> set (AList.update ?p ?k (matchIndex s'))" for x m
    using set_update_cases [OF that] lead k(2) fr(2) by (auto simp: lead_rel_def)
  ultimately have "lead_rel ms a n (hb_success r s')"
    using fr(2) by (auto simp: lead_rel_def hb_success_def next_ok_def)
  moreover have "hb_success r s' = s\<lparr>nextIndex := nextIndex (hb_success r s'),
      matchIndex := matchIndex (hb_success r s')\<rparr>"
    by (subst (1) index_okD(1) [OF ok]) (simp add: hb_success_def)
  ultimately show ?thesis
    using index_okD(2-5) [OF ok] p unfolding index_ok_def
    by (simp add: hb_success_def distinct_update fst_set_update)
qed

lemma index_ok_failure:
  assumes ok: "index_ok ms a n s s'" and p: "res_peer_id r \<in> set ms - {n}"
  shows "index_ok ms a n s (hb_failure r s')"
proof -
  let ?p = "res_peer_id r"
  define x where "x = umap_get (nextIndex s') ?p"
  define y where "y = (if x > 1 then x - 1 else x)"
  have h: "hb_failure r s' = s'\<lparr>nextIndex := AList.update ?p y (nextIndex s')\<rparr>"
    by (simp add: hb_failure_def x_def y_def Let_def)
  note lead = index_okD(6) [OF ok]
  then have "map_of (nextIndex s') ?p \<noteq> None" using p by (auto simp: lead_rel_def map_of_eq_None_iff)
  then have "1 \<le> x \<and> x \<le> length (rlog s') + 1"
    using lead next_okD [of s' ?p] by (auto simp: x_def umap_get_def lead_rel_def)
  then have "1 \<le> y" "y \<le> length (rlog s') + 1" by (auto simp: y_def)
  then have "next_ok (hb_failure r s')"
    unfolding h using lead by (intro next_ok_update) (simp_all add: lead_rel_def)
  moreover have "set ms - {n} \<subseteq> fst ` set (AList.update ?p y (nextIndex s'))"
    using lead by (auto simp: lead_rel_def fst_set_update)
  ultimately have "lead_rel ms a n (hb_failure r s')" using lead by (simp add: lead_rel_def h)
  moreover have "hb_failure r s' = s\<lparr>nextIndex := nextIndex (hb_failure r s'),
      matchIndex := matchIndex (hb_failure r s')\<rparr>"
    unfolding h by (subst (1) index_okD(1) [OF ok]) simp
  ultimately show ?thesis
    using index_okD(2-5) [OF ok] p unfolding index_ok_def
    by (simp add: h distinct_update fst_set_update)
qed

text \<open>The results that a round delivers.\<close>

lemma answered_result:
  assumes R: "rel c a" and v: "v \<in> set (members c)" and lead: "role (node c v) = LEADER"
    and p: "pc c v = HbCalls ret reqs" and ans: "answered v reqs outs c"
    and r: "r \<in> set (map2 peer_result reqs outs)"
  shows "res_peer_id r \<in> set (members c) - {v}"
    "res_rpc_ok r \<Longrightarrow> aer_success (res_reply r) \<Longrightarrow>
      res_prev_idx r + res_entries_sent r \<le> length (rlog (node c v)) \<and>
      res_prev_idx r + res_entries_sent r \<le> s_ack a (current_term (node c v)) (res_peer_id r)"
proof -
  let ?s = "node c v"
  from r obtain x out where x: "(x, out) \<in> set (zip reqs outs)" "r = peer_result x out" by auto
  then have "x \<in> set reqs" by (auto dest: set_zip_leftD)
  with relD(5) [OF R v, unfolded p] have ok: "preq_ok (members c) a v ?s x" by (simp add: pc_rel_def)
  then show "res_peer_id r \<in> set (members c) - {v}" by (simp add: x(2) peer_result_def preq_ok_def)
  assume suc: "res_rpc_ok r" "aer_success (res_reply r)"
  then obtain rep where out: "out = Some rep" "aer_success rep"
    by (cases out) (simp_all add: x(2) peer_result_def)
  have "(v, preq_peer_id x, preq_request x, rep) \<in> ae_rets c"
    using ans x(1) out(1) by (auto simp: answered_def list_all_iff)
  note ack = msg_relD(4) [OF relD(6) [OF R] this out(2)]
  have T: "ae_term (preq_request x) = current_term ?s" using ok lead by (simp add: preq_ok_def)
  have "s_llog a (current_term ?s) = rlog ?s"
    using leader_inv_lead(2) [OF rel_invD(2) [OF R], of v] node_relD(3,4,6) [OF relD(4) [OF R v]] lead
    by simp
  with ok T have "preq_prev_idx x + preq_entries_sent x \<le> length (rlog ?s)"
    by (simp add: preq_ok_def ae_req_ok_def Let_def)
  with ack T ok show "res_prev_idx r + res_entries_sent r \<le> length (rlog ?s) \<and>
      res_prev_idx r + res_entries_sent r \<le> s_ack a (current_term ?s) (res_peer_id r)"
    by (simp add: x(2) peer_result_def preq_ok_def)
qed

text \<open>
  The section is followed in stages, each of which keeps the relation; between the stages
  the run thread is put at a position that asks nothing beyond the leader's indices.
\<close>

lemma rel_index_ok:
  assumes R: "rel c a" and v: "v \<in> set (members c)" and ok: "index_ok (members c) a v (node c v) s'"
  shows "rel (put v s' LeaderWait c) a"
proof -
  note fr = index_ok_frame [OF ok]
  have "node_rel (members c) a (elected c) v s'"
    using relD(4) [OF R v] index_okD(2-5) [OF ok] unfolding node_rel_def fr by simp
  moreover have "pc_rel (members c) a v s' LeaderWait" using index_okD(6) [OF ok] by (simp add: pc_rel_def)
  ultimately show ?thesis
    by (intro rel_step [OF R v sim_refl, where s' = s' and p' = LeaderWait])
      (simp_all add: relD(3) [OF R] fr)
qed

lemma leader_committed:
  assumes R: "rel c a" and v: "v \<in> set (members c)" and lead: "role (node c v) = LEADER"
    and lr: "lead_rel (members c) a v (node c v)"
    and i: "0 < i" "i \<le> length (rlog (node c v))"
      "e_term (rlog (node c v) ! (i - 1)) = current_term (node c v)"
      "majority (node c v) \<le> match_count (matchIndex (node c v)) i"
  shows "committed (majority_of (members c)) a (current_term (node c v)) i"
proof -
  let ?s = "node c v" and ?ms = "members c" and ?T = "current_term (node c v)"
  note node = relD(4) [OF R v]
  have L: "s_leader a ?T = Some v" "s_llog a ?T = rlog ?s"
    using leader_inv_lead [OF rel_invD(2) [OF R], of v] node_relD(3,4,6) [OF node] lead by simp_all
  have "s_elen a ?T < i"
  proof (rule ccontr)
    assume "\<not> s_elen a ?T < i"
    with i(1,2) L have "e_term (s_llog a ?T ! (i - 1)) < ?T"
      by (intro log_inv_llog(3) [OF rel_invD(3) [OF R]]) auto
    with i(3) L show False by simp
  qed
  with L i(2) have own: "own a ?T i" by (simp add: own_def)
  define F where "F = filter (\<lambda>(_, m). m \<ge> i) (matchIndex ?s)"
  let ?Q = "insert v (fst ` set F)"
  have sub: "fst ` set F \<subseteq> set ?ms - {v}" using node_relD(11) [OF node] by (auto simp: F_def)
  have "distinct (map fst F)"
    unfolding F_def using node_relD(10) [OF node] by (rule distinct_map_filter)
  from distinct_card [OF this] have "card (fst ` set F) = length F" by simp
  moreover have "v \<notin> fst ` set F" using sub by auto
  ultimately have "card ?Q = match_count (matchIndex ?s) i" by (simp add: match_count_def F_def)
  with i(4) sub v have "majority_of ?ms ?Q"
    using majority_members [OF R v] by (auto simp: majority_of_def)
  moreover have "i \<le> s_ack a ?T w" if "w \<in> ?Q" for w
  proof (cases "w = v")
    case True
    with node_relD(14) [OF node lead] i(2) show ?thesis by simp
  next
    case False
    with that obtain m where "(w, m) \<in> set (matchIndex ?s)" "i \<le> m" by (auto simp: F_def)
    with lr show ?thesis by (auto simp: lead_rel_def)
  qed
  ultimately show ?thesis using own unfolding committed_def by blast
qed

lemma rel_commit:
  assumes R: "rel c a" and v: "v \<in> set (members c)" and lead: "role (node c v) = LEADER"
    and p: "pc c v = LeaderWait" and k: "k = commit_scan (node c v) (length (rlog (node c v)))"
  shows "rel (put v ((node c v)\<lparr>commit_index := k, last_applied := max (last_applied (node c v)) k\<rparr>)
        LeaderWait c) a"
    and "known (majority_of (members c)) a (current_term (node c v)) (rlog (node c v)) k"
proof -
  let ?s = "node c v" and ?ms = "members c"
  let ?s' = "?s\<lparr>commit_index := k, last_applied := max (last_applied ?s) k\<rparr>"
  note node = relD(4) [OF R v]
  have lr: "lead_rel ?ms a v ?s" using relD(5) [OF R v] p lead by (simp add: pc_rel_def)
  have L: "s_llog a (current_term ?s) = rlog ?s"
    using leader_inv_lead [OF rel_invD(2) [OF R], of v] node_relD(3,4,6) [OF node] lead by simp
  show kn: "known (majority_of ?ms) a (current_term ?s) (rlog ?s) k"
    using commit_scan_spec [of ?s "length (rlog ?s)"]
  proof
    assume "commit_scan ?s (length (rlog ?s)) = commit_index ?s"
    with node_relD(8) [OF node] k show ?thesis by simp
  next
    assume *: "commit_index ?s < commit_scan ?s (length (rlog ?s)) \<and>
      commit_scan ?s (length (rlog ?s)) \<le> length (rlog ?s) \<and>
      e_term (rlog ?s ! (commit_scan ?s (length (rlog ?s)) - 1)) = current_term ?s \<and>
      majority ?s \<le> match_count (matchIndex ?s) (commit_scan ?s (length (rlog ?s)))"
    then have "0 < k" "k \<le> length (rlog ?s)" "e_term (rlog ?s ! (k - 1)) = current_term ?s"
      "majority ?s \<le> match_count (matchIndex ?s) k" unfolding k by linarith+
    from leader_committed [OF R v lead lr this] \<open>k \<le> length (rlog ?s)\<close> show ?thesis
      unfolding known_def by (metis L agree_refl order.refl)
  qed
  have "commit_index ?s \<le> k" unfolding k by (rule commit_scan_mono)
  then have "node_rel ?ms a (elected c) v ?s'"
    using node kn by (simp add: node_rel_def)
  moreover have "pc_rel ?ms a v ?s' LeaderWait"
    using lr by (simp add: pc_rel_def lead_rel_def next_ok_def)
  ultimately show "rel (put v ?s' LeaderWait c) a"
    by (intro rel_step [OF R v sim_refl, where s' = ?s' and p' = LeaderWait])
      (simp_all add: relD(3) [OF R])
qed

lemma hb_lease_cases:
  assumes "commit_index s \<le> length (rlog s)"
  obtains s' where "hb_lease now d k s = Some s'" "same_core s s'"
    | s' where "hb_lease now d k s = Some s'" "same_log s s'" "role s' = FOLLOWER" "voted_for s' = None"
        "current_term s' = current_term s"
proof -
  consider "k \<ge> majority s" | "k < majority s" "now - last_majority_at s > ms_to_ns (election_timeout s)"
    | "k < majority s" "\<not> now - last_majority_at s > ms_to_ns (election_timeout s)" by linarith
  then show ?thesis
  proof cases
    case 1
    with assms have "\<exists>s'. hb_lease now d k s = Some s' \<and> same_core s s'"
      by (cases "commit_index s = 0") (auto simp: hb_lease_def Let_def vec_at_in_range same_core_def)
    with that(1) show ?thesis by blast
  next
    case 2
    with that(2) show ?thesis by (auto simp: hb_lease_def same_log_def)
  next
    case 3
    with that(1) show ?thesis by (auto simp: hb_lease_def)
  qed
qed

lemma rel_lease:
  assumes R: "rel c a" and v: "v \<in> set (members c)" and lead: "role (node c v) = LEADER"
    and p: "pc c v = LeaderWait"
    and outs: "\<forall>r \<in> set rs. out_ok (members c) a (current_term (node c v)) r"
  obtains b s' where "hb_lease now d k (node c v) = Some s'" "sim (members c) v a b"
    "rel (put v s' (HbApply ret rs) c) b"
proof -
  let ?s = "node c v" and ?ms = "members c"
  note node = relD(4) [OF R v]
  have lr: "lead_rel ?ms a v ?s" using relD(5) [OF R v] p lead by (simp add: pc_rel_def)
  have pcr: "pc_rel ?ms a v ?s (HbApply ret rs)" using lr outs by (simp add: pc_rel_def)
  show ?thesis
  proof (cases rule: hb_lease_cases [OF known_length [OF node_relD(8) [OF node]], of now d k])
    case (1 s')
    from rel_idle [OF R v 1(2) pc_rel_core [OF 1(2) pcr]] 1(1) that sim_refl show ?thesis by blast
  next
    case (2 s')
    have le: "current_term ?s \<le> current_term s'" using 2(5) by simp
    have "pc_rel ?ms (do_bump v (current_term s') a) v s' (HbApply ret rs)"
      by (rule pc_rel_follower [OF pc_rel_extends [OF bump_sim(2) [OF R v le] pcr] 2(3) le])
    moreover have "(current_term ?s, v) \<in> elected c"
      using leader_inv_lead(1) [OF rel_invD(2) [OF R], of v] node_relD(3,6) [OF node] lead relD(3) [OF R]
      by simp
    ultimately have "rel (put v s' (HbApply ret rs) c) (do_bump v (current_term s') a)"
      using 2(4) by (intro rel_bump [OF R v 2(2,3) le]) simp_all
    with 2(1) bump_sim(1) [OF R v le] that show ?thesis by blast
  qed
qed

text \<open>The whole section: it never indexes out of range, and it keeps the relation.\<close>

lemma rel_hb_finish:
  assumes R: "rel c a" and v: "v \<in> set (members c)" and p: "pc c v = HbCalls ret reqs"
    and ans: "answered v reqs outs c"
  obtains rs s' b where "hb_finish now d (map2 peer_result reqs outs) (node c v) = Some (rs, s')"
    "sim (members c) v a b" "rel (put v s' (HbApply ret rs) c) b"
proof (cases "role (node c v) = LEADER")
  case False
  then have "pc_rel (members c) a v (node c v) (HbApply ret [])" by (simp add: pc_rel_def)
  from that [OF _ sim_refl rel_idle [OF R v same_core_refl this]] False show ?thesis
    by (simp add: hb_finish_def)
next
  case lead: True
  let ?s = "node c v" and ?ms = "members c" and ?rs = "map2 peer_result reqs outs"
  note node = relD(4) [OF R v]
  note res = answered_result [OF R v lead p ans]
  have start: "index_ok ?ms a v ?s ?s"
    using node_relD(10-13) [OF node] pc_rel_lead [OF relD(5) [OF R v] lead] p by (simp add: index_ok_def)
  have inv: "case hb_results d ?rs 1 ?s of
      Inl s1 \<Rightarrow> \<exists>s0 r. index_ok ?ms a v ?s s0 \<and> r \<in> set ?rs \<and> current_term s0 < aer_term (res_reply r) \<and>
        s1 = hb_step_down d (aer_term (res_reply r)) s0
    | Inr (k', s1) \<Rightarrow> index_ok ?ms a v ?s s1"
    using res by (intro hb_results_inv [where I = "index_ok ?ms a v ?s"] start index_ok_success
        index_ok_failure) blast+
  show ?thesis
  proof (cases "hb_results d ?rs 1 ?s")
    case (Inl s1)
    with inv obtain s0 t where s0: "index_ok ?ms a v ?s s0" "current_term s0 < t" "s1 = hb_step_down d t s0"
      by auto
    let ?c0 = "put v s0 LeaderWait c"
    have R0: "rel ?c0 a" by (rule rel_index_ok [OF R v s0(1)])
    have v0: "v \<in> set (members ?c0)" using v by simp
    have s1: "same_log (node ?c0 v) s1" "role s1 = FOLLOWER" "current_term s1 = t"
      by (simp_all add: s0(3) hb_step_down_def same_log_def)
    have le: "current_term (node ?c0 v) \<le> current_term s1" using s0(2) s1(3) by simp
    have "rel (put v s1 (HbApply ret []) ?c0) (do_bump v (current_term s1) a)"
      using s0(2) s1(2,3) by (intro rel_bump [OF R0 v0 s1(1,2) le]) (simp_all add: pc_rel_def)
    with Inl lead that [of "[]" s1] bump_sim(1) [OF R0 v0 le] show ?thesis
      by (simp add: hb_finish_def put_put)
  next
    case (Inr x)
    obtain k s1 where x: "x = (k, s1)" by force
    with inv Inr have s1: "index_ok ?ms a v ?s s1" by simp
    note fr = index_ok_frame [OF s1]
    let ?c1 = "put v s1 LeaderWait c"
    have R1: "rel ?c1 a" by (rule rel_index_ok [OF R v s1])
    have in1: "v \<in> set (members ?c1)" "role (node ?c1 v) = LEADER" "pc ?c1 v = LeaderWait"
      using v lead fr(1) by simp_all
    define i where "i = commit_scan s1 (length (rlog s1))"
    let ?s2 = "s1\<lparr>commit_index := i, last_applied := max (last_applied s1) i\<rparr>"
    let ?c2 = "put v ?s2 LeaderWait ?c1"
    have "i = commit_scan (node ?c1 v) (length (rlog (node ?c1 v)))" by (simp add: i_def)
    note cm = rel_commit [OF R1 in1 this]
    have R2: "rel ?c2 a" using cm(1) by simp
    have kn: "known (majority_of ?ms) a (current_term s1) (rlog s1) i" using cm(2) by simp
    define rs where "rs = map (result_at (rlog s1)) [last_applied s1..<i]"
    have al: "apply_loop (rlog s1) (last_applied s1) i = Some rs"
      unfolding rs_def by (rule apply_loop_in_range [OF known_length [OF kn]])
    have outs: "\<forall>r \<in> set rs. out_ok (members ?c2) a (current_term (node ?c2 v)) r"
      unfolding rs_def using out_ok_results [OF kn] by simp
    have in2: "v \<in> set (members ?c2)" "role (node ?c2 v) = LEADER" "pc ?c2 v = LeaderWait"
      using in1 by simp_all
    obtain b s' where b: "hb_lease now d k (node ?c2 v) = Some s'" "sim (members ?c2) v a b"
      "rel (put v s' (HbApply ret rs) ?c2) b"
      using rel_lease [OF R2 in2 outs] .
    then have "hb_finish now d ?rs ?s = Some (rs, s')"
      using lead Inr x al by (simp add: hb_finish_def Let_def i_def)
    with b(2,3) that show ?thesis by (simp add: put_put)
  qed
qed

lemma rel_do_hb_finish:
  assumes "rel c a" "v \<in> set (members c)" "do_hb_finish v now d outs c = Next c'"
  shows "\<exists>b. spec_steps (majority_of (members c)) a b \<and> rel c' b"
proof -
  from assms(3) obtain ret reqs where p: "pc c v = HbCalls ret reqs" and ans: "answered v reqs outs c"
    by (auto simp: do_hb_finish_def split: run_pc.splits if_splits)
  obtain rs s' b where "hb_finish now d (map2 peer_result reqs outs) (node c v) = Some (rs, s')"
    "sim (members c) v a b" "rel (put v s' (HbApply ret rs) c) b"
    using rel_hb_finish [OF assms(1,2) p ans] .
  with assms(3) p ans show ?thesis by (auto simp: do_hb_finish_def sim_def)
qed

end
