(* ===== verification/Raft_Runs.thy ===== *)
theory Raft_Runs
  imports Raft_Cluster "HOL-Library.Code_Target_Numeral"
begin

text \<open>
  Concrete runs of a cluster of three nodes, for the theories that evaluate the model:
  the start state, short names for the messages, an election, and a proposal that is
  replicated, committed and applied on all three nodes. \<open>run_ok\<close> evaluates whether a
  list of steps is possible and regular; \<open>run_ok_reach\<close> turns it into reachability.
\<close>

section \<open>Runs\<close>

fun run_ok :: "event list \<Rightarrow> cluster \<Rightarrow> bool" where
  "run_ok [] c = True"
| "run_ok (e # es) c = (regular e c \<and> (case exec e c of Next c' \<Rightarrow> run_ok es c' | _ \<Rightarrow> False))"

definition final :: "event list \<Rightarrow> cluster \<Rightarrow> cluster" where
  "final es c = (case exec_all es c of Next c' \<Rightarrow> c' | _ \<Rightarrow> c)"

definition three_nodes :: cluster where
  "three_nodes =
     \<lparr>members = [1, 2, 3],
      node = (\<lambda>n. raft_init n (map (\<lambda>p. (p, True)) (filter (\<lambda>p. p \<noteq> n) [1, 2, 3])) 300),
      pc = (\<lambda>_. RunStart), rv_calls = {}, rv_rets = {}, ae_calls = {}, ae_rets = {}, elected = {}\<rparr>"

section \<open>Messages\<close>

definition entry :: "u64 \<Rightarrow> bytes \<Rightarrow> Entry" where
  "entry t d = \<lparr>e_term = t, e_command = d\<rparr>"

definition ae_req :: "u64 \<Rightarrow> u64 \<Rightarrow> u64 \<Rightarrow> u64 \<Rightarrow> Entry list \<Rightarrow> u64 \<Rightarrow> AppendEntriesRequest" where
  "ae_req t l p pt es k = \<lparr>ae_term = t, ae_leaderId = l, ae_prevLogIndex = p,
     ae_prevLogTerm = pt, ae_entries = es, ae_leaderCommit = k\<rparr>"

definition ae_rep :: "u64 \<Rightarrow> bool \<Rightarrow> AppendEntriesReply" where
  "ae_rep t ok = \<lparr>aer_term = t, aer_success = ok\<rparr>"

definition rv_rep :: "u64 \<Rightarrow> bool \<Rightarrow> RequestVoteReply" where
  "rv_rep t ok = \<lparr>rvr_term = t, rvr_voteGranted = ok\<rparr>"

section \<open>An election and a committed proposal\<close>

text \<open>A node waits for its timeout and becomes a candidate.\<close>

definition candidate :: "u64 \<Rightarrow> event list" where
  "candidate n = [Top n 0, Wait n 600000000, Elect n 300]"

text \<open>The next peer is asked: the call fails, or the peer answers.\<close>

definition ask_fails :: "u64 \<Rightarrow> event list" where
  "ask_fails n = [AskTerm n, AskIdx n, Ask n, AskFail n]"

definition ask_answered :: "u64 \<Rightarrow> u64 \<Rightarrow> RequestVoteReq \<Rightarrow> RequestVoteReply \<Rightarrow> event list" where
  "ask_answered n p req rep =
     [AskTerm n, AskIdx n, Ask n, ServeVote n p req 300 300, AskReturn n rep, MyTerm n]"

definition elect_run :: "event list" where
  "elect_run = Start 1 300 # candidate 1 @
     ask_answered 1 2 (request_vote_msg 1 1 0 0) (rv_rep 1 True) @ [Tally 1 300, Lead 1 0]"

text \<open>Node 1 commits an entry with node 2's acknowledgement and is about to apply it.\<close>

definition commit_run_of :: "bytes \<Rightarrow> event list" where
  "commit_run_of d = elect_run @
     [Propose 1 d, HeartbeatBuild 1, ServeAppend 1 2 (ae_req 1 1 0 0 [entry 1 d] 0) 300,
      HeartbeatFinish 1 0 300 [Some (ae_rep 1 True), None]]"

text \<open>Then it is applied, and the next round lets nodes 2 and 3 apply it too.\<close>

definition apply_run_of :: "bytes \<Rightarrow> event list" where
  "apply_run_of d = commit_run_of d @
     [HeartbeatApply 1, HeartbeatApply 1, Top 1 0, HeartbeatBuild 1,
      ServeAppend 1 2 (ae_req 1 1 1 1 [] 1) 300,
      ServeAppend 1 3 (ae_req 1 1 0 0 [entry 1 d] 1) 300]"

definition apply_run :: "event list" where
  "apply_run = apply_run_of ''x''"

section \<open>Reachability\<close>

lemma peers_of_all: "distinct ms \<Longrightarrow> peers_of n ms (map (\<lambda>p. (p, True)) (filter (\<lambda>p. p \<noteq> n) ms))"
  by (auto simp: peers_of_def comp_def image_iff)

lemma three_nodes_start: "cluster_start [1, 2, 3] three_nodes"
proof -
  have "\<exists>ps draw. peers_of n [1, 2, 3] ps \<and> node three_nodes n = raft_init n ps draw \<and>
      pc three_nodes n = RunStart" for n
    using peers_of_all [of "[1, 2, 3]" n] by (simp only: three_nodes_def cluster.simps) (auto; blast)
  moreover have "members three_nodes = [1, 2, 3]" "rv_calls three_nodes = {}" "rv_rets three_nodes = {}"
    "ae_calls three_nodes = {}" "ae_rets three_nodes = {}" "elected three_nodes = {}"
    by (simp_all add: three_nodes_def)
  ultimately show ?thesis unfolding cluster_start_def by simp
qed

lemma run_ok_steps:
  "run_ok es c \<Longrightarrow> cluster_reach ms c \<Longrightarrow> \<exists>c'. exec_all es c = Next c' \<and> cluster_reach ms c'"
proof (induction es arbitrary: c)
  case (Cons e es)
  from Cons.prems(1) obtain c1 where e: "regular e c" "exec e c = Next c1" "run_ok es c1"
    by (auto split: outcome.splits)
  then have "cluster_step c e c1" by (simp add: cluster_step_def)
  with Cons.prems(2) have "cluster_reach ms c1" by (rule reach_step)
  from Cons.IH [OF e(3) this] e(2) show ?case by simp
qed simp

lemma run_ok_reach:
  assumes "run_ok es three_nodes"
  shows "cluster_reach [1, 2, 3] (final es three_nodes)"
  using run_ok_steps [OF assms reach_start [of "cluster_start [1, 2, 3]", OF three_nodes_start]]
  by (auto simp: final_def)

text \<open>The runs evaluate: they are regular and end where the comments say.\<close>

lemma elect_run_ok: "run_ok elect_run three_nodes"
  by code_simp

lemma apply_run_ok: "run_ok apply_run three_nodes"
  by code_simp

lemmas elect_reach = run_ok_reach [OF elect_run_ok]
lemmas apply_reach = run_ok_reach [OF apply_run_ok]

end
