(* ===== verification/Raft_Safety.thy ===== *)
theory Raft_Safety
  imports Raft_Sim_Rpc Raft_Runs
begin

text \<open>
  The safety of the cluster for every state reached by regular steps. All steps together
  (\<open>rel_exec\<close>), the start state (\<open>rel_start\<close>), and the invariant of the transition
  system as an interpretation of \<open>transition_invariant\<close>; then the properties, each read
  off the abstract protocol through the relation.
\<close>

section \<open>Every step keeps the relation\<close>

lemma rel_exec:
  assumes R: "rel c a" and step: "exec e c = Next c'" and reg: "regular e c"
  shows "\<exists>b. spec_steps (majority_of (members c)) a b \<and> rel c' b"
proof -
  from step have v: "actor e \<in> set (members c)" and x: "exec_at e c = Next c'"
    by (auto simp: exec_def split: if_splits)
  have same: "rel c' a \<Longrightarrow> ?thesis" using spec_refl by blast
  show ?thesis
  proof (cases e)
    case (Start n d) with v x rel_do_start [OF R, of n d c'] show ?thesis by (intro same) simp
  next
    case (Top n t) with v x rel_do_top [OF R, of n t c'] show ?thesis by (intro same) simp
  next
    case (Wait n t) with v x rel_do_wait [OF R, of n t c'] show ?thesis by (intro same) simp
  next
    case (Elect n d) with v x reg rel_do_elect_check [OF R, of n d c'] show ?thesis by simp
  next
    case (AskTerm n) with v x rel_do_vote_term [OF R, of n c'] show ?thesis by (intro same) simp
  next
    case (AskIdx n) with v x rel_do_vote_idx [OF R, of n c'] show ?thesis by (intro same) simp
  next
    case (Ask n) with v x rel_do_vote_call [OF R, of n c'] show ?thesis by (intro same) simp
  next
    case (AskFail n) with v x rel_do_vote_fail [OF R, of n c'] show ?thesis by (intro same) simp
  next
    case (AskReturn n r) with v x rel_do_vote_return [OF R, of n r c'] show ?thesis by (intro same) simp
  next
    case (MyTerm n) with v x rel_do_my_term [OF R, of n c'] show ?thesis by (intro same) simp
  next
    case (StaleTerm n d) with v x reg rel_do_stale_term [OF R, of n d c'] show ?thesis by simp
  next
    case (Tally n d) with v x rel_do_tally [OF R, of n d c'] show ?thesis by simp
  next
    case (Lead n t) with v x rel_do_become_leader [OF R, of n t c'] show ?thesis by (intro same) simp
  next
    case (HeartbeatBuild n) with v x rel_do_hb_build [OF R, of n c'] show ?thesis by (intro same) simp
  next
    case (HeartbeatFinish n t d outs)
    with v x rel_do_hb_finish [OF R, of n t d outs c'] show ?thesis by simp
  next
    case (HeartbeatApply n) with v x rel_do_hb_apply [OF R, of n c'] show ?thesis by (intro same) simp
  next
    case (LeaderIdle n) with v x rel_do_leader_wait [OF R, of n c'] show ?thesis by (intro same) simp
  next
    case (ServeVote f n req d1 d2)
    with v x reg rel_serve_vote [OF R, of n f req d1 d2 c'] show ?thesis by simp
  next
    case (ServeAppend f n req d)
    with v x rel_serve_append [OF R, of n f req d c'] show ?thesis by simp
  next
    case (Propose n data) with v x rel_do_propose [OF R, of n data c'] show ?thesis by simp
  next
    case (Kill n) with v x rel_do_kill [OF R, of n c'] show ?thesis by (intro same) simp
  qed
qed

lemma node_rel_init: "peers_of n ms ps \<Longrightarrow> node_rel ms spec_init {} n (raft_init n ps d)"
  by (simp add: node_rel_def raft_init_def known_def spec_init_def)

lemma pc_rel_init: "pc_rel ms a n (raft_init m ps d) RunStart"
  by (simp add: pc_rel_def raft_init_def)

lemma rel_start:
  assumes "cluster_start ms c"
  shows "rel c spec_init"
proof -
  from assms have c: "distinct (members c)" "rv_calls c = {}" "rv_rets c = {}" "ae_calls c = {}"
    "ae_rets c = {}" "elected c = {}" "members c = ms"
    by (simp_all add: cluster_start_def)
  have "node_rel ms spec_init {} n (node c n) \<and> pc_rel ms spec_init n (node c n) (pc c n)"
    if "n \<in> set ms" for n
  proof -
    from assms that obtain ps d where "peers_of n ms ps" "node c n = raft_init n ps d" "pc c n = RunStart"
      by (auto simp: cluster_start_def)
    then show ?thesis by (simp add: node_rel_init pc_rel_init)
  qed
  moreover have "s_leader spec_init = Map.empty" by (simp add: spec_init_def)
  ultimately show ?thesis using c by (simp add: rel_def msg_rel_def spec_start)
qed

lemmas step_defs = do_start_def do_top_def do_wait_def do_elect_check_def do_vote_term_def
  do_vote_idx_def do_vote_call_def do_vote_fail_def do_vote_return_def do_my_term_def
  do_stale_term_def do_tally_def do_become_leader_def do_hb_build_def do_hb_finish_def
  do_hb_apply_def do_leader_wait_def serve_vote_def serve_append_def do_propose_def do_kill_def

lemma exec_members: "exec e c = Next c' \<Longrightarrow> members c' = members c"
  by (cases e) (auto simp: exec_def step_defs Let_def
      split: if_splits run_pc.splits option.splits prod.splits list.splits)

definition cluster_inv :: "u64 list \<Rightarrow> cluster \<Rightarrow> bool" where
  "cluster_inv ms c \<longleftrightarrow> members c = ms \<and> (\<exists>a. rel c a)"

interpretation cl: transition_invariant "cluster_start ms" cluster_step "cluster_inv ms" for ms
proof
  show "cluster_inv ms c" if "cluster_start ms c" for c
    using that rel_start [OF that] by (auto simp: cluster_inv_def cluster_start_def)
  show "cluster_inv ms c'" if "cluster_inv ms c" "cluster_step c e c'" for c e c'
    using that rel_exec [of c _ e c'] exec_members [of e c c']
    by (auto simp: cluster_inv_def cluster_step_def)
qed

lemma reach_rel:
  assumes "cluster_reach ms c"
  obtains a where "rel c a" "members c = ms"
  using cl.reach_inv [OF assms] by (auto simp: cluster_inv_def)

section \<open>Safety of the cluster\<close>

text \<open>
  C1: the cluster refines the abstract protocol: for every state that regular steps reach
  there is a reachable state of the protocol with the same terms, logs, candidates and
  leaders, and with the same history of elections.
\<close>

theorem cluster_refines_spec:
  assumes "cluster_reach ms c"
  shows "\<exists>a. spec_reachable (majority_of ms) a \<and>
    (\<forall>n \<in> set ms. s_term a n = current_term (node c n) \<and> s_log a n = rlog (node c n) \<and>
       s_cand a n = (role (node c n) = CANDIDATE) \<and> s_lead a n = (role (node c n) = LEADER)) \<and>
    (\<forall>t n. s_leader a t = Some n \<longleftrightarrow> (t, n) \<in> elected c)"
proof -
  obtain a where R: "rel c a" "members c = ms" using reach_rel [OF assms] .
  have "s_term a n = current_term (node c n) \<and> s_log a n = rlog (node c n) \<and>
      s_cand a n = (role (node c n) = CANDIDATE) \<and> s_lead a n = (role (node c n) = LEADER)"
    if "n \<in> set ms" for n
    using node_relD(3-6) [OF relD(4) [OF R(1)]] that R(2) by simp
  with relD(1,3) [OF R(1)] R(2) show ?thesis by (intro exI [of _ a]) simp
qed

theorem cluster_refines_spec_witness:
  "\<exists>a. spec_reachable (majority_of [1, 2, 3]) a \<and>
     (\<forall>n \<in> set [1, 2, 3]. s_term a n = current_term (node (final apply_run three_nodes) n) \<and>
        s_log a n = rlog (node (final apply_run three_nodes) n) \<and>
        s_cand a n = (role (node (final apply_run three_nodes) n) = CANDIDATE) \<and>
        s_lead a n = (role (node (final apply_run three_nodes) n) = LEADER)) \<and>
     (\<forall>t n. s_leader a t = Some n \<longleftrightarrow> (t, n) \<in> elected (final apply_run three_nodes))"
  by (rule cluster_refines_spec [OF apply_reach])

lemma lead_elected:
  assumes "rel c a" "n \<in> set (members c)" "role (node c n) = LEADER"
  shows "s_leader a (current_term (node c n)) = Some n" "s_llog a (current_term (node c n)) = rlog (node c n)"
  using leader_inv_lead [OF rel_invD(2) [OF assms(1)], of n] node_relD(3,4,6) [OF relD(4) [OF assms(1,2)]]
    assms(3) by simp_all









lemma results_agree:
  assumes "cluster_reach ms c" "n \<in> set ms" "m \<in> set ms"
    and "r \<in> set (ready_out (node c n))" "r' \<in> set (ready_out (node c m))" "ar_index r = ar_index r'"
  shows "r = r'"
proof -
  obtain a where R: "rel c a" "members c = ms" using reach_rel [OF assms(1)] .
  have o: "out_ok ms a (current_term (node c k)) x" if "k \<in> set ms" "x \<in> set (ready_out (node c k))" for k x
    using node_relD(15) [OF relD(4) [OF R(1)], of k x] that R(2) by simp
  obtain l where l: "known (majority_of ms) a (current_term (node c n)) l (ar_index r)"
    "ar_data r = e_command (l ! (ar_index r - 1))" "ar_valid r" "0 < ar_index r"
    using o [OF assms(2,4)] by (auto simp: out_ok_def)
  obtain l' where l': "known (majority_of ms) a (current_term (node c m)) l' (ar_index r)"
    "ar_data r' = e_command (l' ! (ar_index r - 1))" "ar_valid r'"
    using o [OF assms(3,5)] assms(6) by (auto simp: out_ok_def)
  from maj.known_unique [OF rel_inv [OF R(1), unfolded R(2)] l(1) l'(1)] l(4)
  have "l ! (ar_index r - 1) = l' ! (ar_index r - 1)"
    using agree_nth [of "ar_index r" l l' "ar_index r - 1"] by simp
  with l l' assms(6) show ?thesis by simp
qed

lemma results_valid:
  assumes "cluster_reach ms c" "n \<in> set ms" "r \<in> set (ready_out (node c n))"
  shows "ar_valid r"
proof -
  obtain a where R: "rel c a" "members c = ms" using reach_rel [OF assms(1)] .
  from node_relD(15) [OF relD(4) [OF R(1)], of n r] assms(2,3) R(2) show ?thesis by (auto simp: out_ok_def)
qed



section \<open>No undefined behaviour\<close>

lemma do_hb_build_defined:
  assumes "rel c a" "v \<in> set (members c)"
  shows "do_hb_build v c \<noteq> Undefined"
proof (cases "\<exists>ret. pc c v = HbBuild ret")
  case True
  then obtain ret where p: "pc c v = HbBuild ret" by blast
  have "hb_build (node c v) \<noteq> None"
  proof (cases "role (node c v) = LEADER")
    case lead: True
    have "next_ok (node c v)"
      using pc_rel_lead [OF relD(5) [OF assms] lead] p by (simp add: lead_rel_def)
    then obtain rs n where "hb_build (node c v) = Some (Some rs, (node c v)\<lparr>nextIndex := n\<rparr>)"
      by (rule hb_build_ok [OF _ lead])
    then show ?thesis by simp
  qed (simp add: hb_build_not_leader)
  with p show ?thesis by (auto simp: do_hb_build_def split: option.splits)
qed (auto simp: do_hb_build_def split: run_pc.splits)

lemma do_hb_finish_defined:
  assumes "rel c a" "v \<in> set (members c)"
  shows "do_hb_finish v now d outs c \<noteq> Undefined"
proof (cases "\<exists>ret reqs. pc c v = HbCalls ret reqs \<and> answered v reqs outs c")
  case True
  then obtain ret reqs where p: "pc c v = HbCalls ret reqs" "answered v reqs outs c" by blast
  obtain rs s' b where "hb_finish now d (map2 peer_result reqs outs) (node c v) = Some (rs, s')"
    using rel_hb_finish [OF assms p] .
  with p show ?thesis by (simp add: do_hb_finish_def)
qed (auto simp: do_hb_finish_def split: run_pc.splits)

lemma handle_append_entries_total:
  assumes "node_ok s"
  shows "handle_append_entries d req s \<noteq> None"
proof -
  consider "ae_term req < current_term s" | "current_term s \<le> ae_term req" "\<not> prev_ok req (rlog s)"
    | "current_term s \<le> ae_term req" "prev_ok req (rlog s)" by linarith
  then show ?thesis
  proof cases
    case 3
    then obtain l where "handle_append_entries d req s =
        Some (\<lparr>aer_term = ae_term req, aer_success = True\<rparr>, ae_accepted d req l s)"
      by (rule handle_append_entries_accept [OF _ _ assms])
    then show ?thesis by simp
  qed (simp_all add: handle_append_entries_stale handle_append_entries_reject)
qed

lemma do_vote_term_defined:
  assumes "rel c a" "v \<in> set (members c)"
  shows "do_vote_term v c \<noteq> Undefined"
proof (cases "\<exists>votes p stub rest. pc c v = VoteNext votes ((p, stub) # rest)")
  case True
  then obtain votes p stub rest where p: "pc c v = VoteNext votes ((p, stub) # rest)" by blast
  from relD(5) [OF assms] p have "stub" by (simp add: pc_rel_def tally_ok_def)
  with p show ?thesis by (simp add: do_vote_term_def)
qed (auto simp: do_vote_term_def split: run_pc.splits list.splits)



section \<open>Progress of terms and commit indices\<close>

lemma serve_append_commit:
  assumes R: "rel c a" and v: "v \<in> set (members c)" and step: "serve_append f v req d c = Next c'"
  shows "commit_index (node c v) \<le> commit_index (node c' v)"
proof -
  from step obtain rep s' where call: "(f, v, req) \<in> ae_calls c"
    and h: "handle_append_entries d req (node c v) = Some (rep, s')" and n: "node c' v = s'"
    by (auto simp: serve_append_def split: if_splits option.splits)
  from msg_relD(3) [OF relD(6) [OF R] call]
  have lc: "ae_leaderCommit req \<le> ae_prevLogIndex req + length (ae_entries req)"
    by (simp add: ae_req_ok_def Let_def)
  from h rel_node_ok [OF R v] show ?thesis
  proof (cases rule: handle_append_entries_cases)
    case (accept l)
    with append_spec_length [OF accept(3)] lc n show ?thesis by (auto simp: new_commit_def)
  qed (simp_all add: n)
qed

lemma hb_finish_commit:
  assumes "hb_finish now d results s = Some (rs, s')"
  shows "commit_index s \<le> commit_index s'"
proof -
  have res: "case hb_results d results 1 s of
      Inl s1 \<Rightarrow> \<exists>s0 r. commit_index s0 = commit_index s \<and> r \<in> set results \<and>
        current_term s0 < aer_term (res_reply r) \<and> s1 = hb_step_down d (aer_term (res_reply r)) s0
    | Inr (k', s1) \<Rightarrow> commit_index s1 = commit_index s"
    by (rule hb_results_inv) (simp_all add: hb_success_def hb_failure_def Let_def)
  have lease: "hb_lease now d k x = Some y \<Longrightarrow> commit_index y = commit_index x" for k x y
    by (auto simp: hb_lease_def Let_def split: if_splits)
  from assms res show ?thesis
    by (auto simp: hb_finish_def Let_def hb_step_down_def dest!: lease
        split: if_splits sum.splits option.splits) (metis commit_scan_mono)
qed

lemma hb_build_loop_commit:
  "hb_build_loop ps s = Some (rs, s') \<Longrightarrow> commit_index s' = commit_index s"
proof (induction ps arbitrary: s rs)
  case (Cons x ps)
  obtain p stub where x: "x = (p, stub)" by force
  show ?case
  proof (cases stub)
    case False
    with Cons show ?thesis by (simp add: x)
  next
    case True
    with Cons.prems obtain rs' where "hb_build_loop ps (hb_next p s) = Some (rs', s')"
      by (auto simp: x Let_def split: if_splits option.splits)
    from Cons.IH [OF this] show ?thesis by simp
  qed
qed simp

lemma exec_commit_mono:
  assumes R: "rel c a" and x: "exec e c = Next c'"
  shows "commit_index (node c n) \<le> commit_index (node c' n)"
proof -
  from x have v: "actor e \<in> set (members c)" and e: "exec_at e c = Next c'"
    by (auto simp: exec_def split: if_splits)
  show ?thesis
  proof (cases e)
    case (ServeAppend f m req d)
    with e v serve_append_commit [OF R, of m f req d c'] show ?thesis
      by (cases "n = m") (auto simp: serve_append_def split: if_splits option.splits)
  next
    case (HeartbeatFinish m t d outs)
    with e show ?thesis
      by (auto simp: do_hb_finish_def dest: hb_finish_commit split: run_pc.splits if_splits option.splits)
  next
    case (HeartbeatBuild m)
    with e show ?thesis
      by (auto simp: do_hb_build_def hb_build_def dest!: hb_build_loop_commit
          split: run_pc.splits if_splits option.splits)
  next
    case (ServeVote f m req d1 d2)
    with e show ?thesis
      by (auto simp: serve_vote_def handle_request_vote_def Let_def split: if_splits)
  qed (use e in \<open>auto simp: step_defs Let_def run_top_def election_check_def stale_term_def
        election_result_def apply_result_def propose_def kill_def
      split: if_splits run_pc.splits prod.splits list.splits\<close>)
qed



end
