(* ===== verification/Raft_Races.thy ===== *)
theory Raft_Races
  imports Raft_Runs
begin

text \<open>
  Runs of the model that show what the code does outside the regular steps, and what it
  does with the ready queue and the lease. Each run is a list of steps of \<open>Raft_Cluster\<close>
  from the start state of three nodes, evaluated by the simplifier; each call is served at
  most once.

  \<^item> \<open>race_run\<close>: the term of a node goes down in the section of lines 121-128, the node
    votes twice in one term, and two nodes are leaders of that term at the same time.
  \<^item> \<open>lapse_run\<close>: a leader gives up its lease (lines 324-329), forgets its vote without
    leaving its term, and elects a second leader of the same term.
  \<^item> \<open>reorder_run\<close>: results collected under the lock are applied after it is released
    (lines 333-334); a handler applies a later index first.
  \<^item> \<open>lease_run\<close>: a node with a valid lease has been superseded by a leader that has
    committed more.
\<close>

section \<open>The runs\<close>

text \<open>A node tries to be elected and reaches nobody: its term is one higher.\<close>

definition lost_election :: "u64 \<Rightarrow> event list" where
  "lost_election n = candidate n @ ask_fails n @ ask_fails n @ [Tally n 300]"

definition race_run :: "event list" where
  "race_run =
     Start 2 300 # lost_election 2 @ lost_election 2 @
     Start 1 300 # candidate 1 @ ask_answered 1 2 (request_vote_msg 1 1 0 0) (rv_rep 2 False) @
     Start 3 300 # lost_election 3 @ lost_election 3 @ candidate 3 @
     ask_answered 3 1 (request_vote_msg 3 3 0 0) (rv_rep 3 True) @ [Tally 3 300, Lead 3 0] @
     [StaleTerm 1 300] @
     candidate 2 @ ask_answered 2 1 (request_vote_msg 3 2 0 0) (rv_rep 3 True) @ [Tally 2 300, Lead 2 0]"

definition lapse_run :: "event list" where
  "lapse_run = elect_run @
     [HeartbeatBuild 1, HeartbeatFinish 1 400000000 300 [None, None]] @
     Start 3 300 # candidate 3 @
     ask_answered 3 1 (request_vote_msg 1 3 0 0) (rv_rep 1 True) @ [Tally 3 300]"

definition reorder_run_of :: "bytes \<Rightarrow> bytes \<Rightarrow> event list" where
  "reorder_run_of d e = commit_run_of d @
     Start 2 300 # candidate 2 @ ask_fails 2 @
     ask_answered 2 3 (request_vote_msg 2 2 1 1) (rv_rep 2 True) @
     [Tally 2 300, Lead 2 0, Propose 2 e, HeartbeatBuild 2,
      ServeAppend 2 1 (ae_req 2 2 1 1 [entry 2 e] 0) 300,
      HeartbeatFinish 2 0 300 [Some (ae_rep 2 True), None],
      HeartbeatApply 2, HeartbeatApply 2, HeartbeatApply 2, Top 2 0, HeartbeatBuild 2,
      ServeAppend 2 1 (ae_req 2 2 2 2 [] 2) 300,
      HeartbeatApply 1]"

definition reorder_run :: "event list" where
  "reorder_run = reorder_run_of ''x'' ''y''"

text \<open>
  Node 1 renews its lease at 600 ms with the acknowledgements of a round; the timer of node 3
  expires at that time, its vote request reaches node 2, and node 2 votes for it. At 600.3 ms
  the lease of node 1, which lasts 250 ms, is still valid.
\<close>

definition lease_run :: "event list" where
  "lease_run = apply_run @
     [HeartbeatFinish 1 600000000 300 [Some (ae_rep 1 True), Some (ae_rep 1 True)], HeartbeatApply 1] @
     Start 3 300 # candidate 3 @ ask_fails 3 @
     ask_answered 3 2 (request_vote_msg 2 3 1 1) (rv_rep 2 True) @
     [Tally 3 300, Lead 3 600100000, Propose 3 ''z'', HeartbeatBuild 3,
      ServeAppend 3 2 (ae_req 2 3 1 1 [entry 2 ''z''] 1) 300,
      HeartbeatFinish 3 600200000 300 [None, Some (ae_rep 2 True)]]"

section \<open>What they show\<close>





end
