(* ===== verification/Kv_Codec.thy ===== *)
theory Kv_Codec
  imports Prelude
begin

text \<open>
  The encoding of key-value commands in the Raft log: \<open>serialize\<close> and \<open>deserialize\<close> of
  \<open>src/inc/kv/kv_server.hpp\<close>. A command is one byte for the operation, the client id and
  the sequence number (8 bytes each), and key and value, each after its 32-bit length.
  Integers are copied with \<open>memcpy\<close>, so their bytes are in host order; the model has
  them little-endian. The reader is a cursor over the remaining bytes, and \<open>None\<close> is its
  \<open>return false\<close>.

  Shown: the round trip for keys and values shorter than \<open>2 ^ 32\<close>, that the cursor never
  reads past the end, that distinct commands have distinct encodings, and what happens to a
  longer key.
\<close>

section \<open>Definitions\<close>

datatype OpType = PUT | GET | APPEND

definition op_byte :: "OpType \<Rightarrow> nat" where
  "op_byte op = (case op of PUT \<Rightarrow> 0 | GET \<Rightarrow> 1 | APPEND \<Rightarrow> 2)"

text \<open>The bytes that \<open>memcpy\<close> copies of a \<open>w\<close>-byte unsigned integer, and back.\<close>

fun put_le :: "nat \<Rightarrow> nat \<Rightarrow> bytes" where
  "put_le 0 n = []"
| "put_le (Suc w) n = char_of (n mod 256) # put_le w (n div 256)"

fun get_le :: "bytes \<Rightarrow> nat" where
  "get_le [] = 0"
| "get_le (c # cs) = of_char c + 256 * get_le cs"

definition serialize :: "OpType \<Rightarrow> u64 \<Rightarrow> u64 \<Rightarrow> bytes \<Rightarrow> bytes \<Rightarrow> bytes" where
  "serialize op client_id seq_num key val =
     (let klen = length key mod 2 ^ 32; vlen = length val mod 2 ^ 32
      in char_of (op_byte op) # put_le 8 client_id @ put_le 8 seq_num @
         put_le 4 klen @ take klen key @ put_le 4 vlen @ take vlen val)"

definition op_of_byte :: "nat \<Rightarrow> OpType option" where
  "op_of_byte b = (if b > 2 then None else Some (if b = 0 then PUT else if b = 1 then GET else APPEND))"

definition HDR :: nat where
  "HDR = 1 + 8 + 8 + 4 + 4"

definition deserialize :: "bytes \<Rightarrow> (OpType \<times> u64 \<times> u64 \<times> bytes \<times> bytes) option" where
  "deserialize data =
     (if length data < HDR then None
      else case op_of_byte (of_char (hd data)) of
          None \<Rightarrow> None
        | Some op \<Rightarrow>
            let p1 = drop 1 data;
                client_id = get_le (take 8 p1); p2 = drop 8 p1;
                seq_num = get_le (take 8 p2); p3 = drop 8 p2;
                klen = get_le (take 4 p3); p4 = drop 4 p3
            in if klen + 4 > length p4 then None
               else
                 let key = take klen p4; p5 = drop klen p4;
                     vlen = get_le (take 4 p5); p6 = drop 4 p5
                 in if vlen > length p6 then None
                    else Some (op, client_id, seq_num, key, take vlen p6))"

section \<open>Integers\<close>

lemma length_put_le [simp]: "length (put_le w n) = w"
  by (induction w n rule: put_le.induct) auto

lemma get_put_le: "n < 256 ^ w \<Longrightarrow> get_le (put_le w n) = n"
proof (induction w n rule: put_le.induct)
  case (2 w n)
  then have "n div 256 < 256 ^ w" by (simp add: less_mult_imp_div_less mult.commute)
  with 2 show ?case by simp
qed simp

lemma get_le_bound: "get_le cs < 256 ^ length cs"
proof (induction cs)
  case (Cons c cs)
  define N :: nat where "N = 256 ^ length cs"
  define x :: nat where "x = of_char c"
  have "get_le cs < N" "x < 256" using Cons by (simp_all add: N_def x_def)
  then have "x + 256 * get_le cs < 256 * N" by linarith
  then show ?case by (simp add: N_def x_def)
qed simp

lemma get_put_le8: "n < 2 ^ 64 \<Longrightarrow> get_le (put_le 8 n) = n"
  by (rule get_put_le) simp

lemma get_put_le4: "n < 2 ^ 32 \<Longrightarrow> get_le (put_le 4 n) = n"
  by (rule get_put_le) simp

lemma op_of_byte_op: "op_of_byte (op_byte op) = Some op"
  by (cases op) (simp_all add: op_of_byte_def op_byte_def)

lemma op_byte_small: "op_byte op mod 256 = op_byte op"
  by (cases op) (simp_all add: op_byte_def)

section \<open>The round trip\<close>

text \<open>What comes back of any command: key and value cut to their 32-bit lengths.\<close>

lemma deserialize_serialize_gen:
  assumes "client_id < 2 ^ 64" "seq_num < 2 ^ 64"
  shows "deserialize (serialize op client_id seq_num key val @ rest) =
    Some (op, client_id, seq_num, take (length key mod 2 ^ 32) key, take (length val mod 2 ^ 32) val)"
proof -
  define kl where "kl = length key mod 2 ^ 32"
  define vl where "vl = length val mod 2 ^ 32"
  have b: "kl < 2 ^ 32" "vl < 2 ^ 32" "kl \<le> length key" "vl \<le> length val"
    by (simp_all add: kl_def vl_def)
  let ?d = "serialize op client_id seq_num key val @ rest"
  have d: "?d = char_of (op_byte op) # put_le 8 client_id @ put_le 8 seq_num @
      put_le 4 kl @ take kl key @ put_le 4 vl @ take vl val @ rest"
    by (simp add: serialize_def kl_def vl_def Let_def)
  have "length ?d \<ge> HDR" unfolding d by (simp add: HDR_def)
  then show ?thesis
    unfolding deserialize_def d using b assms
    by (simp add: op_byte_small op_of_byte_op get_put_le8 get_put_le4 min_absorb2)
      (simp add: kl_def vl_def)
qed

text \<open>
  C19: round trip: a command whose key and value are shorter than \<open>2 ^ 32\<close> bytes is read
  back as it was written, whatever bytes follow it.
\<close>

theorem deserialize_serialize:
  assumes "client_id < 2 ^ 64" "seq_num < 2 ^ 64" "length key < 2 ^ 32" "length val < 2 ^ 32"
  shows "deserialize (serialize op client_id seq_num key val @ rest) =
    Some (op, client_id, seq_num, key, val)"
  using deserialize_serialize_gen [OF assms(1,2), of op key val rest] assms(3,4) by simp

theorem deserialize_serialize_witness:
  "deserialize (serialize APPEND 77 3 ''k'' ''vw'' @ ''!'') = Some (APPEND, 77, 3, ''k'', ''vw'')"
  by (rule deserialize_serialize) simp_all

text \<open>
  A key of \<open>2 ^ 32\<close> bytes or more is silently cut: its length is taken modulo
  \<open>2 ^ 32\<close>, so a key of exactly \<open>2 ^ 32\<close> bytes is stored under the empty key.
\<close>

lemma long_key_is_cut:
  assumes "client_id < 2 ^ 64" "seq_num < 2 ^ 64" "length key = 2 ^ 32" "length val < 2 ^ 32"
  shows "deserialize (serialize op client_id seq_num key val) = Some (op, client_id, seq_num, [], val)"
  using deserialize_serialize_gen [OF assms(1,2), of op key val "[]"] assms(3,4) by simp

text \<open>
  A reader never invents data: whatever bytes it is given, the key and the value it
  returns are consecutive pieces of them after the header, and both ids fit in 64 bits.
\<close>

lemma deserialize_within_bounds:
  assumes "deserialize data = Some (op, client_id, seq_num, key, val)"
  shows "HDR + length key + length val \<le> length data \<and> client_id < 2 ^ 64 \<and> seq_num < 2 ^ 64 \<and>
    take (length key) (drop 21 data) = key \<and> take (length val) (drop (25 + length key) data) = val"
proof -
  have le8: "get_le (take 8 p) < 2 ^ 64" for p
  proof -
    have "get_le (take 8 p) < 256 ^ length (take 8 p)" by (rule get_le_bound)
    also have "\<dots> \<le> 256 ^ 8" by (rule power_increasing) auto
    finally show ?thesis by simp
  qed
  from assms show ?thesis
    by (auto simp: deserialize_def HDR_def Let_def le8 [simplified] add.commute split: if_splits option.splits)
qed

lemma deserialize_within_bounds_witness:
  "HDR + length ''k'' + length ''v'' \<le> length (serialize PUT 1 2 ''k'' ''v'')"
proof -
  have "deserialize (serialize PUT 1 2 ''k'' ''v'') = Some (PUT, 1, 2, ''k'', ''v'')"
    using deserialize_serialize_gen [of 1 2 PUT "''k''" "''v''" "[]"] by simp
  from deserialize_within_bounds [OF this] show ?thesis by blast
qed

lemma serialize_inj:
  assumes "serialize op c s k v = serialize op' c' s' k' v'"
    and "c < 2 ^ 64" "s < 2 ^ 64" "length k < 2 ^ 32" "length v < 2 ^ 32"
    and "c' < 2 ^ 64" "s' < 2 ^ 64" "length k' < 2 ^ 32" "length v' < 2 ^ 32"
  shows "op = op' \<and> c = c' \<and> s = s' \<and> k = k' \<and> v = v'"
  using deserialize_serialize_gen [OF assms(2,3), of op k v "[]"]
    deserialize_serialize_gen [OF assms(6,7), of op' k' v' "[]"] assms by simp

end
