(* ===== verification/Kv_Server.thy ===== *)
theory Kv_Server
  imports Kv_Codec Raft_Node "HOL-Library.Code_Target_Numeral"
begin

text \<open>
  The key-value server of \<open>src/inc/kv/kv_server.hpp\<close>: the store, the reply cache that makes
  retries harmless (one entry per client, \<open>rifl\<close>), and the table of RPC threads that wait
  for their log entry to be applied (\<open>pending\<close>).

  \<open>on_apply\<close> is the composition of its critical sections (\<open>find_dup\<close>, \<open>apply_store\<close>,
  \<open>apply_finish\<close>) and of the \<open>set_value\<close> after them; in \<open>kv_exec\<close> the applier thread
  runs one section at a time (\<open>apply_begin\<close>, \<open>apply_next\<close>), between the steps of the
  RPC threads. A \<open>std::promise\<close> is a number; \<open>promises\<close> gives what its future will
  see: nothing yet, a value, or a broken promise when the entry was overwritten or erased.
  The RPC handlers \<open>Put\<close>, \<open>Get\<close> and \<open>Append\<close> are small state machines (\<open>kv_exec\<close>):
  propose, register, then wait for the value, the timeout or a broken promise. The Raft
  node is the one of \<open>Raft_Node\<close>; between its steps it may change in any way.
\<close>

section \<open>State\<close>

datatype KvStatus = KV_SUCCESS | KV_NOTLEADER | KV_TIMEOUT

record CachedReply =
  cr_seq_num :: u64
  cr_status :: KvStatus
  cr_value :: bytes

record PendingOp =
  po_client_id :: u64
  po_seq_num :: u64
  po_promise :: nat

datatype promise = Waiting_promise | Value KvStatus bytes | Broken

record KvServer =
  store :: "(bytes, bytes) umap"
  rifl :: "(u64, CachedReply) umap"
  pending :: "(u64, PendingOp) umap"
  last_kv_applied :: u64
  promises :: "nat \<Rightarrow> promise"
  next_promise :: nat

definition kv_new :: KvServer where
  "kv_new = \<lparr>store = [], rifl = [], pending = [], last_kv_applied = 0,
     promises = (\<lambda>_. Waiting_promise), next_promise = 0\<rparr>"

section \<open>Applying committed entries\<close>

text \<open>
  First section: whether the client's sequence number is not new, with the cached reply. The
  reply of a command that is executed starts as success with an empty value.
\<close>

definition find_dup :: "u64 \<Rightarrow> u64 \<Rightarrow> KvServer \<Rightarrow> bool \<times> KvStatus \<times> bytes" where
  "find_dup client_id seq_num s =
     (case map_of (rifl s) client_id of
        None \<Rightarrow> (False, KV_SUCCESS, [])
      | Some r \<Rightarrow>
          if cr_seq_num r \<ge> seq_num then (True, cr_status r, cr_value r)
          else (False, KV_SUCCESS, []))"

definition store_get :: "bytes \<Rightarrow> (bytes, bytes) umap \<Rightarrow> bytes" where
  "store_get key st = (case map_of st key of None \<Rightarrow> [] | Some v \<Rightarrow> v)"

text \<open>Second section: the operation on the store, and the value it replies.\<close>

definition exec_op :: "OpType \<Rightarrow> bytes \<Rightarrow> bytes \<Rightarrow> (bytes, bytes) umap \<Rightarrow> bytes \<times> (bytes, bytes) umap" where
  "exec_op op key value st =
     (case op of
        PUT \<Rightarrow> ([], AList.update key value st)
      | GET \<Rightarrow> (store_get key st, st)
      | APPEND \<Rightarrow> ([], AList.update key (store_get key st @ value) st))"

definition apply_store ::
  "bool \<Rightarrow> OpType \<Rightarrow> bytes \<Rightarrow> bytes \<Rightarrow> bytes \<Rightarrow> KvServer \<Rightarrow> bytes \<times> KvServer" where
  "apply_store is_dup op key value reply_value s =
     (if is_dup then (reply_value, s)
      else case exec_op op key value (store s) of (v, st) \<Rightarrow> (v, s\<lparr>store := st\<rparr>))"

text \<open>
  Third section: the reply cache, and the waiter at the applied index. It gets the reply
  when the entry is its own, and a timeout when another command was committed there. The
  promise is moved out of the table and set after the lock is released.
\<close>

definition fulfill_val :: "PendingOp \<Rightarrow> u64 \<Rightarrow> u64 \<Rightarrow> KvStatus \<Rightarrow> bytes \<Rightarrow> promise" where
  "fulfill_val w client_id seq_num status value =
     (if po_client_id w = client_id \<and> po_seq_num w = seq_num then Value status value
      else Value KV_TIMEOUT [])"

definition apply_finish ::
  "bool \<Rightarrow> u64 \<Rightarrow> u64 \<Rightarrow> u64 \<Rightarrow> KvStatus \<Rightarrow> bytes \<Rightarrow> KvServer \<Rightarrow> (nat \<times> promise) option \<times> KvServer" where
  "apply_finish is_dup index client_id seq_num status reply_value s =
     (let s1 = (if is_dup then s
                else s\<lparr>rifl := AList.update client_id
                         \<lparr>cr_seq_num = seq_num, cr_status = status, cr_value = reply_value\<rparr> (rifl s)\<rparr>);
          s2 = s1\<lparr>last_kv_applied := index\<rparr>
      in case map_of (pending s2) index of
           None \<Rightarrow> (None, s2)
         | Some w \<Rightarrow>
             (Some (po_promise w, fulfill_val w client_id seq_num status reply_value),
              s2\<lparr>pending := AList.delete index (pending s2)\<rparr>))"

definition set_value :: "(nat \<times> promise) option \<Rightarrow> KvServer \<Rightarrow> KvServer" where
  "set_value f s = (case f of None \<Rightarrow> s | Some (p, v) \<Rightarrow> s\<lparr>promises := (promises s)(p := v)\<rparr>)"

text \<open>The same for an entry that does not decode, in one section.\<close>

definition notify_waiter_state_locked ::
  "u64 \<Rightarrow> u64 \<Rightarrow> u64 \<Rightarrow> KvStatus \<Rightarrow> bytes \<Rightarrow> KvServer \<Rightarrow> KvServer" where
  "notify_waiter_state_locked index applied_client_id applied_seq_num status value s =
     (case map_of (pending s) index of
        None \<Rightarrow> s
      | Some w \<Rightarrow>
          s\<lparr>promises := (promises s)(po_promise w :=
               fulfill_val w applied_client_id applied_seq_num status value),
            pending := AList.delete index (pending s)\<rparr>)"

text \<open>The whole of \<open>on_apply\<close>, when nothing runs between its sections.\<close>

definition on_apply :: "ApplyResult \<Rightarrow> KvServer \<Rightarrow> KvServer" where
  "on_apply result s =
     (if \<not> ar_valid result then s
      else case deserialize (ar_data result) of
          None \<Rightarrow> notify_waiter_state_locked (ar_index result) 0 0 KV_TIMEOUT [] s
        | Some (op, client_id, seq_num, key, value) \<Rightarrow>
            (case find_dup client_id seq_num s of
               (is_dup, status, cached) \<Rightarrow>
            case apply_store is_dup op key value cached s of
               (reply_value, s1) \<Rightarrow>
            case apply_finish is_dup (ar_index result) client_id seq_num status reply_value s1 of
               (f, s2) \<Rightarrow> set_value f s2))"

section \<open>Serving clients\<close>

text \<open>Registering the waiter: an entry that is already there is destroyed with its promise.\<close>

definition break_pending :: "u64 \<Rightarrow> KvServer \<Rightarrow> KvServer" where
  "break_pending index s =
     (case map_of (pending s) index of
        None \<Rightarrow> s
      | Some w \<Rightarrow> s\<lparr>promises := (promises s)(po_promise w := Broken)\<rparr>)"

definition register :: "u64 \<Rightarrow> u64 \<Rightarrow> u64 \<Rightarrow> KvServer \<Rightarrow> nat \<times> KvServer" where
  "register index client_id seq_num s =
     (let p = next_promise s; s1 = break_pending index s
      in (p, s1\<lparr>pending := AList.update index
                   \<lparr>po_client_id = client_id, po_seq_num = seq_num, po_promise = p\<rparr> (pending s1),
                next_promise := p + 1\<rparr>))"

text \<open>After the five seconds: whatever waits at the index is erased.\<close>

definition erase_pending :: "u64 \<Rightarrow> KvServer \<Rightarrow> KvServer" where
  "erase_pending index s =
     (break_pending index s)\<lparr>pending := AList.delete index (pending s)\<rparr>"

definition try_leader_read :: "int \<Rightarrow> bytes \<Rightarrow> Raft \<Rightarrow> KvServer \<Rightarrow> bytes option" where
  "try_leader_read now key r s =
     (case get_lease_state now r of
        (has_lease, commit_idx) \<Rightarrow> if has_lease then Some (store_get key (store s)) else None)"

datatype kv_thread =
    KvIdle
  | KvProposed u64 u64 u64
  | KvWaiting u64 u64 u64 nat
  | KvDone KvStatus bytes
  | KvThrown

text \<open>Where the applier thread is in \<open>on_apply\<close>, with its local variables.\<close>

datatype apply_pc =
    ApIdle
  | ApLooked u64 OpType u64 u64 bytes bytes bool KvStatus bytes
  | ApStored u64 u64 u64 bool KvStatus bytes
  | ApSet "(nat \<times> promise) option"

text \<open>\<open>applied\<close> is a history of the results handed to \<open>on_apply\<close>.\<close>

record kv_sys =
  raft :: Raft
  kv :: KvServer
  kt :: "nat \<Rightarrow> kv_thread"
  ap :: apply_pc
  applied :: "ApplyResult list"

text \<open>The first section of \<open>propose_and_wait\<close>: the proposal.\<close>

definition propose_and_wait :: "nat \<Rightarrow> bytes \<Rightarrow> u64 \<Rightarrow> u64 \<Rightarrow> kv_sys \<Rightarrow> kv_sys" where
  "propose_and_wait t data client_id seq_num x =
     (case propose data (raft x) of
        (pr, r) \<Rightarrow>
          x\<lparr>raft := r,
            kt := (kt x)(t := (if pr_is_leader pr then KvProposed (pr_index pr) client_id seq_num
                               else KvDone KV_NOTLEADER []))\<rparr>)"

definition Put :: "nat \<Rightarrow> u64 \<Rightarrow> u64 \<Rightarrow> bytes \<Rightarrow> bytes \<Rightarrow> kv_sys \<Rightarrow> kv_sys" where
  "Put t client_id seq_num key val x =
     propose_and_wait t (serialize PUT client_id seq_num key val) client_id seq_num x"

definition Get :: "nat \<Rightarrow> int \<Rightarrow> u64 \<Rightarrow> u64 \<Rightarrow> bytes \<Rightarrow> kv_sys \<Rightarrow> kv_sys" where
  "Get t now client_id seq_num key x =
     (case try_leader_read now key (raft x) (kv x) of
        Some v \<Rightarrow> x\<lparr>kt := (kt x)(t := KvDone KV_SUCCESS v)\<rparr>
      | None \<Rightarrow> propose_and_wait t (serialize GET client_id seq_num key []) client_id seq_num x)"

definition Append :: "nat \<Rightarrow> u64 \<Rightarrow> u64 \<Rightarrow> bytes \<Rightarrow> bytes \<Rightarrow> kv_sys \<Rightarrow> kv_sys" where
  "Append t client_id seq_num key val x =
     propose_and_wait t (serialize APPEND client_id seq_num key val) client_id seq_num x"

text \<open>
  The start of \<open>on_apply\<close> up to the end of its first section, and the sections after it.
\<close>

definition apply_begin :: "ApplyResult \<Rightarrow> KvServer \<Rightarrow> KvServer \<times> apply_pc" where
  "apply_begin result s =
     (if \<not> ar_valid result then (s, ApIdle)
      else case deserialize (ar_data result) of
          None \<Rightarrow> (notify_waiter_state_locked (ar_index result) 0 0 KV_TIMEOUT [] s, ApIdle)
        | Some (op, client_id, seq_num, key, value) \<Rightarrow>
            (case find_dup client_id seq_num s of
               (is_dup, status, cached) \<Rightarrow>
                 (s, ApLooked (ar_index result) op client_id seq_num key value is_dup status cached)))"

fun apply_next :: "apply_pc \<Rightarrow> KvServer \<Rightarrow> (KvServer \<times> apply_pc) option" where
  "apply_next ApIdle s = None"
| "apply_next (ApLooked index op cid seq key value is_dup status cached) s =
     (case apply_store is_dup op key value cached s of
        (reply_value, s1) \<Rightarrow> Some (s1, ApStored index cid seq is_dup status reply_value))"
| "apply_next (ApStored index cid seq is_dup status reply_value) s =
     (case apply_finish is_dup index cid seq status reply_value s of
        (f, s1) \<Rightarrow> Some (s1, ApSet f))"
| "apply_next (ApSet f) s = Some (set_value f s, ApIdle)"

datatype kv_event =
    KvPut nat u64 u64 bytes bytes
  | KvGet nat int u64 u64 bytes
  | KvAppend nat u64 u64 bytes bytes
  | KvRegister nat
  | KvCollect nat
  | KvTimeout nat
  | KvApply ApplyResult
  | KvApplyNext
  | KvRaft Raft

text \<open>
  \<open>KvCollect\<close> is \<open>fut.get()\<close>, which throws for a broken promise. \<open>KvTimeout\<close> is
  \<open>wait_for\<close> giving up on a future that is not ready.
\<close>

fun kv_exec :: "kv_event \<Rightarrow> kv_sys \<Rightarrow> kv_sys option" where
  "kv_exec (KvPut t cid seq key val) x =
     (if kt x t = KvIdle then Some (Put t cid seq key val x) else None)"
| "kv_exec (KvGet t now cid seq key) x =
     (if kt x t = KvIdle then Some (Get t now cid seq key x) else None)"
| "kv_exec (KvAppend t cid seq key val) x =
     (if kt x t = KvIdle then Some (Append t cid seq key val x) else None)"
| "kv_exec (KvRegister t) x =
     (case kt x t of
        KvProposed index cid seq \<Rightarrow>
          (case register index cid seq (kv x) of
             (p, s) \<Rightarrow> Some (x\<lparr>kv := s, kt := (kt x)(t := KvWaiting index cid seq p)\<rparr>))
      | _ \<Rightarrow> None)"
| "kv_exec (KvCollect t) x =
     (case kt x t of
        KvWaiting index cid seq p \<Rightarrow>
          (case promises (kv x) p of
             Waiting_promise \<Rightarrow> None
           | Value st v \<Rightarrow> Some (x\<lparr>kt := (kt x)(t := KvDone st v)\<rparr>)
           | Broken \<Rightarrow> Some (x\<lparr>kt := (kt x)(t := KvThrown)\<rparr>))
      | _ \<Rightarrow> None)"
| "kv_exec (KvTimeout t) x =
     (case kt x t of
        KvWaiting index cid seq p \<Rightarrow>
          (case promises (kv x) p of
             Waiting_promise \<Rightarrow>
               Some (x\<lparr>kv := erase_pending index (kv x), kt := (kt x)(t := KvDone KV_TIMEOUT [])\<rparr>)
           | _ \<Rightarrow> None)
      | _ \<Rightarrow> None)"
| "kv_exec (KvApply r) x =
     (if ap x = ApIdle
      then case apply_begin r (kv x) of
          (s, pc) \<Rightarrow> Some (x\<lparr>kv := s, ap := pc, applied := applied x @ [r]\<rparr>)
      else None)"
| "kv_exec KvApplyNext x =
     (case apply_next (ap x) (kv x) of
        None \<Rightarrow> None
      | Some (s, pc) \<Rightarrow> Some (x\<lparr>kv := s, ap := pc\<rparr>))"
| "kv_exec (KvRaft r) x = Some (x\<lparr>raft := r\<rparr>)"

definition kv_step :: "kv_sys \<Rightarrow> kv_event \<Rightarrow> kv_sys \<Rightarrow> bool" where
  "kv_step x e x' \<longleftrightarrow> kv_exec e x = Some x'"

definition kv_start :: "kv_sys \<Rightarrow> bool" where
  "kv_start x \<longleftrightarrow> kv x = kv_new \<and> (\<forall>t. kt x t = KvIdle) \<and> ap x = ApIdle \<and> applied x = []"

section \<open>Specification\<close>

text \<open>
  What the server promises: a map, and per client the last sequence number executed with
  its reply. A command with an old number changes nothing and is answered from there.
\<close>

type_synonym kv_cmd = "OpType \<times> u64 \<times> u64 \<times> bytes \<times> bytes"

record kv_spec =
  sp_store :: "bytes \<rightharpoonup> bytes"
  sp_seen :: "u64 \<rightharpoonup> CachedReply"

definition decode :: "ApplyResult \<Rightarrow> kv_cmd option" where
  "decode r = (if ar_valid r then deserialize (ar_data r) else None)"

definition spec_dup :: "u64 \<Rightarrow> u64 \<Rightarrow> kv_spec \<Rightarrow> CachedReply option" where
  "spec_dup cid seq sp =
     (case sp_seen sp cid of Some r \<Rightarrow> if seq \<le> cr_seq_num r then Some r else None | None \<Rightarrow> None)"

definition spec_lookup :: "bytes \<Rightarrow> (bytes \<rightharpoonup> bytes) \<Rightarrow> bytes" where
  "spec_lookup key m = (case m key of None \<Rightarrow> [] | Some v \<Rightarrow> v)"

fun spec_write :: "OpType \<Rightarrow> bytes \<Rightarrow> bytes \<Rightarrow> (bytes \<rightharpoonup> bytes) \<Rightarrow> (bytes \<rightharpoonup> bytes)" where
  "spec_write PUT key value m = m(key \<mapsto> value)"
| "spec_write GET key value m = m"
| "spec_write APPEND key value m = m(key \<mapsto> spec_lookup key m @ value)"

fun spec_reply :: "kv_cmd \<Rightarrow> kv_spec \<Rightarrow> bytes" where
  "spec_reply (op, cid, seq, key, value) sp =
     (case spec_dup cid seq sp of
        Some r \<Rightarrow> cr_value r
      | None \<Rightarrow> if op = GET then spec_lookup key (sp_store sp) else [])"

fun spec_apply :: "kv_cmd \<Rightarrow> kv_spec \<Rightarrow> kv_spec" where
  "spec_apply (op, cid, seq, key, value) sp =
     (case spec_dup cid seq sp of
        Some r \<Rightarrow> sp
      | None \<Rightarrow>
          \<lparr>sp_store = spec_write op key value (sp_store sp),
           sp_seen = (sp_seen sp)(cid \<mapsto>
             \<lparr>cr_seq_num = seq, cr_status = KV_SUCCESS,
              cr_value = spec_reply (op, cid, seq, key, value) sp\<rparr>)\<rparr>)"

definition spec_result :: "ApplyResult \<Rightarrow> kv_spec \<Rightarrow> kv_spec" where
  "spec_result r sp = (case decode r of None \<Rightarrow> sp | Some c \<Rightarrow> spec_apply c sp)"

definition replay :: "ApplyResult list \<Rightarrow> kv_spec" where
  "replay rs = fold spec_result rs \<lparr>sp_store = Map.empty, sp_seen = Map.empty\<rparr>"

definition absk :: "KvServer \<Rightarrow> kv_spec" where
  "absk s = \<lparr>sp_store = map_of (store s), sp_seen = map_of (rifl s)\<rparr>"

named_theorems absk_frame \<open>what leaves the store and the reply cache alone\<close>

section \<open>One entry\<close>

lemma absk_fields [simp]: "sp_store (absk s) = map_of (store s)" "sp_seen (absk s) = map_of (rifl s)"
  by (simp_all add: absk_def)

lemma absk_eqI: "store s = store s' \<Longrightarrow> rifl s = rifl s' \<Longrightarrow> absk s = absk s'"
  by (simp add: absk_def)

lemma find_dup_spec:
  "find_dup cid seq s =
     (case spec_dup cid seq (absk s) of
        Some r \<Rightarrow> (True, cr_status r, cr_value r) | None \<Rightarrow> (False, KV_SUCCESS, []))"
  by (simp add: find_dup_def spec_dup_def split: option.splits)

lemma exec_op_spec:
  "exec_op op key value st = (v, st') \<Longrightarrow>
     map_of st' = spec_write op key value (map_of st) \<and>
     v = (if op = GET then spec_lookup key (map_of st) else [])"
  by (cases op) (auto simp: exec_op_def store_get_def spec_lookup_def)

lemma notify_core [absk_frame]: "absk (notify_waiter_state_locked i c q st v s) = absk s"
  by (auto simp: notify_waiter_state_locked_def intro!: absk_eqI split: option.splits)

lemma set_value_core [absk_frame]: "absk (set_value f s) = absk s"
  by (auto simp: set_value_def intro!: absk_eqI split: option.splits)

lemma register_core [absk_frame]: "register i c q s = (p, s') \<Longrightarrow> absk s' = absk s"
  by (auto simp: register_def break_pending_def Let_def intro!: absk_eqI split: option.splits)

lemma erase_core [absk_frame]: "absk (erase_pending i s) = absk s"
  by (auto simp: erase_pending_def break_pending_def intro!: absk_eqI split: option.splits)

text \<open>The second and the third section together do one step of the specification.\<close>

lemma sections_spec:
  assumes "find_dup cid seq s0 = (dup, st, cached)" "absk s = absk s0"
    and "apply_store dup op key val cached s = (reply, s1)" "absk s1' = absk s1"
    and "apply_finish dup i cid seq st reply s1' = (f, s2)"
  shows "reply = spec_reply (op, cid, seq, key, val) (absk s)"
    and "absk s2 = spec_apply (op, cid, seq, key, val) (absk s)"
proof -
  have "spec_dup cid seq (absk s0) = spec_dup cid seq (absk s)" using assms(2) by simp
  note dup = assms(1) [unfolded find_dup_spec this]
  show "reply = spec_reply (op, cid, seq, key, val) (absk s)"
    using dup assms(3) exec_op_spec [of op key val "store s"]
    by (auto simp: apply_store_def split: option.splits prod.splits if_splits)
  moreover have "map_of (store s1) = (if dup then map_of (store s)
      else spec_write op key val (map_of (store s)))" "rifl s1 = rifl s"
    using assms(3) exec_op_spec [of op key val "store s"]
    by (auto simp: apply_store_def split: prod.splits if_splits)
  moreover have "map_of (store s2) = map_of (store s1')" "map_of (rifl s2) = (if dup then map_of (rifl s1')
      else (map_of (rifl s1'))(cid \<mapsto> \<lparr>cr_seq_num = seq, cr_status = st, cr_value = reply\<rparr>))"
    using assms(5) by (auto simp: apply_finish_def Let_def split: option.splits if_splits)
  moreover have "map_of (store s1') = map_of (store s1)" "map_of (rifl s1') = map_of (rifl s1)"
    using assms(4) by (simp_all add: absk_def)
  ultimately show "absk s2 = spec_apply (op, cid, seq, key, val) (absk s)"
    using dup by (auto simp: absk_def split: option.splits)
qed

lemma on_apply_spec: "absk (on_apply r s) = spec_result r (absk s)"
proof (cases "decode r")
  case None
  then show ?thesis
    by (auto simp: decode_def on_apply_def spec_result_def absk_frame split: if_splits)
next
  case (Some c)
  obtain op cid seq key val where c: "c = (op, cid, seq, key, val)"
    by (cases c)
  obtain dup st cached where d: "find_dup cid seq s = (dup, st, cached)" by (cases "find_dup cid seq s")
  obtain reply s1 where a: "apply_store dup op key val cached s = (reply, s1)" by fastforce
  obtain f s2 where g: "apply_finish dup (ar_index r) cid seq st reply s1 = (f, s2)" by fastforce
  have "on_apply r s = set_value f s2"
    using Some d a g by (auto simp: on_apply_def decode_def c split: if_splits)
  with sections_spec(2) [OF d refl a refl g] show ?thesis
    by (simp add: set_value_core spec_result_def Some c)
qed

lemma on_apply_replay: "absk (fold on_apply rs kv_new) = replay rs"
  by (induction rs rule: rev_induct)
     (simp_all add: replay_def on_apply_spec, simp add: absk_def kv_new_def)

lemma replay_snoc: "replay (rs @ [r]) = spec_result r (replay rs)"
  by (simp add: replay_def)

section \<open>The applier between the RPC threads\<close>

text \<open>
  What the sections of the applier have reached: the store and the cache are those of the
  replayed history, up to the command the applier is in.
\<close>

fun apply_at :: "apply_pc \<Rightarrow> ApplyResult list \<Rightarrow> KvServer \<Rightarrow> bool" where
  "apply_at ApIdle rs s \<longleftrightarrow> absk s = replay rs"
| "apply_at (ApLooked i op cid seq key val dup st cached) rs s \<longleftrightarrow>
     (\<exists>as r. rs = as @ [r] \<and> ar_index r = i \<and> decode r = Some (op, cid, seq, key, val) \<and>
        absk s = replay as \<and> find_dup cid seq s = (dup, st, cached))"
| "apply_at (ApStored i cid seq dup st reply) rs s \<longleftrightarrow>
     (\<exists>as r op key val s0 cached s1. rs = as @ [r] \<and> ar_index r = i \<and>
        decode r = Some (op, cid, seq, key, val) \<and> absk s0 = replay as \<and>
        find_dup cid seq s0 = (dup, st, cached) \<and>
        apply_store dup op key val cached s0 = (reply, s1) \<and> absk s = absk s1)"
| "apply_at (ApSet f) rs s \<longleftrightarrow> absk s = replay rs"

definition apply_ok :: "kv_sys \<Rightarrow> bool" where
  "apply_ok x \<longleftrightarrow> apply_at (ap x) (applied x) (kv x)"

lemma apply_at_frame: "apply_at pc rs s \<Longrightarrow> absk s' = absk s \<Longrightarrow> apply_at pc rs s'"
  by (cases pc) (auto simp: find_dup_spec)

lemma apply_begin_ok:
  assumes "absk s = replay rs" "apply_begin r s = (s', pc)"
  shows "apply_at pc (rs @ [r]) s'"
proof (cases "decode r")
  case None
  with assms show ?thesis
    by (auto simp: apply_begin_def decode_def replay_snoc spec_result_def absk_frame split: if_splits)
next
  case (Some c)
  with assms show ?thesis
    by (auto simp: apply_begin_def decode_def split: if_splits prod.splits)
qed

lemma apply_next_ok:
  assumes "apply_at pc rs s" "apply_next pc s = Some (s', pc')"
  shows "apply_at pc' rs s'"
proof (cases pc)
  case (ApLooked i op cid seq key val dup st cached)
  with assms show ?thesis by (auto split: prod.splits) blast
next
  case (ApStored i cid seq dup st reply)
  with assms(1) obtain as r op key val s0 cached s1 where
    h: "rs = as @ [r]" "decode r = Some (op, cid, seq, key, val)" "absk s0 = replay as"
       "find_dup cid seq s0 = (dup, st, cached)"
       "apply_store dup op key val cached s0 = (reply, s1)" "absk s = absk s1"
    by auto
  from assms(2) ApStored obtain f where f: "apply_finish dup i cid seq st reply s = (f, s')" "pc' = ApSet f"
    by (auto split: prod.splits)
  from sections_spec(2) [OF h(4) refl h(5) h(6) f(1)] h(1-3) f(2) show ?thesis
    by (simp add: replay_snoc spec_result_def)
qed (use assms in \<open>auto simp: absk_frame\<close>)

lemma propose_and_wait_fields [simp]:
  "kv (propose_and_wait t d c q x) = kv x" "ap (propose_and_wait t d c q x) = ap x"
  "applied (propose_and_wait t d c q x) = applied x"
  by (simp_all add: propose_and_wait_def split: prod.splits)

lemma Get_fields [simp]:
  "kv (Get t now c q k x) = kv x" "ap (Get t now c q k x) = ap x"
  "applied (Get t now c q k x) = applied x"
  by (simp_all add: Get_def split: option.splits)

lemma Put_Append_fields [simp]:
  "kv (Put t c q k v x) = kv x" "ap (Put t c q k v x) = ap x" "applied (Put t c q k v x) = applied x"
  "kv (Append t c q k v x) = kv x" "ap (Append t c q k v x) = ap x"
  "applied (Append t c q k v x) = applied x"
  by (simp_all add: Put_def Append_def)

text \<open>Every step but the two of the applier leaves the store and the cache alone.\<close>

lemma kv_step_frame:
  assumes "kv_step x e x'" "\<And>r. e \<noteq> KvApply r" "e \<noteq> KvApplyNext"
  shows "ap x' = ap x" "applied x' = applied x" "absk (kv x') = absk (kv x)"
  using assms
  by (cases e; auto simp: kv_step_def absk_frame split: if_splits kv_thread.splits promise.splits prod.splits
      dest: register_core)+

interpretation kva: transition_invariant kv_start kv_step apply_ok
proof
  fix x assume "kv_start x"
  then show "apply_ok x"
    by (simp add: kv_start_def apply_ok_def replay_def absk_def kv_new_def)
next
  fix x e x' assume ok: "apply_ok x" and step: "kv_step x e x'"
  consider r where "e = KvApply r" | "e = KvApplyNext" | "\<And>r. e \<noteq> KvApply r" "e \<noteq> KvApplyNext"
    by blast
  then show "apply_ok x'"
  proof cases
    case (1 r)
    with ok step show ?thesis
      by (auto simp: kv_step_def apply_ok_def intro: apply_begin_ok split: if_splits prod.splits)
  next
    case 2
    with ok step show ?thesis
      by (auto simp: kv_step_def apply_ok_def intro: apply_next_ok split: option.splits)
  next
    case 3
    from kv_step_frame [OF step 3] ok apply_at_frame show ?thesis
      unfolding apply_ok_def by metis
  qed
qed

section \<open>Replies\<close>

text \<open>
  \<open>acked rs (i, c, q) v\<close>: the command with client \<open>c\<close> and number \<open>q\<close> was applied at
  index \<open>i\<close>, and \<open>v\<close> is what the specification replies there.
\<close>

definition acked :: "ApplyResult list \<Rightarrow> u64 \<times> u64 \<times> u64 \<Rightarrow> bytes \<Rightarrow> bool" where
  "acked rs own v \<longleftrightarrow>
     (\<exists>as r bs op key val. rs = as @ r # bs \<and>
        decode r = Some (op, fst (snd own), snd (snd own), key, val) \<and> ar_index r = fst own \<and>
        v = spec_reply (op, fst (snd own), snd (snd own), key, val) (replay as))"

text \<open>Every promise belongs to one request: an index, a client and a number.\<close>

definition owned :: "(nat \<Rightarrow> u64 \<times> u64 \<times> u64) \<Rightarrow> kv_sys \<Rightarrow> bool" where
  "owned own x \<longleftrightarrow>
     (\<forall>i w. map_of (pending (kv x)) i = Some w \<longrightarrow>
        po_promise w < next_promise (kv x) \<and> own (po_promise w) = (i, po_client_id w, po_seq_num w)) \<and>
     (\<forall>t i c q p. kt x t = KvWaiting i c q p \<longrightarrow> p < next_promise (kv x) \<and> own p = (i, c, q)) \<and>
     (\<forall>p v. promises (kv x) p = Value KV_SUCCESS v \<longrightarrow>
        p < next_promise (kv x) \<and> acked (applied x) (own p) v) \<and>
     (\<forall>p v. ap x = ApSet (Some (p, Value KV_SUCCESS v)) \<longrightarrow>
        p < next_promise (kv x) \<and> acked (applied x) (own p) v)"

definition replies_ok :: "kv_sys \<Rightarrow> bool" where
  "replies_ok x \<longleftrightarrow> apply_ok x \<and> (\<exists>own. owned own x)"

lemma acked_snoc: "acked rs own v \<Longrightarrow> acked (rs @ [r]) own v"
  unfolding acked_def by (metis append_Cons append_assoc)

lemma pending_delete:
  "map_of (AList.delete i (pending s)) j = Some w \<Longrightarrow> map_of (pending s) j = Some w"
  by (simp add: delete_conv split: if_splits)

lemma ownedI:
  assumes "\<And>i w. map_of (pending (kv x)) i = Some w \<Longrightarrow>
      po_promise w < next_promise (kv x) \<and> own (po_promise w) = (i, po_client_id w, po_seq_num w)"
    and "\<And>t i c q p. kt x t = KvWaiting i c q p \<Longrightarrow> p < next_promise (kv x) \<and> own p = (i, c, q)"
    and "\<And>p v. promises (kv x) p = Value KV_SUCCESS v \<Longrightarrow>
      p < next_promise (kv x) \<and> acked (applied x) (own p) v"
    and "\<And>p v. ap x = ApSet (Some (p, Value KV_SUCCESS v)) \<Longrightarrow>
      p < next_promise (kv x) \<and> acked (applied x) (own p) v"
  shows "owned own x"
  using assms unfolding owned_def by blast

lemma ownedD:
  assumes "owned own x"
  shows "map_of (pending (kv x)) i = Some w \<Longrightarrow>
      po_promise w < next_promise (kv x) \<and> own (po_promise w) = (i, po_client_id w, po_seq_num w)"
    and "kt x t = KvWaiting i c q p \<Longrightarrow> p < next_promise (kv x) \<and> own p = (i, c, q)"
    and "promises (kv x) p = Value KV_SUCCESS v \<Longrightarrow>
      p < next_promise (kv x) \<and> acked (applied x) (own p) v"
    and "ap x = ApSet (Some (p, Value KV_SUCCESS v)) \<Longrightarrow>
      p < next_promise (kv x) \<and> acked (applied x) (own p) v"
  using assms unfolding owned_def by blast+

lemma register_fields:
  assumes "register i c q s = (p, s')"
  shows "p = next_promise s" "next_promise s' = p + 1"
    "map_of (pending s') = (map_of (pending s))(i \<mapsto> \<lparr>po_client_id = c, po_seq_num = q, po_promise = p\<rparr>)"
    "promises s' p' = Value st v \<Longrightarrow> promises s p' = Value st v"
  using assms by (auto simp: register_def break_pending_def Let_def split: option.splits if_splits)

lemma owned_register:
  assumes own: "owned own x" and reg: "register i c q (kv x) = (p, s)"
  shows "owned (own(p := (i, c, q))) (x\<lparr>kv := s, kt := (kt x)(t := KvWaiting i c q p)\<rparr>)"
proof (rule ownedI, goal_cases)
  case (1 j w)
  then show ?case
    using ownedD(1) [OF own, of j w] register_fields(1-3) [OF reg] by (cases "j = i") auto
next
  case (2 t' j c' q' p')
  then show ?case
    using ownedD(2) [OF own, of t' j c' q' p'] register_fields(1,2) [OF reg] by (cases "t' = t") auto
next
  case (3 p' v)
  then show ?case
    using ownedD(3) [OF own, of p' v] register_fields(1,2) [OF reg] register_fields(4) [OF reg, of p'] by auto
next
  case (4 p' v)
  then show ?case
    using ownedD(4) [OF own, of p' v] register_fields(1,2) [OF reg] by auto
qed

lemma owned_erase:
  assumes "owned own x"
  shows "owned own (x\<lparr>kv := erase_pending i (kv x), kt := (kt x)(t := KvDone st v)\<rparr>)"
  using assms unfolding owned_def erase_pending_def break_pending_def
  by (auto split: option.splits if_splits dest: pending_delete)

lemma notify_timeout_fields:
  assumes "s' = notify_waiter_state_locked i c q KV_TIMEOUT [] s"
  shows "next_promise s' = next_promise s"
    "map_of (pending s') j = Some w \<Longrightarrow> map_of (pending s) j = Some w"
    "promises s' p = Value KV_SUCCESS v \<Longrightarrow> promises s p = Value KV_SUCCESS v"
  using assms by (auto simp: notify_waiter_state_locked_def fulfill_val_def
      dest: pending_delete split: option.splits if_splits)

lemma apply_begin_cases:
  assumes "apply_begin r s = (s', pc)"
  shows "s' = s \<or> s' = notify_waiter_state_locked (ar_index r) 0 0 KV_TIMEOUT [] s" "pc \<noteq> ApSet f"
  using assms by (auto simp: apply_begin_def split: if_splits option.splits prod.splits)

lemma owned_shrink:
  assumes own: "owned own x" and nxt: "next_promise s = next_promise (kv x)"
    and pend: "\<And>j w. map_of (pending s) j = Some w \<Longrightarrow> map_of (pending (kv x)) j = Some w"
    and prom: "\<And>p v. promises s p = Value KV_SUCCESS v \<Longrightarrow>
      promises (kv x) p = Value KV_SUCCESS v \<or> ap x = ApSet (Some (p, Value KV_SUCCESS v))"
    and pc: "\<And>p v. pc = ApSet (Some (p, Value KV_SUCCESS v)) \<Longrightarrow>
      p < next_promise (kv x) \<and> acked (applied x) (own p) v"
    and rs: "rs = applied x \<or> rs = applied x @ [r]"
  shows "owned own (x\<lparr>kv := s, ap := pc, applied := rs\<rparr>)"
proof -
  have mono: "acked (applied x) o' v \<Longrightarrow> acked rs o' v" for o' v
    using rs by (elim disjE) (simp_all only: acked_snoc)
  show ?thesis
  proof (rule ownedI, goal_cases)
    case (1 j w)
    with ownedD(1) [OF own pend, of j w] nxt show ?case by simp
  next
    case (2 t j c q p)
    with ownedD(2) [OF own, of t j c q p] nxt show ?case by simp
  next
    case (3 p v)
    with prom [of p v] ownedD(3,4) [OF own, of p v] nxt mono [of "own p" v] show ?case by auto
  next
    case (4 p v)
    with pc [of p v] nxt mono show ?case by simp
  qed
qed

lemma owned_begin:
  assumes own: "owned own x" and beg: "apply_begin r (kv x) = (s, pc)"
  shows "owned own (x\<lparr>kv := s, ap := pc, applied := applied x @ [r]\<rparr>)"
proof (rule owned_shrink [OF own])
  show "next_promise s = next_promise (kv x)"
    and "\<And>j w. map_of (pending s) j = Some w \<Longrightarrow> map_of (pending (kv x)) j = Some w"
    and "\<And>p v. promises s p = Value KV_SUCCESS v \<Longrightarrow>
      promises (kv x) p = Value KV_SUCCESS v \<or> ap x = ApSet (Some (p, Value KV_SUCCESS v))"
    using apply_begin_cases(1) [OF beg] notify_timeout_fields [of s _ _ _ "kv x"] by blast+
qed (use apply_begin_cases(2) [OF beg] in auto)

lemma apply_store_fields:
  assumes "apply_store dup op key val cached s = (reply, s')"
  shows "next_promise s' = next_promise s" "pending s' = pending s" "promises s' = promises s"
  using assms by (auto simp: apply_store_def split: if_splits prod.splits)

lemma apply_finish_fields:
  assumes "apply_finish dup i cid seq st reply s = (f, s')"
  shows "next_promise s' = next_promise s" "promises s' = promises s"
    "map_of (pending s') j = Some w \<Longrightarrow> map_of (pending s) j = Some w"
    "f = Some (p, Value KV_SUCCESS v) \<Longrightarrow>
       v = reply \<and> (\<exists>w. map_of (pending s) i = Some w \<and> p = po_promise w \<and>
         po_client_id w = cid \<and> po_seq_num w = seq)"
  using assms by (auto simp: apply_finish_def Let_def fulfill_val_def
      dest: pending_delete split: option.splits if_splits)

lemma stored_acked:
  assumes "apply_ok x" "ap x = ApStored i cid seq dup st reply"
  shows "acked (applied x) (i, cid, seq) reply"
proof -
  from assms obtain as r op key val s0 cached s1 where
    h: "applied x = as @ [r]" "ar_index r = i" "decode r = Some (op, cid, seq, key, val)"
       "absk s0 = replay as" "find_dup cid seq s0 = (dup, st, cached)"
       "apply_store dup op key val cached s0 = (reply, s1)"
    by (auto simp: apply_ok_def)
  obtain f s2 where "apply_finish dup i cid seq st reply s1 = (f, s2)" by fastforce
  from sections_spec(1) [OF h(5) refl h(6) refl this] h(4)
  have "reply = spec_reply (op, cid, seq, key, val) (replay as)" by simp
  with h(1-3) show ?thesis unfolding acked_def by (simp only: fst_conv snd_conv) blast
qed

lemma owned_next:
  assumes own: "owned own x" and ok: "apply_ok x" and nxt: "apply_next (ap x) (kv x) = Some (s, pc)"
  shows "owned own (x\<lparr>kv := s, ap := pc\<rparr>)"
proof -
  have "owned own (x\<lparr>kv := s, ap := pc, applied := applied x\<rparr>)"
  proof (cases "ap x")
    case (ApLooked i op cid seq key val dup st cached)
    with nxt obtain reply where r: "apply_store dup op key val cached (kv x) = (reply, s)"
      "pc = ApStored i cid seq dup st reply"
      by (auto split: prod.splits)
    show ?thesis by (rule owned_shrink [OF own]) (simp_all add: apply_store_fields [OF r(1)] r(2))
  next
    case (ApStored i cid seq dup st reply)
    with nxt obtain f where f: "apply_finish dup i cid seq st reply (kv x) = (f, s)" "pc = ApSet f"
      by (auto split: prod.splits)
    have "p < next_promise (kv x) \<and> acked (applied x) (own p) v"
      if "pc = ApSet (Some (p, Value KV_SUCCESS v))" for p v
      using apply_finish_fields(4) [OF f(1), of p v] that f(2) ownedD(1) [OF own]
        stored_acked [OF ok ApStored] by fastforce
    then show ?thesis
      by (rule owned_shrink [OF own, rotated 3])
         (use apply_finish_fields(1-3) [OF f(1)] in auto)
  next
    case (ApSet f)
    with nxt show ?thesis
      by (intro owned_shrink [OF own])
         (auto simp: set_value_def split: option.splits if_splits)
  qed (use nxt in simp)
  then show ?thesis by simp
qed

lemma owned_thread:
  assumes "owned own x" "\<And>i c q p. pc \<noteq> KvWaiting i c q p"
  shows "owned own (x\<lparr>kt := (kt x)(t := pc)\<rparr>)" "owned own (x\<lparr>raft := r, kt := (kt x)(t := pc)\<rparr>)"
    "owned own (x\<lparr>raft := r\<rparr>)"
  using assms unfolding owned_def by auto

lemma owned_propose: "owned own x \<Longrightarrow> owned own (propose_and_wait t d c q x)"
  unfolding propose_and_wait_def by (auto intro!: owned_thread split: prod.splits)

lemma owned_step:
  assumes "owned own x" "apply_ok x" "kv_step x e x'"
  shows "\<exists>own'. owned own' x'"
  using assms
  by (cases e)
     (auto simp: kv_step_def Put_def Get_def Append_def
        intro: owned_register owned_erase owned_begin owned_next owned_thread owned_propose
        split: if_splits kv_thread.splits promise.splits prod.splits option.splits)

interpretation kvr: transition_invariant kv_start kv_step replies_ok
proof
  fix x assume "kv_start x"
  then have "owned own x" for own by (simp add: kv_start_def owned_def kv_new_def)
  with kva.inv_start [OF \<open>kv_start x\<close>] show "replies_ok x" by (auto simp: replies_ok_def)
next
  fix x e x' assume "replies_ok x" "kv_step x e x'"
  then show "replies_ok x'"
    unfolding replies_ok_def using kva.inv_step owned_step by blast
qed

section \<open>Requests are executed once\<close>

text \<open>
  The commands of a history, the first occurrence of every request (a client and a number),
  and the plain map operation of a command. A history is sequential when every command
  either repeats an earlier request or has a number above all earlier ones of its client.
\<close>

definition cmds :: "ApplyResult list \<Rightarrow> kv_cmd list" where
  "cmds rs = List.map_filter decode rs"

fun req_of :: "kv_cmd \<Rightarrow> u64 \<times> u64" where
  "req_of (op, cid, seq, key, val) = (cid, seq)"

fun spec_exec :: "kv_cmd \<Rightarrow> (bytes \<rightharpoonup> bytes) \<Rightarrow> (bytes \<rightharpoonup> bytes)" where
  "spec_exec (op, cid, seq, key, val) m = spec_write op key val m"

fun once :: "(u64 \<times> u64) list \<Rightarrow> kv_cmd list \<Rightarrow> kv_cmd list" where
  "once seen [] = []"
| "once seen (c # cs) =
     (if req_of c \<in> set seen then once seen cs else c # once (req_of c # seen) cs)"

fun sequential :: "(u64 \<times> u64) list \<Rightarrow> kv_cmd list \<Rightarrow> bool" where
  "sequential seen [] = True"
| "sequential seen (c # cs) =
     ((req_of c \<in> set seen \<or> (\<forall>(d, q) \<in> set seen. d = fst (req_of c) \<longrightarrow> q < snd (req_of c))) \<and>
      sequential (req_of c # seen) cs)"

definition seen_ok :: "(u64 \<times> u64) list \<Rightarrow> kv_spec \<Rightarrow> bool" where
  "seen_ok seen sp \<longleftrightarrow>
     (\<forall>d q. (d, q) \<in> set seen \<longrightarrow> (\<exists>r. sp_seen sp d = Some r \<and> q \<le> cr_seq_num r)) \<and>
     (\<forall>d r. sp_seen sp d = Some r \<longrightarrow> (d, cr_seq_num r) \<in> set seen)"

lemma replay_cmds: "replay rs = fold spec_apply (cmds rs) \<lparr>sp_store = Map.empty, sp_seen = Map.empty\<rparr>"
  by (induction rs rule: rev_induct)
     (auto simp: replay_def cmds_def map_filter_def spec_result_def split: option.splits)

lemma once_cong: "set s = set s' \<Longrightarrow> once s cs = once s' cs"
proof (induction cs arbitrary: s s')
  case (Cons c cs)
  from Cons.IH [OF Cons.prems] Cons.IH [of "req_of c # s" "req_of c # s'"] Cons.prems show ?case by simp
qed simp

lemma once_insert: "req_of c \<in> set seen \<Longrightarrow> once (req_of c # seen) cs = once seen cs"
  by (rule once_cong) auto

lemma spec_apply_dup:
  assumes "seen_ok seen sp" "req_of c \<in> set seen"
  shows "spec_apply c sp = sp"
  using assms by (cases c) (fastforce simp: seen_ok_def spec_dup_def)

lemma spec_apply_fresh:
  assumes "seen_ok seen sp" "\<forall>(d, q) \<in> set seen. d = fst (req_of c) \<longrightarrow> q < snd (req_of c)"
  shows "sp_store (spec_apply c sp) = spec_exec c (sp_store sp)"
    and "seen_ok (req_of c # seen) (spec_apply c sp)"
proof -
  obtain op d q k v where c: "c = (op, d, q, k, v)" by (cases c)
  from assms have no: "spec_dup d q sp = None"
    by (fastforce simp: seen_ok_def spec_dup_def c split: option.splits)
  then show "sp_store (spec_apply c sp) = spec_exec c (sp_store sp)" by (simp add: c)
  from assms no show "seen_ok (req_of c # seen) (spec_apply c sp)"
    by (fastforce simp: seen_ok_def c)
qed

lemma replay_once:
  assumes "seen_ok seen sp" "sequential seen cs"
  shows "sp_store (fold spec_apply cs sp) = fold spec_exec (once seen cs) (sp_store sp)"
  using assms
proof (induction cs arbitrary: seen sp)
  case (Cons c cs)
  show ?case
  proof (cases "req_of c \<in> set seen")
    case True
    have "seen_ok (req_of c # seen) sp"
      using True Cons.prems(1) by (fastforce simp: seen_ok_def)
    with True Cons.IH [OF this] Cons.prems spec_apply_dup [OF Cons.prems(1) True] once_insert [OF True]
    show ?thesis by simp
  next
    case False
    with Cons.prems have "\<forall>(d, q) \<in> set seen. d = fst (req_of c) \<longrightarrow> q < snd (req_of c)" by simp
    from spec_apply_fresh [OF Cons.prems(1) this] False Cons.IH Cons.prems(2) show ?thesis by simp
  qed
qed simp

lemma store_replay:
  assumes "sequential [] (cmds rs)"
  shows "sp_store (replay rs) = fold spec_exec (once [] (cmds rs)) Map.empty"
  using replay_once [OF _ assms, of "\<lparr>sp_store = Map.empty, sp_seen = Map.empty\<rparr>"]
  by (simp add: replay_cmds seen_ok_def)

section \<open>Properties\<close>

text \<open>
  A leader of a one-node cluster with an idle server, used in the concrete runs below.
\<close>

definition demo_raft :: Raft where
  "demo_raft = (raft_init 1 [] 300)\<lparr>role := LEADER, current_term := 1\<rparr>"

definition demo_kv :: kv_sys where
  "demo_kv = \<lparr>raft = demo_raft, kv = kv_new, kt = (\<lambda>_. KvIdle), ap = ApIdle, applied = []\<rparr>"

definition result_of :: "u64 \<Rightarrow> bytes \<Rightarrow> ApplyResult" where
  "result_of i d = \<lparr>ar_valid = True, ar_data = d, ar_index = i\<rparr>"

definition put_run :: "kv_event list" where
  "put_run =
     [KvPut 0 7 1 ''k'' ''v'', KvRegister 0, KvApply (result_of 1 (serialize PUT 7 1 ''k'' ''v'')),
      KvApplyNext, KvApplyNext, KvApplyNext]"

lemma demo_reach: "run_steps kv_exec es demo_kv = Some x \<Longrightarrow> reach kv_start kv_step x"
  by (erule run_steps_reach) (auto simp: kv_step_def kv_start_def demo_kv_def intro: reach_start)

text \<open>
  C13: whatever the RPC threads do between the sections of \<open>on_apply\<close>, whenever the
  applier is between two entries the store and the reply cache are those of the
  specification replayed over the entries it was given, in their order.
\<close>

theorem server_refines_spec:
  assumes "reach kv_start kv_step x" "ap x = ApIdle"
  shows "absk (kv x) = replay (applied x)"
  using kva.reach_inv [OF assms(1)] assms(2) by (simp add: apply_ok_def)

theorem server_refines_spec_witness:
  "\<exists>x. run_steps kv_exec put_run demo_kv = Some x \<and> store (kv x) = [(''k'', ''v'')] \<and>
     absk (kv x) = replay (applied x)"
proof -
  have "\<exists>x. run_steps kv_exec put_run demo_kv = Some x \<and>
      ap x = ApIdle \<and> store (kv x) = [(''k'', ''v'')]"
    by (rule case_option_ex) code_simp
  then obtain x where x: "run_steps kv_exec put_run demo_kv = Some x" "ap x = ApIdle"
    "store (kv x) = [(''k'', ''v'')]"
    by blast
  from server_refines_spec [OF demo_reach [OF x(1)] x(2)] x show ?thesis by blast
qed

text \<open>
  C14: exactly once: in a history where clients number their requests one after the other
  and only repeat numbers they have used, the store is the result of running the first
  occurrence of every request, and nothing else, on a plain map.
\<close>

theorem exactly_once:
  assumes "reach kv_start kv_step x" "ap x = ApIdle" "sequential [] (cmds (applied x))"
  shows "map_of (store (kv x)) = fold spec_exec (once [] (cmds (applied x))) Map.empty"
proof -
  from kva.reach_inv [OF assms(1)] assms(2) have "absk (kv x) = replay (applied x)"
    by (simp add: apply_ok_def)
  with store_replay [OF assms(3)] show ?thesis by (metis absk_fields(1))
qed

text \<open>An append that is proposed, times out, and is proposed again by the same client.\<close>

definition retry_run :: "kv_event list" where
  "retry_run =
     (let e = (\<lambda>i. KvApply (result_of i (serialize APPEND 7 1 ''k'' ''a'')))
      in [KvAppend 0 7 1 ''k'' ''a'', KvRegister 0, KvTimeout 0, KvAppend 1 7 1 ''k'' ''a'', e 1,
          KvApplyNext, KvRegister 1, KvApplyNext, KvApplyNext, e 2, KvApplyNext, KvApplyNext, KvApplyNext,
          KvCollect 1])"

theorem exactly_once_witness:
  "\<exists>x. run_steps kv_exec retry_run demo_kv = Some x \<and>
     length (cmds (applied x)) = 2 \<and> once [] (cmds (applied x)) = [(APPEND, 7, 1, ''k'', ''a'')] \<and>
     map_of (store (kv x)) = [''k'' \<mapsto> ''a'']"
proof -
  have "\<exists>x. run_steps kv_exec retry_run demo_kv = Some x \<and>
      ap x = ApIdle \<and> sequential [] (cmds (applied x)) \<and> length (cmds (applied x)) = 2 \<and>
        once [] (cmds (applied x)) = [(APPEND, 7, 1, ''k'', ''a'')]"
    by (rule case_option_ex) code_simp
  then obtain x where x: "run_steps kv_exec retry_run demo_kv = Some x" "ap x = ApIdle"
    "sequential [] (cmds (applied x))" "length (cmds (applied x)) = 2"
    "once [] (cmds (applied x)) = [(APPEND, 7, 1, ''k'', ''a'')]"
    by blast
  from exactly_once [OF demo_reach [OF x(1)] x(2,3)] x show ?thesis by (simp add: spec_lookup_def)
qed




text \<open>
  A command whose number is below the last one of its client is not executed, and
  its waiter is answered with the cached reply of the other request.
\<close>

lemma late_command_dropped:
  assumes "map_of (rifl s) c = Some r" "q < cr_seq_num r"
    and "map_of (pending s) i = Some \<lparr>po_client_id = c, po_seq_num = q, po_promise = p\<rparr>"
    and "c < 2 ^ 64" "q < 2 ^ 64" "length k < 2 ^ 32" "length v < 2 ^ 32"
  shows "store (on_apply (result_of i (serialize op c q k v)) s) = store s \<and>
    promises (on_apply (result_of i (serialize op c q k v)) s) p = Value (cr_status r) (cr_value r)"
proof -
  have "deserialize (serialize op c q k v) = Some (op, c, q, k, v)"
    using deserialize_serialize_gen [OF assms(4,5), of op k v "[]"] assms(6,7) by simp
  moreover have "find_dup c q s = (True, cr_status r, cr_value r)"
    using assms(1,2) by (simp add: find_dup_def)
  ultimately show ?thesis
    using assms(3) by (simp add: on_apply_def result_of_def apply_store_def apply_finish_def set_value_def
        fulfill_val_def)
qed

definition late_server :: KvServer where
  "late_server = kv_new\<lparr>rifl := [(7, \<lparr>cr_seq_num = 2, cr_status = KV_SUCCESS, cr_value = []\<rparr>)],
     pending := [(5, \<lparr>po_client_id = 7, po_seq_num = 1, po_promise = 0\<rparr>)]\<rparr>"

lemma late_command_dropped_witness:
  "store (on_apply (result_of 5 (serialize PUT 7 1 ''k'' ''v'')) late_server) = [] \<and>
   promises (on_apply (result_of 5 (serialize PUT 7 1 ''k'' ''v'')) late_server) 0 = Value KV_SUCCESS []"
  using late_command_dropped [of late_server 7 "\<lparr>cr_seq_num = 2, cr_status = KV_SUCCESS, cr_value = []\<rparr>" 1 5 0
      "''k''" "''v''" PUT]
  by (simp add: late_server_def kv_new_def)

text \<open>
  An index can be proposed twice, when the first entry was truncated. Registering the
  second request destroys the first one's promise, and its handler throws.
\<close>

lemma reused_index_breaks_promise:
  assumes "kt x t = KvWaiting i c q p" "kt x u = KvProposed i d r"
    and "map_of (pending (kv x)) i = Some w" "po_promise w = p"
  shows "\<exists>x'. run_steps kv_exec [KvRegister u, KvCollect t] x = Some x' \<and> kt x' t = KvThrown"
  using assms by (auto simp: register_def break_pending_def Let_def split: kv_thread.splits)

definition reuse_run :: "kv_event list" where
  "reuse_run = [KvPut 0 7 1 ''k'' ''v'', KvRegister 0, KvRaft demo_raft, KvPut 1 8 1 ''k'' ''w'']"

lemma reused_index_breaks_promise_witness:
  "\<exists>x x'. run_steps kv_exec reuse_run demo_kv = Some x \<and>
     run_steps kv_exec [KvRegister 1, KvCollect 0] x = Some x' \<and> kt x' 0 = KvThrown"
proof -
  have "\<exists>x. run_steps kv_exec reuse_run demo_kv = Some x \<and>
      kt x 0 = KvWaiting 1 7 1 0 \<and> kt x 1 = KvProposed 1 8 1 \<and>
      map_of (pending (kv x)) 1 = Some \<lparr>po_client_id = 7, po_seq_num = 1, po_promise = 0\<rparr>"
    by (rule case_option_ex) code_simp
  then obtain x where x: "run_steps kv_exec reuse_run demo_kv = Some x"
    "kt x 0 = KvWaiting 1 7 1 0" "kt x 1 = KvProposed 1 8 1"
    "map_of (pending (kv x)) 1 = Some \<lparr>po_client_id = 7, po_seq_num = 1, po_promise = 0\<rparr>"
    by blast
  from reused_index_breaks_promise [OF x(2,3,4)] x(1) show ?thesis by auto
qed

section \<open>Well-formed server states\<close>

text \<open>
  The three hash maps have one binding per key. A \<open>std::promise\<close> may be set once: setting it
  again would throw. Every promise in the table of waiters, and the one the applier has moved out of
  it (\<open>tk\<close>), is still unset, and no two of them are the same.
\<close>

definition server_wf :: "nat option \<Rightarrow> KvServer \<Rightarrow> bool" where
  "server_wf tk s \<longleftrightarrow>
     distinct (map fst (store s)) \<and> distinct (map fst (rifl s)) \<and> distinct (map fst (pending s)) \<and>
     (\<forall>i w. map_of (pending s) i = Some w \<longrightarrow>
        po_promise w < next_promise s \<and> promises s (po_promise w) = Waiting_promise \<and> tk \<noteq> Some (po_promise w)) \<and>
     (\<forall>i w j v. map_of (pending s) i = Some w \<longrightarrow> map_of (pending s) j = Some v \<longrightarrow>
        po_promise w = po_promise v \<longrightarrow> i = j) \<and>
     (\<forall>p. tk = Some p \<longrightarrow> p < next_promise s \<and> promises s p = Waiting_promise) \<and>
     (\<forall>p \<ge> next_promise s. promises s p = Waiting_promise)"

definition promises_kept :: "KvServer \<Rightarrow> KvServer \<Rightarrow> bool" where
  "promises_kept s s' \<longleftrightarrow> (\<forall>p. promises s p \<noteq> Waiting_promise \<longrightarrow> promises s' p = promises s p)"

definition taken_promise :: "apply_pc \<Rightarrow> nat option" where
  "taken_promise pc = (case pc of ApSet (Some (p, v)) \<Rightarrow> Some p | _ \<Rightarrow> None)"

lemma server_wfD:
  assumes "server_wf tk s"
  shows "distinct (map fst (store s))" "distinct (map fst (rifl s))" "distinct (map fst (pending s))"
    "map_of (pending s) i = Some w \<Longrightarrow> po_promise w < next_promise s"
    "map_of (pending s) i = Some w \<Longrightarrow> promises s (po_promise w) = Waiting_promise"
    "map_of (pending s) i = Some w \<Longrightarrow> tk \<noteq> Some (po_promise w)"
    "map_of (pending s) i = Some w \<Longrightarrow> map_of (pending s) j = Some v \<Longrightarrow> po_promise w = po_promise v \<Longrightarrow> i = j"
    "tk = Some p \<Longrightarrow> p < next_promise s" "tk = Some p \<Longrightarrow> promises s p = Waiting_promise"
    "next_promise s \<le> p \<Longrightarrow> promises s p = Waiting_promise"
  using assms unfolding server_wf_def by blast+

lemma server_wfI:
  assumes "distinct (map fst (store s))" "distinct (map fst (rifl s))" "distinct (map fst (pending s))"
    and "\<And>i w. map_of (pending s) i = Some w \<Longrightarrow>
      po_promise w < next_promise s \<and> promises s (po_promise w) = Waiting_promise \<and> tk \<noteq> Some (po_promise w)"
    and "\<And>i w j v. map_of (pending s) i = Some w \<Longrightarrow> map_of (pending s) j = Some v \<Longrightarrow> po_promise w = po_promise v \<Longrightarrow> i = j"
    and "\<And>p. tk = Some p \<Longrightarrow> p < next_promise s \<and> promises s p = Waiting_promise"
    and "\<And>p. next_promise s \<le> p \<Longrightarrow> promises s p = Waiting_promise"
  shows "server_wf tk s"
  using assms unfolding server_wf_def by blast

text \<open>The waiter at an index leaves the table, and its promise is set, broken or handed on.\<close>

lemma wf_remove:
  assumes wf: "server_wf tk s" and w: "map_of (pending s) i = Some w"
  shows "server_wf tk (s\<lparr>promises := (promises s)(po_promise w := v), pending := AList.delete i (pending s)\<rparr>)"
    "tk = None \<Longrightarrow> server_wf (Some (po_promise w)) (s\<lparr>pending := AList.delete i (pending s)\<rparr>)"
    "promises_kept s (s\<lparr>promises := (promises s)(po_promise w := v)\<rparr>)"
proof -
  note D = server_wfD [OF wf]
  have d: "distinct (map fst (AList.delete i (pending s)))" using D(3) by (rule distinct_delete)
  have del: "j \<noteq> i \<and> map_of (pending s) j = Some u \<and> po_promise u \<noteq> po_promise w"
    if "map_of (AList.delete i (pending s)) j = Some u" for j u
    using that D(7) [of j u i w] w by (auto simp: delete_conv split: if_splits)
  show "server_wf tk (s\<lparr>promises := (promises s)(po_promise w := v), pending := AList.delete i (pending s)\<rparr>)"
  proof (rule server_wfI, goal_cases)
    case (4 j u)
    then show ?case using del [of j u] D(4-6) [of j u] by simp
  next
    case (5 j u k v)
    then show ?case using del [of j u] del [of k v] D(7) [of j u k v] by simp
  next
    case (6 p)
    then show ?case using D(8,9) [of p] D(6) [OF w] by auto
  next
    case (7 p)
    then show ?case using D(4) [OF w] D(10) [of p] by simp
  qed (use D(1,2) d in simp_all)
  show "server_wf (Some (po_promise w)) (s\<lparr>pending := AList.delete i (pending s)\<rparr>)" if "tk = None"
  proof (rule server_wfI, goal_cases)
    case (4 j u)
    then show ?case using del [of j u] D(4,5) [of j u] by simp
  next
    case (5 j u k v)
    then show ?case using del [of j u] del [of k v] D(7) [of j u k v] by simp
  next
    case (6 p)
    then show ?case using D(4,5) [OF w] by simp
  next
    case (7 p)
    then show ?case using D(10) [of p] by simp
  qed (use D(1,2) d in simp_all)
  show "promises_kept s (s\<lparr>promises := (promises s)(po_promise w := v)\<rparr>)"
    using D(5) [OF w] by (simp add: promises_kept_def)
qed

lemma wf_erase:
  assumes "server_wf tk s"
  shows "server_wf tk (erase_pending i s)" "promises_kept s (erase_pending i s)"
proof -
  have "server_wf tk (erase_pending i s) \<and> promises_kept s (erase_pending i s)"
  proof (cases "map_of (pending s) i")
    case None
    then have "AList.delete i (pending s) = pending s" by (simp add: map_of_eq_None_iff)
    with None assms show ?thesis by (simp add: erase_pending_def break_pending_def promises_kept_def)
  next
    case (Some w)
    with wf_remove(1,3) [OF assms Some, of Broken] show ?thesis
      by (simp add: erase_pending_def break_pending_def promises_kept_def)
  qed
  then show "server_wf tk (erase_pending i s)" "promises_kept s (erase_pending i s)" by blast+
qed

lemma wf_notify:
  assumes "server_wf tk s"
  shows "server_wf tk (notify_waiter_state_locked i c q st v s)" "promises_kept s (notify_waiter_state_locked i c q st v s)"
proof -
  show "server_wf tk (notify_waiter_state_locked i c q st v s)"
    using wf_remove(1) [OF assms] assms by (simp add: notify_waiter_state_locked_def split: option.splits)
  show "promises_kept s (notify_waiter_state_locked i c q st v s)"
    using wf_remove(3) [OF assms] by (simp add: notify_waiter_state_locked_def promises_kept_def split: option.splits)
qed

lemma wf_register:
  assumes "server_wf tk s" "register i c q s = (p, s')"
  shows "server_wf tk s'" "promises_kept s s'"
proof -
  define e where "e = erase_pending i s"
  have wf: "server_wf tk e" and none: "map_of (pending e) i = None"
    using wf_erase(1) [OF assms(1)] by (simp_all add: e_def erase_pending_def delete_conv)
  note D = server_wfD [OF wf]
  let ?w = "\<lparr>po_client_id = c, po_seq_num = q, po_promise = next_promise s\<rparr>"
  have s': "s' = e\<lparr>pending := AList.update i ?w (pending s), next_promise := next_promise s + 1\<rparr>"
    and n: "next_promise e = next_promise s"
    using assms(2) by (auto simp: e_def erase_pending_def register_def Let_def break_pending_def split: option.splits)
  have m: "map_of (pending s') = (map_of (pending e))(i \<mapsto> ?w)"
    by (auto simp: s' e_def erase_pending_def delete_conv fun_eq_iff)
  have f: "store s' = store e" "rifl s' = rifl e" "promises s' = promises e" "next_promise s' = next_promise e + 1"
    by (simp_all add: s' n)
  show "server_wf tk s'"
  proof (rule server_wfI, goal_cases)
    case 3
    then show ?case using server_wfD(3) [OF assms(1)] by (simp add: s' distinct_update)
  next
    case (4 j u)
    then show ?case using D(4-6) [of j u] D(8) [of "next_promise s"] D(10) [of "next_promise s"] n
      by (auto simp: m f split: if_splits)
  next
    case (5 j u k v)
    then show ?case using D(7) [of j u k v] D(4) [of j u] D(4) [of k v] n by (auto simp: m split: if_splits)
  next
    case (6 p)
    then show ?case using D(8,9) [of p] by (simp add: f)
  next
    case (7 p)
    then show ?case using D(10) [of p] by (simp add: f)
  qed (use D(1,2) in \<open>simp_all add: f\<close>)
  show "promises_kept s s'"
    using wf_erase(2) [OF assms(1), of i] by (simp add: s' e_def promises_kept_def)
qed

lemma wf_store:
  assumes "server_wf tk s" "apply_store dup op key val cached s = (reply, s')"
  shows "server_wf tk s'" "promises_kept s s'"
proof -
  obtain st where s': "s' = s\<lparr>store := st\<rparr>" and d: "distinct (map fst st)"
    using assms(2) server_wfD(1) [OF assms(1)]
    by (auto simp: apply_store_def exec_op_def distinct_update split: if_splits OpType.splits
        intro: that [of "store s"] that)
  show "server_wf tk s'" using assms(1) d unfolding server_wf_def s' by simp
  show "promises_kept s s'" by (simp add: s' promises_kept_def)
qed

lemma wf_finish:
  assumes "server_wf None s" "apply_finish dup i cid seq st reply s = (f, s')"
  shows "server_wf (taken_promise (ApSet f)) s'" "promises_kept s s'"
proof -
  define r where "r = (if dup then rifl s
      else AList.update cid \<lparr>cr_seq_num = seq, cr_status = st, cr_value = reply\<rparr> (rifl s))"
  let ?s = "s\<lparr>rifl := r, last_kv_applied := i\<rparr>"
  have "server_wf None ?s" using assms(1) by (simp add: server_wf_def r_def distinct_update)
  note wf = this wf_remove(2) [OF this]
  have eq: "apply_finish dup i cid seq st reply s =
      (case map_of (pending s) i of
         None \<Rightarrow> (None, ?s)
       | Some w \<Rightarrow> (Some (po_promise w, fulfill_val w cid seq st reply), ?s\<lparr>pending := AList.delete i (pending s)\<rparr>))"
    by (simp add: apply_finish_def r_def Let_def split: option.splits)
  show "server_wf (taken_promise (ApSet f)) s'" "promises_kept s s'"
    using assms(2) wf unfolding eq by (auto simp: taken_promise_def promises_kept_def split: option.splits)
qed

lemma wf_set_value:
  assumes "server_wf (taken_promise (ApSet f)) s"
  shows "server_wf None (set_value f s)" "promises_kept s (set_value f s)"
proof -
  show "promises_kept s (set_value f s)"
    using server_wfD(9) [OF assms] by (auto simp: promises_kept_def set_value_def taken_promise_def split: option.splits)
  show "server_wf None (set_value f s)"
  proof (cases f)
    case None
    with assms show ?thesis by (simp add: set_value_def taken_promise_def)
  next
    case (Some pv)
    obtain p v where f: "f = Some (p, v)" using Some by (cases pv) auto
    then have wf: "server_wf (Some p) s" using assms by (simp add: taken_promise_def)
    note D = server_wfD [OF wf]
    show ?thesis
      unfolding f set_value_def option.case prod.case
    proof (rule server_wfI, goal_cases)
      case (4 i w)
      then show ?case using D(4-6) [of i w] by simp
    next
      case (5 i w j u)
      then show ?case using D(7) [of i w j u] by simp
    next
      case (7 q)
      then show ?case using D(8) [of p] D(10) [of q] by simp
    qed (use D(1-3) in simp_all)
  qed
qed

lemma wf_apply_next:
  assumes wf: "server_wf (taken_promise pc) s" and n: "apply_next pc s = Some (s', pc')"
  shows "server_wf (taken_promise pc') s' \<and> promises_kept s s'"
proof (cases pc)
  case (ApLooked index op cid seq key val dup st cached)
  with n obtain reply where "apply_store dup op key val cached s = (reply, s')" "pc' = ApStored index cid seq dup st reply"
    by (auto split: prod.splits)
  with wf_store [OF wf] ApLooked show ?thesis by (simp add: taken_promise_def)
next
  case (ApStored index cid seq dup st reply)
  with n obtain f where "apply_finish dup index cid seq st reply s = (f, s')" "pc' = ApSet f" by (auto split: prod.splits)
  with wf_finish [of s] wf ApStored show ?thesis by (simp add: taken_promise_def)
next
  case (ApSet f)
  with n have "s' = set_value f s" "pc' = ApIdle" by auto
  with wf_set_value [of f s] wf ApSet show ?thesis by (simp add: taken_promise_def)
qed (use n in simp)

lemma wf_step:
  assumes "server_wf (taken_promise (ap x)) (kv x)" "kv_step x e x'"
  shows "server_wf (taken_promise (ap x')) (kv x') \<and> promises_kept (kv x) (kv x')"
proof -
  have refl: "promises_kept s s" for s by (simp add: promises_kept_def)
  show ?thesis
  proof (cases e)
    case (KvApply r)
    with assms(2) obtain s pc where s: "apply_begin r (kv x) = (s, pc)" "kv x' = s" "ap x' = pc" "ap x = ApIdle"
      by (auto simp: kv_step_def split: if_splits prod.splits)
    have "taken_promise pc = None"
      using apply_begin_cases(2) [OF s(1)] by (cases pc) (auto simp: taken_promise_def)
    with s assms(1) apply_begin_cases(1) [OF s(1)] show ?thesis
      by (auto simp: taken_promise_def wf_notify refl)
  next
    case KvApplyNext
    with assms(2) obtain s pc where s: "apply_next (ap x) (kv x) = Some (s, pc)" "kv x' = s" "ap x' = pc"
      by (auto simp: kv_step_def split: option.splits prod.splits)
    with wf_apply_next [OF assms(1) s(1)] show ?thesis by simp
  qed (use assms refl in \<open>auto simp: kv_step_def wf_erase split: if_splits kv_thread.splits promise.splits prod.splits
      dest: wf_register\<close>)
qed

interpretation kvw: transition_invariant kv_start kv_step "\<lambda>x. server_wf (taken_promise (ap x)) (kv x)"
proof unfold_locales
  show "server_wf (taken_promise (ap x)) (kv x)" if "kv_start x" for x
    using that by (simp add: kv_start_def kv_new_def server_wf_def taken_promise_def)
  show "server_wf (taken_promise (ap x')) (kv x')"
    if "server_wf (taken_promise (ap x)) (kv x)" "kv_step x e x'" for x e x'
    using wf_step [OF that] by blast
qed

text \<open>
  C16: the state of the server is well-formed, and a promise is kept: the three hash maps have one
  binding per key; every RPC thread in the table waits for a promise that is still unset, so
  that setting it never throws; and once a promise has its value, or is broken, no step changes it.
\<close>

theorem promises_set_once:
  assumes "reach kv_start kv_step x"
  shows "distinct (map fst (store (kv x))) \<and> distinct (map fst (rifl (kv x))) \<and> distinct (map fst (pending (kv x))) \<and>
    (\<forall>i w. map_of (pending (kv x)) i = Some w \<longrightarrow> promises (kv x) (po_promise w) = Waiting_promise) \<and>
    (\<forall>p v. ap x = ApSet (Some (p, v)) \<longrightarrow> promises (kv x) p = Waiting_promise) \<and>
    (\<forall>e x' p. kv_step x e x' \<longrightarrow> promises (kv x) p \<noteq> Waiting_promise \<longrightarrow> promises (kv x') p = promises (kv x) p)"
proof -
  have wf: "server_wf (taken_promise (ap x)) (kv x)" using assms by (rule kvw.reach_inv)
  have "promises (kv x) p = Waiting_promise" if "ap x = ApSet (Some (p, v))" for p v
    using server_wfD(9) [OF wf, of p] that by (simp add: taken_promise_def)
  moreover have "promises_kept (kv x) (kv x')" if "kv_step x e x'" for e x' using wf_step [OF wf that] by blast
  ultimately show ?thesis
    using server_wfD(1-3,5) [OF wf] unfolding promises_kept_def by blast
qed

theorem promises_set_once_witness:
  "\<exists>x x'. reach kv_start kv_step x \<and> kv_step x (KvApply (result_of 2 [])) x' \<and> promises (kv x') 0 = Value KV_SUCCESS []"
proof -
  have "\<exists>x. run_steps kv_exec put_run demo_kv = Some x \<and> ap x = ApIdle \<and> promises (kv x) 0 = Value KV_SUCCESS []"
    by (rule case_option_ex) code_simp
  then obtain x where x: "run_steps kv_exec put_run demo_kv = Some x" "ap x = ApIdle" "promises (kv x) 0 = Value KV_SUCCESS []"
    by blast
  note r = demo_reach [OF x(1)]
  obtain x' where s: "kv_step x (KvApply (result_of 2 [])) x'"
    using x(2) by (cases "apply_begin (result_of 2 []) (kv x)") (simp add: kv_step_def)
  then have "promises (kv x') 0 = promises (kv x) 0" using promises_set_once [OF r] x(3) by simp
  with r s x(3) show ?thesis by auto
qed

end
