(* ===== verification/Cluster_Config.thy ===== *)
theory Cluster_Config
  imports Prelude
begin

text \<open>
  How a cluster is described: \<open>src/inc/common/config.hpp\<close>, the generators of
  \<open>src/inc/toolings/config_gen.hpp\<close>, the \<open>--peers\<close> flag of the two node binaries
  (\<open>src/app/kv_node.cpp\<close>, \<open>src/app/raft_node.cpp\<close>), and the set-up loops and port layout of
  \<open>src/app/multinode.cpp\<close>, \<open>src/app/latency.cpp\<close> and \<open>src/app/tput.cpp\<close>.

  A \<open>std::map\<close> is an association list sorted by key (\<open>omap_put\<close>). The string functions of
  Abseil are parameters: \<open>split\<close> for \<open>StrSplit\<close>, \<open>join\<close> for \<open>StrJoin\<close>, \<open>atoi\<close> for
  \<open>SimpleAtoi\<close>; the theorems that need their documented behaviour assume it.

  Shown: the generated configurations describe one cluster (every node knows exactly the
  other nodes, at the addresses they are reached at); the flag is read back as it was
  written; the benchmark rounds use disjoint ports, up to the cluster size where they stop
  doing so.
\<close>

section \<open>Ordered maps\<close>

type_synonym ('k, 'v) omap = "('k \<times> 'v) list"

fun omap_put :: "'k :: linorder \<Rightarrow> 'v \<Rightarrow> ('k, 'v) omap \<Rightarrow> ('k, 'v) omap" where
  "omap_put k v [] = [(k, v)]"
| "omap_put k v ((k', v') # m) =
     (if k < k' then (k, v) # (k', v') # m
      else if k = k' then (k, v) # m
      else (k', v') # omap_put k v m)"

definition omap_ok :: "('k :: linorder, 'v) omap \<Rightarrow> bool" where
  "omap_ok m \<longleftrightarrow> sorted_wrt (<) (map fst m)"

section \<open>Configurations\<close>

record Config =
  c_id :: u64
  c_addr :: string
  c_peer_addrs :: "(u64, string) omap"

record RaftInstanceConfig =
  ri_id :: u64
  ri_port :: u64
  listening_addr :: string
  external_addr :: string

definition gen_local_instances :: "nat \<Rightarrow> u64 \<Rightarrow> RaftInstanceConfig list" where
  "gen_local_instances num_instances start_port =
     map (\<lambda>i. let port = add64 start_port i; a = ''localhost:'' @ to_string port
              in \<lparr>ri_id = i, ri_port = port, listening_addr = a, external_addr = a\<rparr>)
       [0..<num_instances]"

text \<open>Here the port field is left uninitialised; its value is the argument \<open>junk\<close>.\<close>

definition gen_net_instances :: "(nat \<Rightarrow> u64) \<Rightarrow> string list \<Rightarrow> u64 \<Rightarrow> RaftInstanceConfig list" where
  "gen_net_instances junk addrs listening_port =
     map (\<lambda>i. \<lparr>ri_id = i, ri_port = junk i,
               listening_addr = ''0.0.0.0:'' @ to_string listening_port,
               external_addr = addrs ! i @ '':'' @ to_string listening_port\<rparr>)
       [0..<length addrs]"

definition peer_addrs_of :: "RaftInstanceConfig list \<Rightarrow> u64 \<Rightarrow> (u64, string) omap" where
  "peer_addrs_of instances i =
     fold (\<lambda>peer m. if ri_id peer \<noteq> i then omap_put (ri_id peer) (external_addr peer) m else m)
       instances []"

definition gen_raft_configs :: "RaftInstanceConfig list \<Rightarrow> Config list" where
  "gen_raft_configs instances =
     map (\<lambda>inst. \<lparr>c_id = ri_id inst, c_addr = listening_addr inst,
                   c_peer_addrs = peer_addrs_of instances (ri_id inst)\<rparr>) instances"

text \<open>
  The loops that set up a cluster of processes: configurations, the port of every node's
  tester service, and the client addresses. \<open>peer_addrs_of\<close> is also their inner loop.
\<close>

definition KV_PORT_OFFSET :: u64 where
  "KV_PORT_OFFSET = 1000"

definition tester_ports :: "RaftInstanceConfig list \<Rightarrow> u64 \<Rightarrow> (u64, u64) umap" where
  "tester_ports insts tester_port =
     fold (\<lambda>(k, inst) m. AList.update (ri_id inst) (add64 tester_port k) m) (enumerate 0 insts) []"

definition kv_addrs_of :: "RaftInstanceConfig list \<Rightarrow> string list" where
  "kv_addrs_of insts = map (\<lambda>inst. ''localhost:'' @ to_string (add64 (ri_port inst) KV_PORT_OFFSET)) insts"

definition multinode_setup :: "nat \<Rightarrow> Config list \<times> (u64, u64) umap" where
  "multinode_setup num =
     (let insts = gen_local_instances num 50050
      in (map (\<lambda>inst. \<lparr>c_id = ri_id inst, c_addr = listening_addr inst,
                       c_peer_addrs = peer_addrs_of insts (ri_id inst)\<rparr>) insts,
          tester_ports insts 55001))"

definition NUM_NODES :: nat where "NUM_NODES = 3"
definition RAFT_BASE_PORT :: u64 where "RAFT_BASE_PORT = 50150"
definition CTRL_PORT :: u64 where "CTRL_PORT = 55100"
definition TESTER_BASE_PORT :: u64 where "TESTER_BASE_PORT = 55101"

definition latency_setup :: "Config list \<times> (u64, u64) umap \<times> string list \<times> string" where
  "latency_setup =
     (let insts = gen_local_instances NUM_NODES RAFT_BASE_PORT
      in (map (\<lambda>inst. \<lparr>c_id = ri_id inst, c_addr = listening_addr inst,
                       c_peer_addrs = peer_addrs_of insts (ri_id inst)\<rparr>) insts,
          tester_ports insts TESTER_BASE_PORT, kv_addrs_of insts,
          ''0.0.0.0:'' @ to_string CTRL_PORT))"

section \<open>The ports of a benchmark round\<close>

definition RAFT_BASE :: u64 where "RAFT_BASE = 50160"
definition RAFT_STEP :: u64 where "RAFT_STEP = 10"
definition CTRL_BASE :: u64 where "CTRL_BASE = 55200"
definition TESTER_BASE :: u64 where "TESTER_BASE = 55201"

record round_layout =
  rl_configs :: "Config list"
  rl_tester :: "(u64, u64) umap"
  rl_kv_addrs :: "string list"
  rl_ctrl_addr :: string

definition create_cluster :: "nat \<Rightarrow> nat \<Rightarrow> round_layout" where
  "create_cluster round_idx num_nodes =
     (let port_step = num_nodes + 2;
          raft_base = RAFT_BASE + round_idx * RAFT_STEP;
          ctrl_port = CTRL_BASE + round_idx * port_step;
          tester_base = TESTER_BASE + round_idx * port_step;
          insts = gen_local_instances num_nodes raft_base
      in \<lparr>rl_configs = map (\<lambda>inst. \<lparr>c_id = ri_id inst, c_addr = listening_addr inst,
                          c_peer_addrs = peer_addrs_of insts (ri_id inst)\<rparr>) insts,
          rl_tester = tester_ports insts tester_base,
          rl_kv_addrs = kv_addrs_of insts,
          rl_ctrl_addr = ''0.0.0.0:'' @ to_string ctrl_port\<rparr>)"

section \<open>The peers flag\<close>

text \<open>
  The result is the error message, if there is one, and the map as the call leaves it.
\<close>

fun parse_parts ::
  "(char \<Rightarrow> string \<Rightarrow> string list) \<Rightarrow> (string \<Rightarrow> u64 option) \<Rightarrow> string list \<Rightarrow> (u64, string) omap \<Rightarrow>
   string option \<times> (u64, string) omap" where
  "parse_parts split atoi [] out = (None, out)"
| "parse_parts split atoi (part # parts) out =
     (case split (CHR ''+'') part of
        [i, addr] \<Rightarrow>
          (case atoi i of
             None \<Rightarrow> (Some (''Invalid peer id: '' @ i), out)
           | Some k \<Rightarrow> parse_parts split atoi parts (omap_put k addr out))
      | _ \<Rightarrow> (Some (''Invalid peer address: '' @ part), out))"

definition AbslParseFlag ::
  "(char \<Rightarrow> string \<Rightarrow> string list) \<Rightarrow> (string \<Rightarrow> u64 option) \<Rightarrow> string \<Rightarrow> (u64, string) omap \<Rightarrow>
   string option \<times> (u64, string) omap" where
  "AbslParseFlag split atoi text out =
     (if text = [] then (None, out) else parse_parts split atoi (split (CHR '','') text) out)"

definition AbslUnparseFlag :: "(string list \<Rightarrow> string \<Rightarrow> string) \<Rightarrow> (u64, string) omap \<Rightarrow> string" where
  "AbslUnparseFlag join values =
     (let parts = map (\<lambda>(i, addr). to_string i @ ''+'' @ addr) values
      in if parts = [] then [] else join parts '','')"

section \<open>Lemmas on ordered maps\<close>

lemma map_of_omap_put [simp]: "map_of (omap_put k v m) = (map_of m)(k \<mapsto> v)"
  by (induction k v m rule: omap_put.induct) auto

lemma fst_omap_put: "fst ` set (omap_put k v m) = insert k (fst ` set m)"
  by (induction k v m rule: omap_put.induct) auto

lemma omap_ok_put: "omap_ok m \<Longrightarrow> omap_ok (omap_put k v m)"
proof (induction k v m rule: omap_put.induct)
  case (2 k v k' v' m)
  then show ?case
    using fst_omap_put [of k v m] by (fastforce simp: omap_ok_def)
qed (simp add: omap_ok_def)

lemma omap_put_last: "omap_ok (m @ [(k, v)]) \<Longrightarrow> omap_put k v m = m @ [(k, v)]"
  by (induction k v m rule: omap_put.induct) (auto simp: omap_ok_def)

section \<open>Every node knows the others\<close>

lemma peers_of_map:
  "map_of (peer_addrs_of insts i) j =
     (if j = i then None else map_of (rev (map (\<lambda>p. (ri_id p, external_addr p)) insts)) j)"
  by (induction insts rule: rev_induct) (auto simp: peer_addrs_of_def)

lemma peers_of_ok: "omap_ok (peer_addrs_of insts i)"
proof -
  have "omap_ok m \<Longrightarrow>
      omap_ok (fold (\<lambda>p m. if ri_id p \<noteq> i then omap_put (ri_id p) (external_addr p) m else m) insts m)" for m
    by (induction insts arbitrary: m) (auto intro: omap_ok_put)
  then show ?thesis by (simp add: peer_addrs_of_def omap_ok_def)
qed

text \<open>Instances with distinct ids that are reached where they listen.\<close>

definition insts_ok :: "RaftInstanceConfig list \<Rightarrow> bool" where
  "insts_ok insts \<longleftrightarrow>
     distinct (map ri_id insts) \<and> (\<forall>x \<in> set insts. external_addr x = listening_addr x)"

lemma insts_ok_local: "insts_ok (gen_local_instances n p)"
  by (auto simp: insts_ok_def gen_local_instances_def Let_def distinct_map inj_on_def)

lemma peers_of_other:
  assumes "distinct (map ri_id insts)" "x \<in> set insts"
  shows "map_of (peer_addrs_of insts i) (ri_id x) = (if ri_id x = i then None else Some (external_addr x))"
proof -
  let ?ps = "map (\<lambda>p. (ri_id p, external_addr p)) insts"
  have "distinct (map fst (rev ?ps))" using assms(1) by (simp add: rev_map [symmetric] comp_def)
  then have "map_of (rev ?ps) (ri_id x) = Some (external_addr x)"
    using assms(2) by (intro map_of_is_SomeI) auto
  then show ?thesis by (simp add: peers_of_map)
qed

lemma peers_of_dom: "dom (map_of (peer_addrs_of insts i)) = ri_id ` set insts - {i}"
proof -
  have "fst ` set (rev (map (\<lambda>p. (ri_id p, external_addr p)) insts)) = ri_id ` set insts"
    by (simp add: image_image)
  then have "map_of (rev (map (\<lambda>p. (ri_id p, external_addr p)) insts)) j = None \<longleftrightarrow> j \<notin> ri_id ` set insts" for j
    unfolding map_of_eq_None_iff by (rule arg_cong)
  then have "map_of (peer_addrs_of insts i) j = None \<longleftrightarrow> j \<notin> ri_id ` set insts - {i}" for j
    by (cases "j = i") (simp_all only: peers_of_map if_True if_False Diff_iff insert_iff empty_iff simp_thms)
  then show ?thesis by (simp only: set_eq_iff domIff) blast
qed

lemma local_ids: "map ri_id (gen_local_instances n p) = [0..<n]"
  by (simp add: gen_local_instances_def Let_def comp_def)

lemma local_addr:
  "x \<in> set (gen_local_instances n p) \<Longrightarrow> p + n < 2 ^ 64 \<Longrightarrow>
     listening_addr x = ''localhost:'' @ to_string (p + ri_id x)"
  by (auto simp: gen_local_instances_def Let_def add64_def)

lemma configs_from:
  assumes "c \<in> set (gen_raft_configs insts)"
  obtains x where "x \<in> set insts" "c_id c = ri_id x" "c_addr c = listening_addr x"
    "c_peer_addrs c = peer_addrs_of insts (ri_id x)"
  using assms that by (auto simp: gen_raft_configs_def)

lemma local_peers_dom:
  "c \<in> set (gen_raft_configs (gen_local_instances n p)) \<Longrightarrow>
     dom (map_of (c_peer_addrs c)) = {0..<n} - {c_id c} \<and> omap_ok (c_peer_addrs c)"
  by (erule configs_from)
     (metis peers_of_dom peers_of_ok local_ids image_set set_upt)

lemma local_peer_addr:
  assumes "c \<in> set (gen_raft_configs (gen_local_instances n p))"
    and "d \<in> set (gen_raft_configs (gen_local_instances n p))" "c_id c \<noteq> c_id d" "p + n < 2 ^ 64"
  shows "map_of (c_peer_addrs c) (c_id d) = Some (c_addr d) \<and> c_addr c \<noteq> c_addr d"
proof -
  let ?is = "gen_local_instances n p"
  obtain x where x: "x \<in> set ?is" "c_id c = ri_id x" "c_addr c = listening_addr x"
    "c_peer_addrs c = peer_addrs_of ?is (ri_id x)"
    using assms(1) by (rule configs_from)
  obtain y where y: "y \<in> set ?is" "c_id d = ri_id y" "c_addr d = listening_addr y"
    using assms(2) by (rule configs_from)
  have "external_addr y = listening_addr y" "distinct (map ri_id ?is)"
    using y(1) insts_ok_local by (auto simp: insts_ok_def)
  with peers_of_other [of ?is y "ri_id x"] x y assms(3)
  have "map_of (c_peer_addrs c) (c_id d) = Some (c_addr d)" by simp
  moreover have "c_addr c \<noteq> c_addr d"
    using x y assms(3) local_addr [OF x(1) assms(4)] local_addr [OF y(1) assms(4)] to_string_inj by fastforce
  ultimately show ?thesis ..
qed

text \<open>
  C27: the generated configurations describe one cluster: as many nodes as asked for, with
  the ids \<open>0, 1, ...\<close>; a node's peers are exactly the other nodes, in order, each at the
  address it listens at; and no two nodes share an address as long as the port numbers do
  not wrap.
\<close>

theorem generated_cluster:
  assumes "p + n < 2 ^ 64"
  shows "map c_id (gen_raft_configs (gen_local_instances n p)) = [0..<n] \<and>
    (\<forall>c \<in> set (gen_raft_configs (gen_local_instances n p)).
       dom (map_of (c_peer_addrs c)) = {0..<n} - {c_id c} \<and> omap_ok (c_peer_addrs c) \<and>
       (\<forall>d \<in> set (gen_raft_configs (gen_local_instances n p)). c_id c \<noteq> c_id d \<longrightarrow>
          map_of (c_peer_addrs c) (c_id d) = Some (c_addr d) \<and> c_addr c \<noteq> c_addr d))"
proof (intro conjI ballI impI)
  show "map c_id (gen_raft_configs (gen_local_instances n p)) = [0..<n]"
    using local_ids by (simp add: gen_raft_configs_def comp_def)
qed (use local_peers_dom local_peer_addr assms in \<open>blast+\<close>)

theorem generated_cluster_witness:
  "map_of (c_peer_addrs (gen_raft_configs (gen_local_instances 3 50050) ! 0)) 2 =
     Some (c_addr (gen_raft_configs (gen_local_instances 3 50050) ! 2))"
proof -
  let ?cs = "gen_raft_configs (gen_local_instances 3 50050)"
  have small: "50050 + 3 < (2 :: nat) ^ 64" by simp
  note all = generated_cluster [OF small]
  have ids: "map c_id ?cs = [0, 1, 2]" using all by (simp add: upt_rec)
  then have "length ?cs = 3" by (metis length_map list.size(3,4) add_0 numeral_3_eq_3 One_nat_def Suc_eq_plus1)
  then have "?cs ! 0 \<in> set ?cs" "?cs ! 2 \<in> set ?cs" "c_id (?cs ! 0) = 0" "c_id (?cs ! 2) = 2"
    using ids nth_map [of 0 ?cs c_id] nth_map [of 2 ?cs c_id] by auto
  with all show ?thesis by (metis zero_neq_numeral)
qed

section \<open>The flag is read back\<close>

lemma parse_parts_unparsed:
  assumes plus: "\<And>a b. CHR ''+'' \<notin> set a \<Longrightarrow> CHR ''+'' \<notin> set b \<Longrightarrow> split (CHR ''+'') (a @ ''+'' @ b) = [a, b]"
    and num: "\<And>n. n < 2 ^ 64 \<Longrightarrow> atoi (to_string n) = Some n"
    and m: "\<And>i a. (i, a) \<in> set m \<Longrightarrow> i < 2 ^ 64 \<and> CHR ''+'' \<notin> set a"
    and ok: "omap_ok (out @ m)"
  shows "parse_parts split atoi (map (\<lambda>(i, a). to_string i @ ''+'' @ a) m) out = (None, out @ m)"
  using m ok
proof (induction m arbitrary: out)
  case (Cons x m)
  obtain i a where x: "x = (i, a)" by (cases x)
  have "CHR ''+'' \<notin> set (to_string i)" using to_string_digits [of "CHR ''+''" i] by auto
  then have "split (CHR ''+'') (to_string i @ ''+'' @ a) = [to_string i, a]"
    using plus [of "to_string i" a] Cons.prems(1) [of i a] x by simp
  moreover have "atoi (to_string i) = Some i" using num Cons.prems(1) [of i a] x by simp
  moreover have "omap_put i a out = out @ [(i, a)]"
    using Cons.prems(2) x by (intro omap_put_last) (auto simp: omap_ok_def sorted_wrt_append)
  moreover have "parse_parts split atoi (map (\<lambda>(i, a). to_string i @ ''+'' @ a) m) (out @ [(i, a)]) =
      (None, (out @ [(i, a)]) @ m)"
    by (rule Cons.IH) (use Cons.prems x in auto)
  ultimately show ?case using x by simp
qed simp

text \<open>
  The peers flag is read back as it was written: for addresses without a comma or a
  plus sign, parsing the unparsed text into an empty map gives the same map and no error.
\<close>

lemma peers_flag_roundtrip:
  assumes split_plus: "\<And>a b. CHR ''+'' \<notin> set a \<Longrightarrow> CHR ''+'' \<notin> set b \<Longrightarrow>
      split (CHR ''+'') (a @ ''+'' @ b) = [a, b]"
    and split_join: "\<And>xs. xs \<noteq> [] \<Longrightarrow> (\<And>x. x \<in> set xs \<Longrightarrow> CHR '','' \<notin> set x) \<Longrightarrow>
      split (CHR '','') (join xs '','') = xs"
    and join_ne: "\<And>xs x. x \<in> set xs \<Longrightarrow> x \<noteq> [] \<Longrightarrow> join xs '','' \<noteq> []"
    and atoi_num: "\<And>n. n < 2 ^ 64 \<Longrightarrow> atoi (to_string n) = Some n"
    and ok: "omap_ok values"
    and addrs: "\<And>i a. (i, a) \<in> set values \<Longrightarrow> i < 2 ^ 64 \<and> CHR ''+'' \<notin> set a \<and> CHR '','' \<notin> set a"
  shows "AbslParseFlag split atoi (AbslUnparseFlag join values) [] = (None, values)"
proof (cases "values = []")
  case True
  then show ?thesis by (simp add: AbslParseFlag_def AbslUnparseFlag_def)
next
  case False
  let ?parts = "map (\<lambda>(i, a). to_string i @ ''+'' @ a) values"
  have "CHR '','' \<notin> set x" if "x \<in> set ?parts" for x
    using that addrs to_string_digits [of "CHR '',''"] by fastforce
  with False split_join [of ?parts] have "split (CHR '','') (join ?parts '','') = ?parts" by auto
  moreover have "join ?parts '','' \<noteq> []" using False join_ne [of "hd ?parts" ?parts] by (cases "values") auto
  ultimately show ?thesis
    using False parse_parts_unparsed [of split atoi "values" "[]", OF split_plus atoi_num] addrs ok
    by (auto simp: AbslParseFlag_def AbslUnparseFlag_def)
qed

text \<open>Functions with the behaviour assumed, for the concrete case.\<close>

fun split_on :: "char \<Rightarrow> string \<Rightarrow> string list" where
  "split_on c [] = [[]]"
| "split_on c (x # xs) =
     (if x = c then [] # split_on c xs
      else case split_on c xs of [] \<Rightarrow> [[x]] | w # ws \<Rightarrow> (x # w) # ws)"

fun join_with :: "string list \<Rightarrow> string \<Rightarrow> string" where
  "join_with [] sep = []"
| "join_with [x] sep = x"
| "join_with (x # xs) sep = x @ sep @ join_with xs sep"

definition dec_value :: "string \<Rightarrow> nat" where
  "dec_value s = foldl (\<lambda>n c. 10 * n + (of_char c - 48)) 0 s"

definition dec_atoi :: "string \<Rightarrow> u64 option" where
  "dec_atoi s = (if s = [] \<or> 2 ^ 64 \<le> dec_value s then None else Some (dec_value s))"

lemma split_on_no: "c \<notin> set a \<Longrightarrow> split_on c a = [a]"
  by (induction a) auto

lemma split_on_app: "c \<notin> set a \<Longrightarrow> split_on c (a @ c # b) = a # split_on c b"
  by (induction a) auto

lemma split_on_join: "xs \<noteq> [] \<Longrightarrow> (\<And>x. x \<in> set xs \<Longrightarrow> c \<notin> set x) \<Longrightarrow> split_on c (join_with xs [c]) = xs"
  by (induction xs "[c]" rule: join_with.induct) (auto simp: split_on_no split_on_app)

lemma join_with_ne: "x \<in> set xs \<Longrightarrow> x \<noteq> [] \<Longrightarrow> join_with xs [c] \<noteq> []"
  by (induction xs "[c]" rule: join_with.induct) auto

lemma dec_value_to_string: "dec_value (to_string n) = n"
proof (induction n rule: to_string.induct)
  case (1 n)
  then show ?case
    by (subst to_string.simps) (simp add: dec_value_def split: if_splits)
qed

lemma peers_flag_roundtrip_witness:
  "AbslParseFlag split_on dec_atoi
     (AbslUnparseFlag join_with [(1, ''localhost:50051''), (12, ''localhost:50052'')]) [] =
   (None, [(1, ''localhost:50051''), (12, ''localhost:50052'')])"
  by (rule peers_flag_roundtrip)
     (auto simp: split_on_no split_on_app split_on_join join_with_ne dec_atoi_def dec_value_to_string omap_ok_def)

section \<open>Rounds do not share ports\<close>

definition uses_port :: "round_layout \<Rightarrow> u64 \<Rightarrow> bool" where
  "uses_port l p \<longleftrightarrow>
     (\<exists>a \<in> c_addr ` set (rl_configs l) \<union> set (rl_kv_addrs l) \<union> {rl_ctrl_addr l}.
        a = ''localhost:'' @ to_string p \<or> a = ''0.0.0.0:'' @ to_string p) \<or>
     p \<in> snd ` set (rl_tester l)"

lemma update_new: "k \<notin> fst ` set al \<Longrightarrow> AList.update k v al = al @ [(k, v)]"
  by (induction al) auto

lemma tester_ports_distinct:
  "distinct (map ri_id insts) \<Longrightarrow>
     tester_ports insts tp = map (\<lambda>(k, x). (ri_id x, add64 tp k)) (enumerate 0 insts)"
proof (induction insts rule: rev_induct)
  case (snoc x insts)
  have "ri_id x \<notin> fst ` set (map (\<lambda>(k, x). (ri_id x, add64 tp k)) (enumerate 0 insts))"
    using snoc.prems by (auto simp: enumerate_eq_zip dest: set_zip_rightD)
  with snoc show ?case by (simp add: tester_ports_def enumerate_append_eq update_new)
qed (simp add: tester_ports_def)

lemma tester_ports_local:
  assumes "tp + n < 2 ^ 64"
  shows "snd ` set (tester_ports (gen_local_instances n p) tp) = {tp + i |i. i < n}"
proof -
  have len: "length (gen_local_instances n p) = n" by (simp add: gen_local_instances_def)
  have "map snd (tester_ports (gen_local_instances n p) tp) =
      map (add64 tp) (map fst (enumerate 0 (gen_local_instances n p)))"
    using tester_ports_distinct [of "gen_local_instances n p" tp] local_ids [of n p]
    by (simp only: map_map distinct_upt) (simp add: comp_def split_beta)
  then have "set (map snd (tester_ports (gen_local_instances n p) tp)) = set (map (add64 tp) [0..<n])"
    by (simp only: map_fst_enumerate len add_0)
  then have "snd ` set (tester_ports (gen_local_instances n p) tp) = add64 tp ` {0..<n}" by simp
  also have "\<dots> = (\<lambda>i. tp + i) ` {0..<n}"
    by (rule image_cong) (use assms in \<open>auto simp: add64_def\<close>)
  also have "\<dots> = {tp + i |i. i < n}" unfolding image_def atLeast0LessThan by blast
  finally show ?thesis .
qed

lemma uses_port_create:
  assumes "55201 + (r + 1) * (n + 2) < 2 ^ 64" "51160 + r * 10 + n < 2 ^ 64"
  shows "uses_port (create_cluster r n) p \<longleftrightarrow>
    (\<exists>i<n. p = 50160 + r * 10 + i \<or> p = 51160 + r * 10 + i) \<or>
    p = 55200 + r * (n + 2) \<or> (\<exists>i<n. p = 55201 + r * (n + 2) + i)"
proof -
  have t: "snd ` set (rl_tester (create_cluster r n)) = {55201 + r * (n + 2) + i |i. i < n}"
    using tester_ports_local [of "55201 + r * (n + 2)" n] assms(1)
    by (simp add: create_cluster_def Let_def TESTER_BASE_def)
  have c: "c_addr ` set (rl_configs (create_cluster r n)) = (\<lambda>i. ''localhost:'' @ to_string (50160 + r * 10 + i)) ` {0..<n}"
    using assms(2) by (simp add: create_cluster_def Let_def gen_local_instances_def RAFT_BASE_def RAFT_STEP_def
        add64_def image_image)
  have k: "set (rl_kv_addrs (create_cluster r n)) = (\<lambda>i. ''localhost:'' @ to_string (51160 + r * 10 + i)) ` {0..<n}"
    using assms(2) by (simp add: create_cluster_def Let_def gen_local_instances_def RAFT_BASE_def RAFT_STEP_def
        kv_addrs_of_def KV_PORT_OFFSET_def add64_def image_image add.commute add.left_commute)
  have x: "rl_ctrl_addr (create_cluster r n) = ''0.0.0.0:'' @ to_string (55200 + r * (n + 2))"
    by (simp add: create_cluster_def Let_def CTRL_BASE_def)
  show ?thesis
    unfolding uses_port_def t c k x by auto
qed

text \<open>
  The ports of the benchmark rounds: two rounds share a port exactly when the cluster
  is larger than ten times their distance. Up to ten nodes all rounds are disjoint; from
  eleven nodes on, successive rounds are not.
\<close>

lemma rounds_share_ports:
  assumes "r < r'" "r' < 50" "n \<le> 1000"
  shows "(\<exists>p. uses_port (create_cluster r n) p \<and> uses_port (create_cluster r' n) p) \<longleftrightarrow> 10 * (r' - r) < n"
proof -
  have le: "(r' + 1) * (n + 2) \<le> 50 * 1002" "(r + 1) * (n + 2) \<le> r' * (n + 2)"
    using assms by (intro mult_le_mono; simp)+
  then have b: "55201 + (r' + 1) * (n + 2) < 2 ^ 64" "55201 + (r + 1) * (n + 2) < 2 ^ 64"
    by (simp_all add: algebra_simps)
  define u where "u = r * (n + 2)"
  define v where "v = r' * (n + 2)"
  have uv: "u + n + 2 \<le> v" using le(2) by (simp add: u_def v_def algebra_simps)
  have use: "uses_port (create_cluster r n) p \<longleftrightarrow>
      (\<exists>i<n. p = 50160 + r * 10 + i \<or> p = 51160 + r * 10 + i) \<or> p = 55200 + u \<or> (\<exists>i<n. p = 55201 + u + i)"
    "uses_port (create_cluster r' n) p \<longleftrightarrow>
      (\<exists>i<n. p = 50160 + r' * 10 + i \<or> p = 51160 + r' * 10 + i) \<or> p = 55200 + v \<or> (\<exists>i<n. p = 55201 + v + i)"
    for p
    using b assms uses_port_create [of r n p] uses_port_create [of r' n p] by (simp_all add: u_def v_def)
  show ?thesis
  proof
    assume "\<exists>p. uses_port (create_cluster r n) p \<and> uses_port (create_cluster r' n) p"
    then show "10 * (r' - r) < n" unfolding use using assms uv by auto
  next
    assume n: "10 * (r' - r) < n"
    have "50160 + r' * 10 = 50160 + r * 10 + 10 * (r' - r)" using assms(1) by simp
    with n have "uses_port (create_cluster r n) (50160 + r' * 10)" unfolding use by blast
    moreover have "uses_port (create_cluster r' n) (50160 + r' * 10)" unfolding use using n by fastforce
    ultimately show "\<exists>p. uses_port (create_cluster r n) p \<and> uses_port (create_cluster r' n) p" by blast
  qed
qed

lemma rounds_share_ports_witness:
  "\<not> (\<exists>p. uses_port (create_cluster 0 5) p \<and> uses_port (create_cluster 1 5) p) \<and>
   (\<exists>p. uses_port (create_cluster 0 11) p \<and> uses_port (create_cluster 1 11) p)"
  using rounds_share_ports [of 0 1 5] rounds_share_ports [of 0 1 11] by simp

end
