(* ===== verification/Msg_Queue.thy ===== *)
theory Msg_Queue
  imports Prelude
begin

text \<open>
  The blocking queue of \<open>src/inc/toolings/msg_queue.hpp\<close>: a monitor with two condition
  variables. A thread that calls \<open>enqueue\<close> or \<open>dequeue\<close> takes the mutex, evaluates the
  wait predicate, and either goes on or blocks; a blocked thread runs again after a
  notification (or a spurious wake-up) and evaluates the predicate again. \<open>close\<close> sets the
  flag before it takes the mutex, so it is two steps.

  \<open>pushed\<close> and \<open>popped\<close> are history variables: what went into and out of
  \<open>queue\<close>, in order.

  Shown: the queue is first-in first-out without loss or duplication, whatever the
  interleaving; it never holds more than its bound; and, as long as nobody uses
  \<open>try_dequeue\<close>, no thread sleeps although it could go on. \<open>try_dequeue\<close> does not
  notify the producers: the last theorem has a producer that sleeps beside an empty queue.
\<close>

section \<open>State\<close>

record 'a MessageQueue =
  buffer_size :: nat
  closed :: bool
  queue :: "'a list"

text \<open>
  Where a thread stands in its call: blocked in one of the three waits, notified and about
  to take the mutex again, between the two steps of \<open>close\<close>, or back with a result.
\<close>

datatype 'a mq_thread =
    Idle
  | ProdBlocked 'a | ProdWoken 'a
  | HandBlocked | HandWoken
  | ConBlocked | ConWoken
  | Closing
  | Enqueued
  | Got 'a
  | GotNone
  | GotDefault

record 'a mq_sys =
  mq :: "'a MessageQueue"
  th :: "nat \<Rightarrow> 'a mq_thread"
  pushed :: "'a list"
  popped :: "'a list"

definition mq_new :: "nat \<Rightarrow> 'a MessageQueue" where
  "mq_new n = \<lparr>buffer_size = n, closed = False, queue = []\<rparr>"

definition mq_start :: "nat \<Rightarrow> 'a mq_sys" where
  "mq_start n = \<lparr>mq = mq_new n, th = (\<lambda>_. Idle), pushed = [], popped = []\<rparr>"

section \<open>Operations\<close>

definition prod_ready :: "'a MessageQueue \<Rightarrow> bool" where
  "prod_ready q =
     (if buffer_size q = 0 then queue q = [] \<or> closed q
      else length (queue q) < buffer_size q \<or> closed q)"

definition hand_ready :: "'a MessageQueue \<Rightarrow> bool" where
  "hand_ready q = (queue q = [] \<or> closed q)"

definition con_ready :: "'a MessageQueue \<Rightarrow> bool" where
  "con_ready q = (queue q \<noteq> [] \<or> closed q)"

text \<open>\<open>notify_all\<close> on each of the two condition variables.\<close>

fun wake_prod :: "'a mq_thread \<Rightarrow> 'a mq_thread" where
  "wake_prod (ProdBlocked v) = ProdWoken v"
| "wake_prod HandBlocked = HandWoken"
| "wake_prod s = s"

fun wake_con :: "'a mq_thread \<Rightarrow> 'a mq_thread" where
  "wake_con ConBlocked = ConWoken"
| "wake_con s = s"

text \<open>
  \<open>enqueue\<close> from its first evaluation of the predicate on: block, return because the
  queue is closed, or push, notify, and in the unbuffered case wait for the hand-over.
\<close>

definition enqueue :: "nat \<Rightarrow> 'a \<Rightarrow> 'a mq_sys \<Rightarrow> 'a mq_sys" where
  "enqueue t v s =
     (let q = mq s in
      if \<not> prod_ready q then s\<lparr>th := (th s)(t := ProdBlocked v)\<rparr>
      else if closed q then s\<lparr>th := (th s)(t := Enqueued)\<rparr>
      else
        let q' = q\<lparr>queue := queue q @ [v]\<rparr>;
            s' = s\<lparr>mq := q', th := wake_con \<circ> th s, pushed := pushed s @ [v]\<rparr>
        in if buffer_size q = 0 \<and> \<not> hand_ready q'
           then s'\<lparr>th := (th s')(t := HandBlocked)\<rparr>
           else s'\<lparr>th := (th s')(t := Enqueued)\<rparr>)"

definition enqueue_handed :: "nat \<Rightarrow> 'a mq_sys \<Rightarrow> 'a mq_sys" where
  "enqueue_handed t s =
     s\<lparr>th := (th s)(t := (if hand_ready (mq s) then Enqueued else HandBlocked))\<rparr>"

definition dequeue :: "nat \<Rightarrow> 'a mq_sys \<Rightarrow> 'a mq_sys" where
  "dequeue t s =
     (let q = mq s in
      if \<not> con_ready q then s\<lparr>th := (th s)(t := ConBlocked)\<rparr>
      else if closed q then s\<lparr>th := (th s)(t := GotDefault)\<rparr>
      else
        let v = hd (queue q) in
        s\<lparr>mq := q\<lparr>queue := tl (queue q)\<rparr>, popped := popped s @ [v],
          th := (wake_prod \<circ> th s)(t := Got v)\<rparr>)"

definition try_dequeue :: "nat \<Rightarrow> 'a mq_sys \<Rightarrow> 'a mq_sys" where
  "try_dequeue t s =
     (let q = mq s in
      if queue q = [] then s\<lparr>th := (th s)(t := GotNone)\<rparr>
      else
        let v = hd (queue q) in
        s\<lparr>mq := q\<lparr>queue := tl (queue q)\<rparr>, popped := popped s @ [v], th := (th s)(t := Got v)\<rparr>)"

definition close_flag :: "nat \<Rightarrow> 'a mq_sys \<Rightarrow> 'a mq_sys" where
  "close_flag t s =
     (if closed (mq s) then s\<lparr>th := (th s)(t := Idle)\<rparr>
      else s\<lparr>mq := (mq s)\<lparr>closed := True\<rparr>, th := (th s)(t := Closing)\<rparr>)"

definition close_notify :: "nat \<Rightarrow> 'a mq_sys \<Rightarrow> 'a mq_sys" where
  "close_notify t s = s\<lparr>th := (wake_con \<circ> wake_prod \<circ> th s)(t := Idle)\<rparr>"

definition mq_empty :: "'a mq_sys \<Rightarrow> bool" where
  "mq_empty s = (queue (mq s) = [])"

definition mq_size :: "'a mq_sys \<Rightarrow> nat" where
  "mq_size s = length (queue (mq s))"

text \<open>
  The move assignment between two queues: contents and bound move, the source is emptied,
  unbounded again and open; the flag of the target is kept.
\<close>

definition mq_move :: "'a MessageQueue \<Rightarrow> 'a MessageQueue \<Rightarrow> 'a MessageQueue \<times> 'a MessageQueue" where
  "mq_move target source =
     (target\<lparr>queue := queue source, buffer_size := buffer_size source\<rparr>,
      source\<lparr>queue := [], buffer_size := 0, closed := False\<rparr>)"

text \<open>
  What \<open>enqueue\<close> and \<open>dequeue\<close> do to the queue alone, for the components that use it:
  \<open>None\<close> while the caller has to wait; a closed queue takes nothing and gives the default
  value \<open>d\<close>.
\<close>

definition mq_put :: "'a \<Rightarrow> 'a MessageQueue \<Rightarrow> 'a MessageQueue option" where
  "mq_put v q =
     (if \<not> prod_ready q then None
      else if closed q then Some q
      else Some (q\<lparr>queue := queue q @ [v]\<rparr>))"

definition mq_take :: "'a \<Rightarrow> 'a MessageQueue \<Rightarrow> ('a \<times> 'a MessageQueue) option" where
  "mq_take d q =
     (if \<not> con_ready q then None
      else if closed q then Some (d, q)
      else Some (hd (queue q), q\<lparr>queue := tl (queue q)\<rparr>))"

section \<open>Threads\<close>

datatype 'a mq_event =
    CallEnqueue nat 'a
  | CallDequeue nat
  | CallTryDequeue nat
  | CallClose nat
  | Resume nat
  | Spurious nat
  | Return nat

text \<open>A woken thread takes the mutex and evaluates its predicate again.\<close>

definition mq_resume :: "nat \<Rightarrow> 'a mq_sys \<Rightarrow> 'a mq_sys option" where
  "mq_resume t s =
     (case th s t of
        ProdWoken v \<Rightarrow> Some (enqueue t v s)
      | HandWoken \<Rightarrow> Some (enqueue_handed t s)
      | ConWoken \<Rightarrow> Some (dequeue t s)
      | Closing \<Rightarrow> Some (close_notify t s)
      | _ \<Rightarrow> None)"

fun returned :: "'a mq_thread \<Rightarrow> bool" where
  "returned Enqueued = True"
| "returned (Got _) = True"
| "returned GotNone = True"
| "returned GotDefault = True"
| "returned _ = False"

fun mq_exec :: "'a mq_event \<Rightarrow> 'a mq_sys \<Rightarrow> 'a mq_sys option" where
  "mq_exec (CallEnqueue t v) s = (case th s t of Idle \<Rightarrow> Some (enqueue t v s) | _ \<Rightarrow> None)"
| "mq_exec (CallDequeue t) s = (case th s t of Idle \<Rightarrow> Some (dequeue t s) | _ \<Rightarrow> None)"
| "mq_exec (CallTryDequeue t) s = (case th s t of Idle \<Rightarrow> Some (try_dequeue t s) | _ \<Rightarrow> None)"
| "mq_exec (CallClose t) s = (case th s t of Idle \<Rightarrow> Some (close_flag t s) | _ \<Rightarrow> None)"
| "mq_exec (Resume t) s = mq_resume t s"
| "mq_exec (Spurious t) s = Some (s\<lparr>th := (th s)(t := wake_con (wake_prod (th s t)))\<rparr>)"
| "mq_exec (Return t) s = (if returned (th s t) then Some (s\<lparr>th := (th s)(t := Idle)\<rparr>) else None)"

definition mq_step :: "'a mq_sys \<Rightarrow> 'a mq_event \<Rightarrow> 'a mq_sys \<Rightarrow> bool" where
  "mq_step s e s' \<longleftrightarrow> mq_exec e s = Some s'"

text \<open>The steps of a program that never calls \<open>try_dequeue\<close>.\<close>

fun blocking_only :: "'a mq_event \<Rightarrow> bool" where
  "blocking_only (CallTryDequeue _) = False"
| "blocking_only _ = True"

definition mq_blocking_step :: "'a mq_sys \<Rightarrow> 'a mq_event \<Rightarrow> 'a mq_sys \<Rightarrow> bool" where
  "mq_blocking_step s e s' \<longleftrightarrow> blocking_only e \<and> mq_exec e s = Some s'"

text \<open>A full queue, a producer waiting for room, and a consumer that polls.\<close>

definition stuck_producer :: "nat mq_event list" where
  "stuck_producer = [CallEnqueue 1 7, Return 1, CallEnqueue 1 8, CallTryDequeue 2]"

text \<open>A producer fills a queue of one, blocks, and is woken by the consumer.\<close>

definition hand_over :: "nat mq_event list" where
  "hand_over = [CallEnqueue 1 7, Return 1, CallEnqueue 1 8, CallDequeue 2, Resume 1, CallDequeue 3,
     CallDequeue 4]"

section \<open>The channel its users see\<close>

text \<open>
  The contract the users of the queue rely on: what a history of values handed over and taken
  out says about the contents.
\<close>

locale fifo_channel =
  fixes put :: "'a \<Rightarrow> 'q \<Rightarrow> 'q option" and take_one :: "'q \<Rightarrow> ('a \<times> 'q) option"
    and items :: "'q \<Rightarrow> 'a list" and is_closed :: "'q \<Rightarrow> bool"
  assumes put_open: "put x q = Some q' \<Longrightarrow> \<not> is_closed q \<Longrightarrow> items q' = items q @ [x] \<and> \<not> is_closed q'"
    and put_closed: "put x q = Some q' \<Longrightarrow> is_closed q \<Longrightarrow> q' = q"
    and take_open: "take_one q = Some (x, q') \<Longrightarrow> \<not> is_closed q \<Longrightarrow> items q = x # items q' \<and> \<not> is_closed q'"
    and take_closed: "take_one q = Some (x, q') \<Longrightarrow> is_closed q \<Longrightarrow> q' = q"
begin

lemma put_hist:
  "hist = tk @ items q \<Longrightarrow> put x q = Some q' \<Longrightarrow>
     hist @ (if is_closed q then [] else [x]) = tk @ items q'"
  using put_open [of x q q'] put_closed [of x q q'] by (cases "is_closed q") auto

lemma take_hist:
  "hist = tk @ items q \<Longrightarrow> take_one q = Some (x, q') \<Longrightarrow>
     hist = (tk @ (if is_closed q then [] else [x])) @ items q'"
  using take_open [of q x q'] take_closed [of q x q'] by (cases "is_closed q") auto

lemma closed_kept: "put x q = Some q' \<Longrightarrow> is_closed q' = is_closed q"
  "take_one q = Some (y, q') \<Longrightarrow> is_closed q' = is_closed q"
  using put_open put_closed take_open take_closed by blast+

end

interpretation chan: fifo_channel mq_put "mq_take d" queue closed for d
  by unfold_locales (auto simp: mq_put_def mq_take_def con_ready_def split: if_splits)

text \<open>The two calls of a thread do this to the queue, and nothing while they block.\<close>

lemma enqueue_put: "mq (enqueue t v s) = (case mq_put v (mq s) of None \<Rightarrow> mq s | Some q \<Rightarrow> q)"
  by (simp add: enqueue_def mq_put_def Let_def)

lemma dequeue_take: "mq (dequeue t s) = (case mq_take d (mq s) of None \<Rightarrow> mq s | Some (x, q) \<Rightarrow> q)"
  by (simp add: dequeue_def mq_take_def Let_def)

section \<open>First in, first out, within the bound\<close>

definition mq_inv :: "nat \<Rightarrow> 'a mq_sys \<Rightarrow> bool" where
  "mq_inv n s \<longleftrightarrow>
     buffer_size (mq s) = n \<and> pushed s = popped s @ queue (mq s) \<and>
     length (queue (mq s)) \<le> max n 1"

lemmas mq_op_defs = enqueue_def enqueue_handed_def dequeue_def try_dequeue_def close_flag_def
  close_notify_def mq_resume_def Let_def

lemma mq_inv_step: "mq_inv n s \<Longrightarrow> mq_exec e s = Some s' \<Longrightarrow> mq_inv n s'"
  by (cases e)
    (auto simp: mq_inv_def mq_op_defs prod_ready_def con_ready_def split: if_splits mq_thread.splits)

interpretation mqi: transition_invariant "\<lambda>s. s = mq_start n" mq_step "mq_inv n" for n
proof
  show "mq_inv n s" if "s = mq_start n" for s :: "'a mq_sys"
    using that by (simp add: mq_inv_def mq_start_def mq_new_def)
  show "mq_inv n s'" if "mq_inv n s" "mq_step s e s'" for s s' :: "'a mq_sys" and e
    using that by (auto simp: mq_step_def intro: mq_inv_step)
qed

text \<open>
  C20: whatever the threads do, the values that have left the queue are, in order, the first
  of those that were put in, the rest are still in it, and it never holds more values than
  its bound (one, when it is unbuffered).
\<close>

theorem queue_fifo_bounded:
  assumes "reach (\<lambda>s. s = mq_start n) mq_step s"
  shows "pushed s = popped s @ queue (mq s) \<and> mq_size s \<le> max n 1"
  using mqi.reach_inv [OF assms] by (simp add: mq_inv_def mq_size_def)

theorem queue_fifo_bounded_witness:
  "\<exists>s. run_steps mq_exec hand_over (mq_start 1) = Some s \<and> popped s = [7, 8] \<and>
     pushed s = popped s @ queue (mq s) \<and> mq_size s \<le> max 1 1"
proof -
  have "case run_steps mq_exec hand_over (mq_start 1) of Some s \<Rightarrow> popped s = [7, 8] | None \<Rightarrow> False"
    by code_simp
  then obtain s where s: "run_steps mq_exec hand_over (mq_start 1) = Some s" "popped s = [7, 8]"
    by (auto split: option.splits)
  have "reach (\<lambda>s. s = mq_start 1) mq_step s"
    by (rule run_steps_reach [OF s(1)]) (auto simp: mq_step_def intro: reach_start)
  from queue_fifo_bounded [OF this] s show ?thesis by blast
qed

text \<open>
  A closed queue: \<open>enqueue\<close> returns at once and drops its value, \<open>dequeue\<close> returns a
  default value at once even when values are left, and neither changes the contents;
  \<open>try_dequeue\<close> still takes them out.
\<close>

lemma closed_queue_drops:
  assumes "closed (mq s)"
  shows "th (enqueue t v s) t = Enqueued \<and> mq (enqueue t v s) = mq s \<and> pushed (enqueue t v s) = pushed s \<and>
    th (dequeue t s) t = GotDefault \<and> mq (dequeue t s) = mq s \<and>
    (queue (mq s) \<noteq> [] \<longrightarrow> th (try_dequeue t s) t = Got (hd (queue (mq s))))"
  using assms by (simp add: enqueue_def dequeue_def try_dequeue_def prod_ready_def con_ready_def Let_def)

section \<open>No lost wake-up\<close>

text \<open>
  A blocked thread has nothing to do: its predicate is false, except between the two steps
  of a \<open>close\<close>.
\<close>

fun asleep_ok :: "'a MessageQueue \<Rightarrow> bool \<Rightarrow> 'a mq_thread \<Rightarrow> bool" where
  "asleep_ok q closing (ProdBlocked v) = (\<not> prod_ready q \<or> closed q \<and> closing)"
| "asleep_ok q closing HandBlocked = (\<not> hand_ready q \<or> closed q \<and> closing)"
| "asleep_ok q closing ConBlocked = (\<not> con_ready q \<or> closed q \<and> closing)"
| "asleep_ok q closing _ = True"

definition closing :: "'a mq_sys \<Rightarrow> bool" where
  "closing s \<longleftrightarrow> (\<exists>u. th s u = Closing)"

definition awake_inv :: "'a mq_sys \<Rightarrow> bool" where
  "awake_inv s \<longleftrightarrow> (\<forall>t. asleep_ok (mq s) (closing s) (th s t))"

lemma asleep_wake:
  "asleep_ok q c (wake_con (wake_prod x))"
  by (cases x) auto

lemma wake_closing [simp]: "wake_con x = Closing \<longleftrightarrow> x = Closing" "wake_prod x = Closing \<longleftrightarrow> x = Closing"
  by (cases x; simp)+

text \<open>A push wakes the consumers and takes nothing from the producers' wait.\<close>

lemma asleep_push:
  "asleep_ok q c x \<Longrightarrow> \<not> closed q \<Longrightarrow> asleep_ok (q\<lparr>queue := queue q @ [v]\<rparr>) c' (wake_con x)"
  by (cases x) (auto simp: prod_ready_def hand_ready_def split: if_splits)

lemma asleep_pop:
  "asleep_ok q c x \<Longrightarrow> \<not> closed q \<Longrightarrow> queue q \<noteq> [] \<Longrightarrow>
   asleep_ok (q\<lparr>queue := tl (queue q)\<rparr>) c' (wake_prod x)"
  by (cases x) (auto simp: con_ready_def)

lemma awake_update:
  assumes "awake_inv s" "th s t \<noteq> Closing" "asleep_ok (mq s) (closing s) x" "x \<noteq> Closing"
  shows "awake_inv (s\<lparr>th := (th s)(t := x)\<rparr>)"
proof -
  have "closing (s\<lparr>th := (th s)(t := x)\<rparr>) = closing s"
    using assms(2,4) unfolding closing_def by (auto; metis fun_upd_apply)
  with assms(1,3) show ?thesis by (simp add: awake_inv_def)
qed

lemma enqueue_awake:
  assumes "awake_inv s" "th s t \<noteq> Closing"
  shows "awake_inv (enqueue t v s)"
proof -
  let ?q = "mq s"
  let ?q' = "?q\<lparr>queue := queue ?q @ [v]\<rparr>"
  let ?s' = "s\<lparr>mq := ?q', th := wake_con \<circ> th s, pushed := pushed s @ [v]\<rparr>"
  consider (block) "\<not> prod_ready ?q" | (shut) "prod_ready ?q" "closed ?q"
    | (push) "prod_ready ?q" "\<not> closed ?q" by blast
  then show ?thesis
  proof cases
    case block
    with awake_update [OF assms, of "ProdBlocked v"] show ?thesis by (simp add: enqueue_def)
  next
    case shut
    with awake_update [OF assms, of Enqueued] show ?thesis by (simp add: enqueue_def)
  next
    case push
    have s': "awake_inv ?s'"
      using assms(1) push(2) by (auto simp: awake_inv_def intro: asleep_push)
    have t: "th ?s' t \<noteq> Closing" using assms(2) by simp
    have "awake_inv (?s'\<lparr>th := (th ?s')(t := Enqueued)\<rparr>)"
      by (rule awake_update [OF s' t]) simp_all
    moreover have "awake_inv (?s'\<lparr>th := (th ?s')(t := HandBlocked)\<rparr>)" if "\<not> hand_ready ?q'"
      using that by (intro awake_update [OF s' t]) simp_all
    ultimately show ?thesis using push by (simp add: enqueue_def Let_def)
  qed
qed

lemma dequeue_awake:
  assumes "awake_inv s" "th s t \<noteq> Closing"
  shows "awake_inv (dequeue t s)"
proof -
  let ?q = "mq s"
  consider (block) "\<not> con_ready ?q" | (shut) "con_ready ?q" "closed ?q"
    | (pop) "con_ready ?q" "\<not> closed ?q" by blast
  then show ?thesis
  proof cases
    case block
    with awake_update [OF assms, of ConBlocked] show ?thesis by (simp add: dequeue_def)
  next
    case shut
    with awake_update [OF assms, of GotDefault] show ?thesis by (simp add: dequeue_def)
  next
    case pop
    let ?v = "hd (queue ?q)"
    let ?s' = "s\<lparr>mq := ?q\<lparr>queue := tl (queue ?q)\<rparr>, popped := popped s @ [?v], th := wake_prod \<circ> th s\<rparr>"
    have "queue ?q \<noteq> []" using pop by (simp add: con_ready_def)
    with assms(1) pop(2) have "awake_inv ?s'" by (auto simp: awake_inv_def intro: asleep_pop)
    from awake_update [OF this, of t "Got ?v"] assms(2) pop show ?thesis
      by (simp add: dequeue_def Let_def)
  qed
qed

lemma close_awake:
  assumes "awake_inv s"
  shows "th s t = Idle \<Longrightarrow> awake_inv (close_flag t s)" "awake_inv (close_notify t s)"
proof -
  have c: "closing (s\<lparr>mq := (mq s)\<lparr>closed := True\<rparr>, th := (th s)(t := Closing)\<rparr>)"
    unfolding closing_def by (intro exI [of _ t]) simp
  have "asleep_ok ((mq s)\<lparr>closed := True\<rparr>) True x" for x by (cases x) simp_all
  with c have "awake_inv (s\<lparr>mq := (mq s)\<lparr>closed := True\<rparr>, th := (th s)(t := Closing)\<rparr>)"
    by (simp add: awake_inv_def)
  with awake_update [OF assms, of t Idle] show "th s t = Idle \<Longrightarrow> awake_inv (close_flag t s)"
    by (simp add: close_flag_def)
  show "awake_inv (close_notify t s)" by (simp add: awake_inv_def close_notify_def asleep_wake)
qed

lemma awake_inv_step:
  assumes "awake_inv s" "mq_blocking_step s e s'"
  shows "awake_inv s'"
proof (cases e)
  case (Spurious t)
  show ?thesis
  proof (cases "th s t = Closing")
    case True
    with Spurious assms show ?thesis by (auto simp: mq_blocking_step_def fun_upd_idem)
  next
    case False
    with Spurious assms awake_update [OF assms(1) False asleep_wake] show ?thesis
      by (auto simp: mq_blocking_step_def)
  qed
next
  case (Return t)
  with assms(2) have "returned (th s t)" "s' = s\<lparr>th := (th s)(t := Idle)\<rparr>"
    by (auto simp: mq_blocking_step_def split: if_splits)
  with awake_update [OF assms(1), of t Idle] show ?thesis by (cases "th s t") auto
next
  case (Resume t)
  with assms enqueue_awake [OF assms(1), of t] dequeue_awake [OF assms(1), of t]
    close_awake(2) [OF assms(1), of t] awake_update [OF assms(1), of t]
  show ?thesis
    by (auto simp: mq_blocking_step_def mq_resume_def enqueue_handed_def split: mq_thread.splits)
qed (use assms enqueue_awake [OF assms(1)] dequeue_awake [OF assms(1)] close_awake(1) [OF assms(1)]
    in \<open>auto simp: mq_blocking_step_def split: mq_thread.splits\<close>)

interpretation mqa: transition_invariant "\<lambda>s. s = mq_start n" mq_blocking_step awake_inv for n
proof
  show "awake_inv s" if "s = mq_start n" for s :: "'a mq_sys"
    using that by (simp add: awake_inv_def mq_start_def)
  show "awake_inv s'" if "awake_inv s" "mq_blocking_step s e s'" for s s' :: "'a mq_sys" and e
    using that by (rule awake_inv_step)
qed

text \<open>
  C21: no lost wake-up: when nobody uses \<open>try_dequeue\<close> and no \<open>close\<close> is under way, a
  thread that sleeps has nothing to do: a consumer sleeps only beside an empty open queue, a
  producer only beside a full open one, and one that waits for its hand-over only while the
  value has not been taken.
\<close>

theorem no_lost_wakeup:
  assumes "reach (\<lambda>s. s = mq_start n) mq_blocking_step s" "\<not> closing s"
  shows "(th s t = ConBlocked \<longrightarrow> queue (mq s) = [] \<and> \<not> closed (mq s)) \<and>
    (th s t = ProdBlocked v \<longrightarrow> \<not> prod_ready (mq s)) \<and>
    (th s t = HandBlocked \<longrightarrow> queue (mq s) \<noteq> [] \<and> \<not> closed (mq s))"
proof -
  have "asleep_ok (mq s) (closing s) (th s t)" using mqa.reach_inv [OF assms(1)] by (simp add: awake_inv_def)
  with assms(2) show ?thesis by (auto simp: con_ready_def hand_ready_def)
qed

theorem no_lost_wakeup_witness:
  "\<exists>s. run_steps mq_exec hand_over (mq_start 1) = Some s \<and> th s 4 = ConBlocked \<and>
     queue (mq s) = [] \<and> \<not> closed (mq s)"
proof -
  have "case run_steps mq_exec hand_over (mq_start 1) of
      Some s \<Rightarrow> th s 4 = ConBlocked \<and> \<not> closed (mq s) | None \<Rightarrow> False"
    by code_simp
  then obtain s where s: "run_steps mq_exec hand_over (mq_start 1) = Some s" "th s 4 = ConBlocked"
    "\<not> closed (mq s)"
    by (auto split: option.splits)
  have r: "reach (\<lambda>s. s = mq_start 1) mq_blocking_step s"
    by (rule run_steps_reach [OF s(1)])
      (auto simp: mq_blocking_step_def hand_over_def intro: reach_start)
  have "\<not> closing s"
    using s(1) by (auto simp: closing_def hand_over_def mq_start_def mq_new_def mq_op_defs prod_ready_def
        con_ready_def hand_ready_def split: if_splits)
  from no_lost_wakeup [OF r this, of 4] s show ?thesis by blast
qed

text \<open>
  \<open>try_dequeue\<close> loses a wake-up: it empties a full queue and the producer that was
  waiting for room stays asleep.
\<close>

theorem try_dequeue_no_notify:
  "case run_steps mq_exec stuck_producer (mq_start 1) of
     Some s \<Rightarrow> th s 1 = ProdBlocked 8 \<and> prod_ready (mq s) \<and> mq_empty s
   | None \<Rightarrow> False"
  by code_simp

end
