(* ===== verification/Net_Intercepter.thy ===== *)
theory Net_Intercepter
  imports Prelude
begin

text \<open>
  Fault injection and traffic counters on the gRPC channels between nodes:
  \<open>src/inc/common/utils/net_intercepter.hpp\<close>. The two static classes are one record each. A
  call of \<open>Intercept\<close> gets the hook point, the metadata of the call (a list of pairs, in
  the order the multimap is walked) and the sizes of the message's slices; it answers
  whether the call is hijacked (\<open>UNAVAILABLE\<close>) or proceeds. A \<open>std::set\<close> of strings is
  a set.

  Shown: every known node is in exactly one of the two groups, and \<open>disconnect\<close> and
  \<open>reconnect\<close> move it; which calls are cut in each mode, that the cut is symmetric, and how
  the two modes relate; what the counters hold.
\<close>

section \<open>Definitions\<close>

datatype NetInterceptionType = NETWORK_FAILURE | NETWORK_PARTITION

record NetInterceptor =
  ni_type :: NetInterceptionType
  rank1 :: "string set"
  rank2 :: "string set"

datatype hook = PRE_SEND_MESSAGE | OtherHook

datatype verdict = Hijack | Proceed

text \<open>The last value of a key in the metadata, as the loop over it leaves it.\<close>

fun meta_value :: "string \<Rightarrow> (string \<times> string) list \<Rightarrow> string option \<Rightarrow> string option" where
  "meta_value k [] acc = acc"
| "meta_value k ((k', v) # meta) acc = meta_value k meta (if k' = k then Some v else acc)"

definition is_cut :: "NetInterceptor \<Rightarrow> string \<Rightarrow> string \<Rightarrow> bool" where
  "is_cut s from_id to_id =
     (case ni_type s of
        NETWORK_FAILURE \<Rightarrow> from_id \<in> rank2 s \<or> to_id \<in> rank2 s
      | NETWORK_PARTITION \<Rightarrow>
          (from_id \<in> rank1 s \<and> to_id \<in> rank2 s) \<or> (to_id \<in> rank1 s \<and> from_id \<in> rank2 s))"

definition Intercept :: "NetInterceptor \<Rightarrow> hook \<Rightarrow> (string \<times> string) list \<Rightarrow> verdict" where
  "Intercept s h meta =
     (if h = PRE_SEND_MESSAGE then
        case (meta_value ''from'' meta None, meta_value ''to'' meta None) of
          (Some from_id, Some to_id) \<Rightarrow> if is_cut s from_id to_id then Hijack else Proceed
        | _ \<Rightarrow> Proceed
      else Proceed)"

definition disconnect :: "string \<Rightarrow> NetInterceptor \<Rightarrow> NetInterceptor" where
  "disconnect i s =
     (if i \<in> rank1 s then s\<lparr>rank1 := rank1 s - {i}, rank2 := insert i (rank2 s)\<rparr> else s)"

definition reconnect :: "string \<Rightarrow> NetInterceptor \<Rightarrow> NetInterceptor" where
  "reconnect i s =
     (if i \<in> rank2 s then s\<lparr>rank2 := rank2 s - {i}, rank1 := insert i (rank1 s)\<rparr> else s)"

definition setup_rank :: "string set \<Rightarrow> NetInterceptor \<Rightarrow> NetInterceptor" where
  "setup_rank ids s = s\<lparr>rank1 := ids, rank2 := {}\<rparr>"

definition set_type :: "NetInterceptionType \<Rightarrow> NetInterceptor \<Rightarrow> NetInterceptor" where
  "set_type t s = s\<lparr>ni_type := t\<rparr>"

text \<open>The metadata that \<open>create_context\<close> puts on a call, with \<open>std::to_string\<close> of the ids.\<close>

definition create_context :: "u64 \<Rightarrow> u64 \<Rightarrow> (string \<times> string) list" where
  "create_context from_id to_id = [(''from'', to_string from_id), (''to'', to_string to_id)]"

text \<open>
  The counters, of type \<open>std::atomic<size_t>\<close>: \<open>fetch_add\<close> wraps. \<open>Dump\<close> of the message
  gives its slices, or fails.
\<close>

record ByteCounter =
  total_bytes_sent :: u64
  total_rpc_count :: u64

definition count_message :: "hook \<Rightarrow> nat list option \<Rightarrow> ByteCounter \<Rightarrow> ByteCounter" where
  "count_message h dump c =
     (if h = PRE_SEND_MESSAGE then
        let c1 = (case dump of
            None \<Rightarrow> c
          | Some slices \<Rightarrow>
              c\<lparr>total_bytes_sent := add64 (total_bytes_sent c) (fold (\<lambda>n m. add64 m n) slices 0)\<rparr>)
        in c1\<lparr>total_rpc_count := add64 (total_rpc_count c1) 1\<rparr>
      else c)"

definition setup_rpc_monitor :: "ByteCounter \<Rightarrow> ByteCounter" where
  "setup_rpc_monitor c = c\<lparr>total_bytes_sent := 0, total_rpc_count := 0\<rparr>"

section \<open>Groups\<close>

text \<open>The invariant: every node of the world is in exactly one group.\<close>

definition groups_ok :: "string set \<Rightarrow> NetInterceptor \<Rightarrow> bool" where
  "groups_ok world s \<longleftrightarrow> rank1 s \<union> rank2 s = world \<and> rank1 s \<inter> rank2 s = {}"

datatype net_event = Disconnect string | Reconnect string | SetType NetInterceptionType

fun net_exec :: "net_event \<Rightarrow> NetInterceptor \<Rightarrow> NetInterceptor" where
  "net_exec (Disconnect i) s = disconnect i s"
| "net_exec (Reconnect i) s = reconnect i s"
| "net_exec (SetType t) s = set_type t s"

lemma groups_ok_setup: "groups_ok ids (setup_rank ids s)"
  by (simp add: groups_ok_def setup_rank_def)

lemma groups_ok_exec: "groups_ok w s \<Longrightarrow> groups_ok w (net_exec e s)"
  by (cases e) (auto simp: groups_ok_def disconnect_def reconnect_def set_type_def)

lemma groups_ok_fold: "groups_ok w s \<Longrightarrow> groups_ok w (fold net_exec es s)"
  by (induction es arbitrary: s) (auto intro: groups_ok_exec)

text \<open>Whether a node is disconnected after a sequence of commands: its last command decides.\<close>

fun cut_after :: "string \<Rightarrow> net_event list \<Rightarrow> bool \<Rightarrow> bool" where
  "cut_after i [] b = b"
| "cut_after i (Disconnect j # es) b = cut_after i es (if j = i then True else b)"
| "cut_after i (Reconnect j # es) b = cut_after i es (if j = i then False else b)"
| "cut_after i (SetType t # es) b = cut_after i es b"

lemma rank2_fold:
  assumes "groups_ok w s" "i \<in> w"
  shows "i \<in> rank2 (fold net_exec es s) \<longleftrightarrow> cut_after i es (i \<in> rank2 s)"
  using assms
proof (induction i es "i \<in> rank2 s" arbitrary: s rule: cut_after.induct)
  case (2 i j es)
  have "i \<in> rank2 (disconnect j s) \<longleftrightarrow> (if j = i then True else i \<in> rank2 s)"
    using 2(2,3) by (auto simp: disconnect_def groups_ok_def)
  with 2(1) [of "disconnect j s"] groups_ok_exec [OF 2(2), of "Disconnect j"] 2(3) show ?case by simp
next
  case (3 i j es)
  have "i \<in> rank2 (reconnect j s) \<longleftrightarrow> (if j = i then False else i \<in> rank2 s)"
    using 3(2,3) by (auto simp: reconnect_def groups_ok_def)
  with 3(1) [of "reconnect j s"] groups_ok_exec [OF 3(2), of "Reconnect j"] 3(3) show ?case by simp
next
  case (4 i t es)
  with groups_ok_exec [OF 4(2), of "SetType t"] show ?case by (simp add: set_type_def)
qed simp

lemma intercept_create_context:
  "Intercept s PRE_SEND_MESSAGE (create_context m n) = Hijack \<longleftrightarrow> is_cut s (to_string m) (to_string n)"
  by (simp add: Intercept_def create_context_def)

section \<open>Properties\<close>

text \<open>
  Fault injection: after the groups were set up for a world of nodes and any sequence
  of disconnections, reconnections and mode changes, a call between two of the nodes is cut
  exactly when: in mode failure, the last command on one of them was a disconnection; in
  mode partition, this holds of one of them and not of the other.
\<close>

lemma intercept_cuts:
  assumes "m \<in> ids" "n \<in> ids" "s = fold net_exec es (setup_rank (to_string ` ids) s0)"
  shows "Intercept s PRE_SEND_MESSAGE (create_context m n) = Hijack \<longleftrightarrow>
    (case ni_type s of
       NETWORK_FAILURE \<Rightarrow> cut_after (to_string m) es False \<or> cut_after (to_string n) es False
     | NETWORK_PARTITION \<Rightarrow> cut_after (to_string m) es False \<noteq> cut_after (to_string n) es False)"
proof -
  let ?w = "to_string ` ids"
  have ok: "groups_ok ?w s" unfolding assms(3) by (rule groups_ok_fold [OF groups_ok_setup])
  have in2: "to_string k \<in> rank2 s \<longleftrightarrow> cut_after (to_string k) es False" if "k \<in> ids" for k
    using rank2_fold [OF groups_ok_setup [of ?w s0], of "to_string k" es] that
    by (simp add: assms(3)) (simp add: setup_rank_def)
  have in1: "to_string k \<in> rank1 s \<longleftrightarrow> to_string k \<notin> rank2 s" if "k \<in> ids" for k
    using ok that by (auto simp: groups_ok_def)
  show ?thesis
    using in1 [OF assms(1)] in1 [OF assms(2)] in2 [OF assms(1)] in2 [OF assms(2)]
    by (auto simp: intercept_create_context is_cut_def split: NetInterceptionType.splits)
qed

lemma intercept_cuts_witness:
  "Intercept (fold net_exec [SetType NETWORK_PARTITION, Disconnect (to_string 2)]
      (setup_rank (to_string ` {1, 2, 3}) \<lparr>ni_type = NETWORK_FAILURE, rank1 = {}, rank2 = {}\<rparr>))
     PRE_SEND_MESSAGE (create_context 1 2) = Hijack"
proof -
  let ?init = "\<lparr>ni_type = NETWORK_FAILURE, rank1 = {}, rank2 = {}\<rparr>"
  let ?es = "[SetType NETWORK_PARTITION, Disconnect (to_string 2)]"
  let ?s = "fold net_exec ?es (setup_rank (to_string ` {1, 2, 3}) ?init)"
  have "to_string 1 \<noteq> to_string 2" using to_string_inj [of 1 2] by auto
  moreover have "ni_type ?s = NETWORK_PARTITION" by (simp add: set_type_def disconnect_def setup_rank_def)
  ultimately show ?thesis using intercept_cuts [of 1 "{1, 2, 3}" 2, OF _ _ refl, of ?es ?init] by auto
qed

text \<open>
  The cut is symmetric, a partition cuts no call that a failure would let pass (for
  nodes of the world), and the two modes differ exactly on the calls inside the disconnected
  group.
\<close>

lemma partition_refines_failure:
  assumes "rank1 s \<inter> rank2 s = {}" "{a, b} \<subseteq> rank1 s \<union> rank2 s"
  shows "is_cut s a b = is_cut s b a \<and>
    is_cut (set_type NETWORK_FAILURE s) a b =
      (is_cut (set_type NETWORK_PARTITION s) a b \<or> {a, b} \<subseteq> rank2 s)"
  using assms by (auto simp: is_cut_def set_type_def split: NetInterceptionType.splits)

text \<open>What a sequence of messages adds to the counters.\<close>

definition dumped :: "nat list option \<Rightarrow> nat" where
  "dumped d = (case d of None \<Rightarrow> 0 | Some slices \<Rightarrow> sum_list slices)"

lemma count_one:
  "total_rpc_count (count_message PRE_SEND_MESSAGE d c) = (total_rpc_count c + 1) mod 2 ^ 64"
  "total_bytes_sent (count_message PRE_SEND_MESSAGE d c) mod 2 ^ 64 = (total_bytes_sent c + dumped d) mod 2 ^ 64"
proof -
  show "total_rpc_count (count_message PRE_SEND_MESSAGE d c) = (total_rpc_count c + 1) mod 2 ^ 64"
    by (simp add: count_message_def add64_def Let_def split: option.splits)
  have "(a + fold (\<lambda>n m. add64 m n) ns 0) mod 2 ^ 64 = (a + sum_list ns) mod 2 ^ 64" for a ns
    by (metis sum_add64 mod_add_right_eq add_0)
  then show "total_bytes_sent (count_message PRE_SEND_MESSAGE d c) mod 2 ^ 64 =
      (total_bytes_sent c + dumped d) mod 2 ^ 64"
    by (cases d) (simp_all add: count_message_def add64_def dumped_def Let_def)
qed

lemma mod_sum_step: "a mod m = (b + x) mod m \<Longrightarrow> (a + y) mod m = (b + (x + y)) mod (m :: nat)"
  by (metis add.assoc mod_add_left_eq)

text \<open>
  The counters: after a reset, they hold modulo \<open>2 ^ 64\<close> the number of messages sent
  and the sum of the sizes of those that could be dumped.
\<close>

lemma counters_total:
  "total_rpc_count (fold (count_message PRE_SEND_MESSAGE) ds (setup_rpc_monitor c)) mod 2 ^ 64 =
     length ds mod 2 ^ 64 \<and>
   total_bytes_sent (fold (count_message PRE_SEND_MESSAGE) ds (setup_rpc_monitor c)) mod 2 ^ 64 =
     sum_list (map dumped ds) mod 2 ^ 64"
proof (induction ds rule: rev_induct)
  case Nil
  then show ?case by (simp add: setup_rpc_monitor_def)
next
  case (snoc d ds)
  let ?c = "fold (count_message PRE_SEND_MESSAGE) ds (setup_rpc_monitor c)"
  from snoc mod_sum_step [of "total_rpc_count ?c" "2 ^ 64" 0 "length ds" 1]
    mod_sum_step [of "total_bytes_sent ?c" "2 ^ 64" 0 "sum_list (map dumped ds)" "dumped d"]
    count_one(2) [of d ?c]
  show ?case by (simp add: count_one(1))
qed

end
