(* ===== verification/Raft_Wrapper.thy ===== *)
theory Raft_Wrapper
  imports Cluster_Config Msg_Queue Net_Intercepter Raft_Node
begin

text \<open>
  The process around a Raft node: \<open>src/inc/toolings/raft_wrapper.hpp\<close>, the tester service
  that the test controller and the benchmarks drive, and \<open>connect_peers\<close> of
  \<open>src/inc/rafty/impl/raft.ipp\<close>. \<open>Wrapper\<close> holds the object's fields, the Raft node, the
  queue of applied results, and the static state of the two interceptors. Each RPC is a
  function on it; \<open>w_exec\<close> composes them with the threads of the object: the applier of an
  open \<open>Apply\<close> stream and the shutdown helper; between their steps the Raft node may change
  in any way. \<open>written\<close> is what the stream has sent,
  \<open>enqueued\<close> and \<open>taken\<close> what went through the queue. \<open>Server::Shutdown\<close> of gRPC
  returns when no call is in progress, so it waits for the stream to end.

  Not here: sockets, the 500 ms pause, and the reply of the controller to \<open>ReportReady\<close>,
  which the code ignores.
\<close>

section \<open>State\<close>

record RPCStats =
  rs_bytes :: u64
  rs_count :: u64
  rs_id :: u64

record TState =
  ts_term :: u64
  ts_is_leader :: bool
  ts_id :: u64

record TProposalResult =
  tp_index :: u64
  tp_term :: u64
  tp_is_leader :: bool
  tp_id :: u64

record TApplyResult =
  ta_valid :: bool
  ta_data :: bytes
  ta_index :: u64
  ta_id :: u64

datatype applier_pc = NoStream | AppTop | AppDequeue | AppTaken ApplyResult | AppEnd

datatype shutdown_pc = NoHelper | HelperWaiting | HelperClosed | HelperExit

record Wrapper =
  w_id :: u64
  with_ctrl :: bool
  w_raft :: Raft
  w_config :: Config
  ready :: "ApplyResult MessageQueue"
  stop_flag :: bool
  shutdown_requested :: bool
  raft_server :: bool
  node_svr :: bool
  ctrl_svr :: bool
  run_threads :: nat
  live_workers :: "u64 list"
  net :: NetInterceptor
  rpc_bytes :: ByteCounter
  helper :: shutdown_pc
  applier :: applier_pc
  enqueued :: "ApplyResult list"
  taken :: "ApplyResult list"
  written :: "TApplyResult list"

definition RaftWrapper_ctrl ::
  "Config \<Rightarrow> ApplyResult MessageQueue \<Rightarrow> nat \<Rightarrow> NetInterceptor \<Rightarrow> ByteCounter \<Rightarrow> Wrapper" where
  "RaftWrapper_ctrl config q draw ni bc =
     \<lparr>w_id = c_id config, with_ctrl = True, w_raft = raft_init (c_id config) [] draw, w_config = config,
      ready = q, stop_flag = False, shutdown_requested = False, raft_server = False, node_svr = True,
      ctrl_svr = True, run_threads = 0, live_workers = [], net = ni, rpc_bytes = bc, helper = HelperWaiting,
      applier = NoStream, enqueued = [], taken = [], written = []\<rparr>"

text \<open>Without a controller the id of the tester replies and the stop flag are never set.\<close>

definition RaftWrapper_plain ::
  "u64 \<Rightarrow> bool \<Rightarrow> Config \<Rightarrow> ApplyResult MessageQueue \<Rightarrow> nat \<Rightarrow> NetInterceptor \<Rightarrow> ByteCounter \<Rightarrow> Wrapper" where
  "RaftWrapper_plain junk_id junk_stop config q draw ni bc =
     (RaftWrapper_ctrl config q draw ni bc)
       \<lparr>w_id := junk_id, stop_flag := junk_stop, with_ctrl := False, node_svr := False,
        ctrl_svr := False, helper := NoHelper\<rparr>"

section \<open>The tester service\<close>

definition start_server :: "Wrapper \<Rightarrow> Wrapper" where
  "start_server w = w\<lparr>raft_server := True\<rparr>"

definition stop_server :: "Wrapper \<Rightarrow> Wrapper" where
  "stop_server w = w\<lparr>raft_server := False\<rparr>"

definition connect_peers :: "Config \<Rightarrow> Raft \<Rightarrow> Raft" where
  "connect_peers config r =
     r\<lparr>peers := fold (\<lambda>(i, a). AList.update i True) (c_peer_addrs config) (peers r)\<rparr>"

definition fail_type_of :: "int \<Rightarrow> NetInterceptionType" where
  "fail_type_of failure =
     (if failure = 0 then NETWORK_FAILURE
      else if failure = 1 then NETWORK_PARTITION
      else NETWORK_FAILURE)"

definition Prepare :: "u64 list \<Rightarrow> int \<Rightarrow> Wrapper \<Rightarrow> bool \<times> Wrapper" where
  "Prepare world failure w =
     (True, w\<lparr>net := set_type (fail_type_of failure) (setup_rank (to_string ` set world) (net w)),
             rpc_bytes := setup_rpc_monitor (rpc_bytes w)\<rparr>)"

text \<open>
  \<open>connect_peers\<close> followed by \<open>run\<close>. A worker of a peer that is there already is replaced; when
  its thread was not joined by \<open>kill\<close>, its destructor calls \<open>std::terminate\<close>: \<open>None\<close>.
  \<open>live_workers\<close> are the peers whose worker threads are to be joined.
\<close>

definition run_node :: "Wrapper \<Rightarrow> Wrapper option" where
  "run_node w =
     (let ps = map fst (c_peer_addrs (w_config w))
      in if list_ex (\<lambda>p. p \<in> set (live_workers w)) ps then None
         else Some (w\<lparr>w_raft := connect_peers (w_config w) (w_raft w), live_workers := ps @ live_workers w,
                      run_threads := run_threads w + 1\<rparr>))"

definition kill_node :: "Wrapper \<Rightarrow> Wrapper" where
  "kill_node w = w\<lparr>w_raft := kill (w_raft w), live_workers := []\<rparr>"

definition Run_rpc :: "Wrapper \<Rightarrow> (bool \<times> Wrapper) option" where
  "Run_rpc w = map_option (\<lambda>w'. (True, w')) (run_node w)"

definition Kill_rpc :: "Wrapper \<Rightarrow> bool \<times> Wrapper" where
  "Kill_rpc w = (True, (stop_server (kill_node (w\<lparr>stop_flag := True\<rparr>)))\<lparr>shutdown_requested := True\<rparr>)"

definition Disconnect_rpc :: "u64 list \<Rightarrow> Wrapper \<Rightarrow> bool \<times> Wrapper" where
  "Disconnect_rpc ids w = (True, w\<lparr>net := fold (\<lambda>i. disconnect (to_string i)) ids (net w)\<rparr>)"

definition Reconnect_rpc :: "u64 list \<Rightarrow> Wrapper \<Rightarrow> bool \<times> Wrapper" where
  "Reconnect_rpc ids w = (True, w\<lparr>net := fold (\<lambda>i. reconnect (to_string i)) ids (net w)\<rparr>)"

definition GetRPCStats :: "Wrapper \<Rightarrow> RPCStats" where
  "GetRPCStats w =
     \<lparr>rs_bytes = total_bytes_sent (rpc_bytes w), rs_count = total_rpc_count (rpc_bytes w), rs_id = w_id w\<rparr>"

definition GetState :: "Wrapper \<Rightarrow> TState" where
  "GetState w =
     (let st = get_state (w_raft w)
      in \<lparr>ts_term = st_term st, ts_is_leader = st_is_leader st, ts_id = w_id w\<rparr>)"

definition proposal_reply :: "u64 \<Rightarrow> ProposalResult \<Rightarrow> TProposalResult" where
  "proposal_reply i r =
     \<lparr>tp_index = pr_index r, tp_term = pr_term r, tp_is_leader = pr_is_leader r, tp_id = i\<rparr>"

definition Propose_rpc :: "bytes \<Rightarrow> Wrapper \<Rightarrow> TProposalResult \<times> Wrapper" where
  "Propose_rpc data w =
     (case propose data (w_raft w) of (r, s) \<Rightarrow> (proposal_reply (w_id w) r, w\<lparr>w_raft := s\<rparr>))"

definition ProposeSync_rpc :: "bytes \<Rightarrow> int \<Rightarrow> (int \<times> Raft) list \<Rightarrow> Wrapper \<Rightarrow> TProposalResult option \<times> Wrapper" where
  "ProposeSync_rpc data t0 obs w =
     (case propose_sync data t0 obs (w_raft w) of
        (r, s) \<Rightarrow> (map_option (proposal_reply (w_id w)) r, w\<lparr>w_raft := s\<rparr>))"

section \<open>Threads\<close>

text \<open>\<open>Raft::apply\<close> on the queue: \<open>None\<close> while the producer has to wait.\<close>

definition enqueue_result :: "ApplyResult \<Rightarrow> Wrapper \<Rightarrow> Wrapper option" where
  "enqueue_result r w =
     (case mq_put r (ready w) of
        None \<Rightarrow> None
      | Some q \<Rightarrow> Some (w\<lparr>ready := q, enqueued := enqueued w @ (if closed (ready w) then [] else [r])\<rparr>))"

text \<open>What \<open>dequeue\<close> on the queue gives: \<open>None\<close> while the consumer has to wait.\<close>

definition default_result :: ApplyResult where
  "default_result = \<lparr>ar_valid = False, ar_data = [], ar_index = 0\<rparr>"

definition dequeue_result :: "Wrapper \<Rightarrow> (ApplyResult \<times> Wrapper) option" where
  "dequeue_result w =
     (case mq_take default_result (ready w) of
        None \<Rightarrow> None
      | Some (r, q) \<Rightarrow>
          Some (r, w\<lparr>ready := q, taken := taken w @ (if closed (ready w) then [] else [r])\<rparr>))"

definition tester_result :: "u64 \<Rightarrow> ApplyResult \<Rightarrow> TApplyResult" where
  "tester_result i r = \<lparr>ta_valid = ar_valid r, ta_data = ar_data r, ta_index = ar_index r, ta_id = i\<rparr>"

text \<open>
  The loop of \<open>applier\<close>: the test at the top, the (possibly blocking) \<open>dequeue\<close>, and the
  rest of the body.
\<close>

definition applier_step :: "Wrapper \<Rightarrow> Wrapper option" where
  "applier_step w =
     (case applier w of
        AppTop \<Rightarrow> Some (w\<lparr>applier := (if stop_flag w then AppEnd else AppDequeue)\<rparr>)
      | AppDequeue \<Rightarrow>
          (case dequeue_result w of None \<Rightarrow> None | Some (r, w') \<Rightarrow> Some (w'\<lparr>applier := AppTaken r\<rparr>))
      | AppTaken r \<Rightarrow>
          if stop_flag w then Some (w\<lparr>applier := AppEnd\<rparr>)
          else if ar_valid r
               then Some (w\<lparr>written := written w @ [tester_result (w_id w) r], applier := AppTop\<rparr>)
               else Some (w\<lparr>applier := AppTop\<rparr>)
      | _ \<Rightarrow> None)"

definition stream_closed :: "Wrapper \<Rightarrow> bool" where
  "stream_closed w \<longleftrightarrow> applier w = NoStream \<or> applier w = AppEnd"

definition close_ready :: "Wrapper \<Rightarrow> Wrapper" where
  "close_ready w = w\<lparr>ready := (ready w)\<lparr>closed := True\<rparr>\<rparr>"

text \<open>The shutdown helper: wait for the request, close the queue, shut the tester server down.\<close>

definition helper_step :: "Wrapper \<Rightarrow> Wrapper option" where
  "helper_step w =
     (case helper w of
        HelperWaiting \<Rightarrow>
          if shutdown_requested w then Some ((close_ready w)\<lparr>helper := HelperClosed\<rparr>) else None
      | HelperClosed \<Rightarrow>
          if stream_closed w then Some (w\<lparr>node_svr := False, helper := HelperExit\<rparr>) else None
      | _ \<Rightarrow> None)"

text \<open>\<open>cleanup\<close>, before and after the join of the helper.\<close>

definition cleanup_request :: "Wrapper \<Rightarrow> Wrapper" where
  "cleanup_request w =
     (if with_ctrl w \<and> \<not> shutdown_requested w then w\<lparr>shutdown_requested := True\<rparr> else w)"

definition cleanup_finish :: "Wrapper \<Rightarrow> Wrapper option" where
  "cleanup_finish w =
     (if helper w = NoHelper \<or> helper w = HelperExit
      then Some (close_ready (w\<lparr>node_svr := False, ctrl_svr := False\<rparr>)) else None)"

datatype w_event =
    WPrepare "u64 list" int
  | WRun
  | WKill
  | WDisconnect "u64 list"
  | WReconnect "u64 list"
  | WPropose bytes
  | WRaft Raft
  | WStartServer
  | WApply
  | WEnqueue ApplyResult
  | WApplier
  | WHelper
  | WCleanup
  | WCleanupFinish

fun w_exec :: "w_event \<Rightarrow> Wrapper \<Rightarrow> Wrapper option" where
  "w_exec (WPrepare world ft) w = Some (snd (Prepare world ft w))"
| "w_exec WRun w = map_option snd (Run_rpc w)"
| "w_exec WKill w = Some (snd (Kill_rpc w))"
| "w_exec (WDisconnect ids) w = Some (snd (Disconnect_rpc ids w))"
| "w_exec (WReconnect ids) w = Some (snd (Reconnect_rpc ids w))"
| "w_exec (WPropose d) w = Some (snd (Propose_rpc d w))"
| "w_exec (WRaft r) w = Some (w\<lparr>w_raft := r\<rparr>)"
| "w_exec WStartServer w = Some (start_server w)"
| "w_exec WApply w = (if applier w = NoStream \<and> node_svr w then Some (w\<lparr>applier := AppTop\<rparr>) else None)"
| "w_exec (WEnqueue r) w = enqueue_result r w"
| "w_exec WApplier w = applier_step w"
| "w_exec WHelper w = helper_step w"
| "w_exec WCleanup w = Some (cleanup_request w)"
| "w_exec WCleanupFinish w = cleanup_finish w"

definition w_step :: "Wrapper \<Rightarrow> w_event \<Rightarrow> Wrapper \<Rightarrow> bool" where
  "w_step w e w' \<longleftrightarrow> w_exec e w = Some w'"

text \<open>A new process: an open, empty queue.\<close>

definition w_start :: "Wrapper \<Rightarrow> bool" where
  "w_start w \<longleftrightarrow> (\<exists>config n draw ni bc. w = RaftWrapper_ctrl config (mq_new n) draw ni bc)"

section \<open>The stream\<close>

text \<open>
  The results taken from the queue are written as they come, except for the one the applier
  holds and the one it drops when it is told to stop.
\<close>

definition sent :: "u64 \<Rightarrow> ApplyResult list \<Rightarrow> TApplyResult list" where
  "sent i rs = map (tester_result i) (filter ar_valid rs)"

definition stream_at :: "applier_pc \<Rightarrow> ApplyResult list \<Rightarrow> ApplyResult list \<Rightarrow> bool" where
  "stream_at pc tk done_rs \<longleftrightarrow>
     (case pc of
        AppTaken r \<Rightarrow> tk = done_rs @ [r] \<or> tk = done_rs \<and> \<not> ar_valid r
      | AppEnd \<Rightarrow> tk = done_rs \<or> (\<exists>r. tk = done_rs @ [r])
      | _ \<Rightarrow> tk = done_rs)"

definition stream_inv :: "Wrapper \<Rightarrow> bool" where
  "stream_inv w \<longleftrightarrow>
     enqueued w = taken w @ queue (ready w) \<and>
     (\<exists>rs. written w = sent (w_id w) rs \<and> stream_at (applier w) (taken w) rs)"

definition helper_inv :: "Wrapper \<Rightarrow> bool" where
  "helper_inv w \<longleftrightarrow>
     helper w \<noteq> NoHelper \<and> with_ctrl w \<and>
     (helper w = HelperWaiting \<longrightarrow> node_svr w) \<and>
     (helper w \<noteq> HelperWaiting \<longrightarrow> closed (ready w)) \<and>
     (helper w = HelperExit \<longrightarrow> \<not> node_svr w \<and> stream_closed w)"

definition w_inv :: "Wrapper \<Rightarrow> bool" where
  "w_inv w \<longleftrightarrow> stream_inv w \<and> helper_inv w"

lemma stream_frame:
  assumes "stream_inv w" "enqueued w' = enqueued w" "taken w' = taken w" "queue (ready w') = queue (ready w)"
    "written w' = written w" "w_id w' = w_id w" "applier w' = applier w"
  shows "stream_inv w'"
  using assms by (simp add: stream_inv_def)

lemma sent_snoc: "sent i (rs @ [r]) = sent i rs @ (if ar_valid r then [tester_result i r] else [])"
  by (simp add: sent_def)

lemma stream_invI:
  "enqueued w = taken w @ queue (ready w) \<Longrightarrow> written w = sent (w_id w) rs \<Longrightarrow>
     stream_at (applier w) (taken w) rs \<Longrightarrow> stream_inv w"
  by (auto simp: stream_inv_def)

lemma stream_enqueue:
  assumes "stream_inv w" "enqueue_result r w = Some w'"
  shows "stream_inv w'"
proof -
  from assms(2) obtain q where q: "mq_put r (ready w) = Some q"
    "w' = w\<lparr>ready := q, enqueued := enqueued w @ (if closed (ready w) then [] else [r])\<rparr>"
    by (auto simp: enqueue_result_def split: option.splits)
  from assms(1) chan.put_hist [OF _ q(1), of "enqueued w" "taken w"] show ?thesis
    unfolding q(2) stream_inv_def by auto
qed

lemma take_default: "mq_take d q = Some (r, q') \<Longrightarrow> closed q \<Longrightarrow> r = d"
  by (auto simp: mq_take_def split: if_splits)

lemma stream_dequeue:
  assumes "enqueued w = taken w @ queue (ready w)" "written w = sent (w_id w) (taken w)"
    "dequeue_result w = Some (r, w1)"
  shows "stream_inv (w1\<lparr>applier := AppTaken r\<rparr>)"
proof -
  from assms(3) obtain q where q: "mq_take default_result (ready w) = Some (r, q)"
    "w1 = w\<lparr>ready := q, taken := taken w @ (if closed (ready w) then [] else [r])\<rparr>"
    by (auto simp: dequeue_result_def split: option.splits)
  have "closed (ready w) \<Longrightarrow> \<not> ar_valid r" using take_default [OF q(1)] by (simp add: default_result_def)
  with chan.take_hist [OF assms(1) q(1)] assms(2) show ?thesis
    unfolding q(2) by (intro stream_invI [where rs = "taken w"]) (auto simp: stream_at_def)
qed

lemma stream_applier:
  assumes inv: "stream_inv w" and step: "applier_step w = Some w'"
  shows "stream_inv w'"
proof -
  from inv obtain rs where rs: "enqueued w = taken w @ queue (ready w)"
    "written w = sent (w_id w) rs" "stream_at (applier w) (taken w) rs"
    by (auto simp: stream_inv_def)
  show ?thesis
  proof (cases "applier w")
    case AppTop
    with rs step show ?thesis by (auto simp: applier_step_def stream_inv_def stream_at_def)
  next
    case AppDequeue
    with rs have "written w = sent (w_id w) (taken w)" by (simp add: stream_at_def)
    from stream_dequeue [OF rs(1) this] step AppDequeue show ?thesis
      by (auto simp: applier_step_def split: option.splits)
  next
    case (AppTaken r)
    show ?thesis
    proof (cases "stop_flag w")
      case True
      with AppTaken rs step show ?thesis
        by (intro stream_invI [where rs = rs]) (auto simp: applier_step_def stream_at_def)
    next
      case False
      with AppTaken rs step show ?thesis
        by (intro stream_invI [where rs = "taken w"])
           (auto simp: applier_step_def stream_at_def sent_snoc split: if_splits)
    qed
  qed (use step in \<open>auto simp: applier_step_def\<close>)
qed

lemma stream_step:
  assumes inv: "stream_inv w" and step: "w_step w e w'"
  shows "stream_inv w'"
proof (cases e)
  case (WEnqueue r)
  with step stream_enqueue [OF inv] show ?thesis by (simp add: w_step_def)
next
  case WApplier
  with step stream_applier [OF inv] show ?thesis by (simp add: w_step_def)
next
  case WApply
  with step inv show ?thesis
    by (auto simp: w_step_def stream_inv_def stream_at_def split: if_splits)
qed (use step in \<open>auto simp: w_step_def Prepare_def Run_rpc_def run_node_def Kill_rpc_def kill_node_def stop_server_def start_server_def Let_def Disconnect_rpc_def
      Reconnect_rpc_def Propose_rpc_def helper_step_def cleanup_request_def cleanup_finish_def close_ready_def
      intro!: stream_frame [OF inv] split: if_splits shutdown_pc.splits prod.splits\<close>)

lemma dequeue_frame:
  "dequeue_result w = Some (r, w1) \<Longrightarrow> helper w1 = helper w \<and> with_ctrl w1 = with_ctrl w \<and>
     node_svr w1 = node_svr w \<and> closed (ready w1) = closed (ready w)"
  by (auto simp: dequeue_result_def chan.closed_kept split: option.splits)

lemma enqueue_frame:
  "enqueue_result r w = Some w1 \<Longrightarrow> helper w1 = helper w \<and> with_ctrl w1 = with_ctrl w \<and>
     node_svr w1 = node_svr w \<and> closed (ready w1) = closed (ready w) \<and> applier w1 = applier w"
  by (auto simp: enqueue_result_def chan.closed_kept split: option.splits)

lemma helper_frame:
  assumes "helper_inv w" "helper w' = helper w" "with_ctrl w' = with_ctrl w" "node_svr w' = node_svr w"
    "closed (ready w') = closed (ready w)" "applier w' = applier w"
  shows "helper_inv w'"
  using assms by (simp add: helper_inv_def stream_closed_def)

lemma helper_applier: "helper_inv w \<Longrightarrow> applier_step w = Some w' \<Longrightarrow> helper_inv w'"
  by (auto simp: applier_step_def helper_inv_def stream_closed_def
      split: applier_pc.splits option.splits if_splits dest!: dequeue_frame)

lemma helper_helper: "helper_inv w \<Longrightarrow> helper_step w = Some w' \<Longrightarrow> helper_inv w'"
  by (auto simp: helper_step_def close_ready_def helper_inv_def stream_closed_def
      split: shutdown_pc.splits if_splits)

lemma helper_step_inv:
  assumes inv: "helper_inv w" and step: "w_step w e w'"
  shows "helper_inv w'"
proof (cases e)
  case WApplier
  with step helper_applier [OF inv] show ?thesis by (simp add: w_step_def)
next
  case WHelper
  with step helper_helper [OF inv] show ?thesis by (simp add: w_step_def)
next
  case (WEnqueue r)
  with step show ?thesis by (auto simp: w_step_def dest!: enqueue_frame intro!: helper_frame [OF inv])
next
  case WApply
  with step inv show ?thesis by (auto simp: w_step_def helper_inv_def stream_closed_def split: if_splits)
next
  case WCleanupFinish
  with step inv show ?thesis
    by (auto simp: w_step_def cleanup_finish_def close_ready_def helper_inv_def stream_closed_def split: if_splits)
qed (use step in \<open>auto simp: w_step_def Prepare_def Run_rpc_def run_node_def Kill_rpc_def kill_node_def stop_server_def start_server_def Let_def Disconnect_rpc_def
      Reconnect_rpc_def Propose_rpc_def cleanup_request_def
      intro!: helper_frame [OF inv] split: if_splits prod.splits\<close>)

interpretation wi: transition_invariant w_start w_step w_inv
proof
  show "w_inv w" if "w_start w" for w
    using that by (auto simp: w_start_def w_inv_def stream_inv_def helper_inv_def RaftWrapper_ctrl_def
        mq_new_def stream_at_def sent_def)
  show "w_inv w'" if "w_inv w" "w_step w e w'" for w e w'
    using that stream_step helper_step_inv unfolding w_inv_def by blast
qed

section \<open>Properties\<close>

definition demo_wrapper :: Wrapper where
  "demo_wrapper = RaftWrapper_ctrl \<lparr>c_id = 1, c_addr = ''localhost:50051'', c_peer_addrs = [(2, ''localhost:50052'')]\<rparr>
     (mq_new 4) 300 \<lparr>ni_type = NETWORK_FAILURE, rank1 = {}, rank2 = {}\<rparr>
     \<lparr>total_bytes_sent = 0, total_rpc_count = 0\<rparr>"

lemma demo_w_reach: "run_steps w_exec es demo_wrapper = Some w \<Longrightarrow> reach w_start w_step w"
proof (erule run_steps_reach)
  have "w_start demo_wrapper" unfolding w_start_def demo_wrapper_def by blast
  then show "reach w_start w_step demo_wrapper" by (rule reach_start)
qed (simp add: w_step_def)

text \<open>
  The stream of applied results that the tester sees: it is a prefix of what the node
  applied, in that order, without gaps and without the invalid results, and every result
  carries the node's id. While the node is not stopped, only a result that the applier is
  about to write can be missing from what was taken out of the queue.
\<close>

lemma apply_stream_in_order:
  assumes "reach w_start w_step w"
  shows "enqueued w = taken w @ queue (ready w) \<and>
    (\<exists>k. written w = map (tester_result (w_id w)) (filter ar_valid (take k (enqueued w))) \<and>
       length (taken w) \<le> k + 1 \<and> k \<le> length (taken w) \<and> (applier w = AppTop \<longrightarrow> k = length (taken w)))"
proof -
  from wi.reach_inv [OF assms] obtain rs where rs: "enqueued w = taken w @ queue (ready w)"
    "written w = sent (w_id w) rs" "stream_at (applier w) (taken w) rs"
    by (auto simp: w_inv_def stream_inv_def)
  then have "taken w = rs \<or> (\<exists>r. taken w = rs @ [r]) \<and> applier w \<noteq> AppTop"
    by (auto simp: stream_at_def split: applier_pc.splits)
  with rs show ?thesis by (intro conjI exI [of _ "length rs"]) (auto simp: sent_def)
qed

definition stream_run :: "w_event list" where
  "stream_run = [WApply, WApplier, WEnqueue \<lparr>ar_valid = True, ar_data = ''a'', ar_index = 1\<rparr>,
     WEnqueue \<lparr>ar_valid = True, ar_data = ''b'', ar_index = 2\<rparr>, WApplier, WApplier]"

lemma apply_stream_in_order_witness:
  "\<exists>w. run_steps w_exec stream_run demo_wrapper = Some w \<and>
     written w = [\<lparr>ta_valid = True, ta_data = ''a'', ta_index = 1, ta_id = 1\<rparr>] \<and>
     enqueued w = taken w @ queue (ready w)"
proof -
  have "\<exists>w. run_steps w_exec stream_run demo_wrapper = Some w \<and>
      written w = [\<lparr>ta_valid = True, ta_data = ''a'', ta_index = 1, ta_id = 1\<rparr>]"
    by (rule case_option_ex) code_simp
  then obtain w where w: "run_steps w_exec stream_run demo_wrapper = Some w"
    "written w = [\<lparr>ta_valid = True, ta_data = ''a'', ta_index = 1, ta_id = 1\<rparr>]"
    by blast
  from apply_stream_in_order [OF demo_w_reach [OF w(1)]] w show ?thesis by blast
qed

lemma applier_ends:
  assumes "stop_flag w" "closed (ready w)"
  shows "\<exists>es w'. set es \<subseteq> {WApplier} \<and> run_steps w_exec es w = Some w' \<and> stream_closed w' \<and>
    helper w' = helper w \<and> closed (ready w') \<and> dead (w_raft w') = dead (w_raft w)"
proof (cases "applier w")
  case NoStream
  then show ?thesis using assms by (intro exI [of _ "[]"]) (simp add: stream_closed_def)
next
  case AppTop
  then show ?thesis using assms
    by (intro exI [of _ "[WApplier]"]) (simp add: applier_step_def stream_closed_def)
next
  case AppDequeue
  then show ?thesis using assms
    by (intro exI [of _ "[WApplier, WApplier]"])
       (simp add: applier_step_def stream_closed_def dequeue_result_def mq_take_def con_ready_def)
next
  case (AppTaken r)
  then show ?thesis using assms
    by (intro exI [of _ "[WApplier]"]) (simp add: applier_step_def stream_closed_def)
next
  case AppEnd
  then show ?thesis using assms by (intro exI [of _ "[]"]) (simp add: stream_closed_def)
qed

lemma helper_ends:
  assumes "helper_inv w" "stop_flag w" "shutdown_requested w"
  shows "\<exists>es w'. set es \<subseteq> {WApplier, WHelper} \<and> run_steps w_exec es w = Some w' \<and>
    helper w' = HelperExit \<and> \<not> node_svr w' \<and> stream_closed w' \<and> dead (w_raft w') = dead (w_raft w)"
proof -
  have closed: "\<exists>es w'. set es \<subseteq> {WApplier, WHelper} \<and> run_steps w_exec es w = Some w' \<and>
      helper w' = HelperExit \<and> \<not> node_svr w' \<and> stream_closed w' \<and> dead (w_raft w') = dead (w_raft w)"
    if h: "helper w = HelperClosed" "closed (ready w)" "stop_flag w" for w
  proof -
    from applier_ends [OF h(3,2)] obtain es w1 where w1: "set es \<subseteq> {WApplier}" "run_steps w_exec es w = Some w1"
      "stream_closed w1" "helper w1 = HelperClosed" "dead (w_raft w1) = dead (w_raft w)"
      by (auto simp: h(1))
    then show ?thesis
      by (intro exI [of _ "es @ [WHelper]"]) (auto simp: run_steps_append helper_step_def stream_closed_def)
  qed
  show ?thesis
  proof (cases "helper w")
    case HelperWaiting
    let ?w1 = "(close_ready w)\<lparr>helper := HelperClosed\<rparr>"
    from closed [of ?w1] assms(2) obtain es w' where "set es \<subseteq> {WApplier, WHelper}"
      "run_steps w_exec es ?w1 = Some w'" "helper w' = HelperExit" "\<not> node_svr w'" "stream_closed w'"
      "dead (w_raft w') = dead (w_raft w)"
      by (auto simp: close_ready_def)
    then show ?thesis using HelperWaiting assms(3)
      by (intro exI [of _ "WHelper # es"]) (auto simp: helper_step_def)
  next
    case HelperClosed
    with closed [of w] assms show ?thesis by (simp add: helper_inv_def)
  next
    case HelperExit
    with assms(1) show ?thesis by (intro exI [of _ "[]"]) (simp add: helper_inv_def)
  qed (use assms(1) in \<open>simp add: helper_inv_def\<close>)
qed



text \<open>
  C30: destroying the wrapper without a \<open>Kill\<close> RPC while a stream is open does not end:
  the helper closes the queue, but nobody sets the stop flag, so the applier spins on the
  default value of the closed queue and the shutdown of the server waits for it.
\<close>

definition spinning :: "Wrapper \<Rightarrow> bool" where
  "spinning w \<longleftrightarrow> helper w = HelperClosed \<and> \<not> stop_flag w \<and> closed (ready w) \<and> \<not> stream_closed w"

lemma spinning_step:
  assumes "spinning w" "w_exec e w = Some w'" "e \<noteq> WKill"
  shows "spinning w'"
  using assms
  by (cases e)
     (auto simp: spinning_def Prepare_def Run_rpc_def run_node_def Let_def start_server_def Disconnect_rpc_def Reconnect_rpc_def Propose_rpc_def
        enqueue_result_def applier_step_def dequeue_result_def helper_step_def cleanup_request_def
        cleanup_finish_def close_ready_def stream_closed_def mq_put_def mq_take_def con_ready_def
        split: if_splits applier_pc.splits prod.splits)

theorem cleanup_waits_forever:
  "\<exists>w. run_steps w_exec [WApply, WApplier, WCleanup, WHelper] demo_wrapper = Some w \<and>
     \<not> (\<exists>es w'. WKill \<notin> set es \<and> run_steps w_exec es w = Some w' \<and> helper w' = HelperExit)"
proof -
  have "\<exists>w. run_steps w_exec [WApply, WApplier, WCleanup, WHelper] demo_wrapper = Some w \<and> spinning w"
    by (rule case_option_ex) code_simp
  moreover have "spinning w \<Longrightarrow> WKill \<notin> set es \<Longrightarrow> run_steps w_exec es w = Some w' \<Longrightarrow> helper w' \<noteq> HelperExit"
    for es w w'
  proof (induction es arbitrary: w)
    case Nil
    then show ?case by (auto simp: spinning_def)
  next
    case (Cons e es)
    then show ?case using spinning_step by (auto split: option.splits)
  qed
  ultimately show ?thesis by blast
qed

text \<open>A node that has peers and runs cannot be started a second time, unless it was killed before.\<close>

lemma second_run_terminates:
  assumes "run_node w = Some w'" "c_peer_addrs (w_config w) \<noteq> []"
  shows "run_node w' = None" "run_node (kill_node w') \<noteq> None"
proof -
  obtain p ps where "c_peer_addrs (w_config w) = p # ps" using assms(2) by (cases "c_peer_addrs (w_config w)") auto
  with assms(1) show "run_node w' = None" "run_node (kill_node w') \<noteq> None"
    by (auto simp: run_node_def kill_node_def Let_def list_ex_iff split: if_splits)
qed

end
