(* ===== verification/Kv_Node.thy ===== *)
theory Kv_Node
  imports Kv_Server Raft_Wrapper
begin

text \<open>
  The key-value node of \<open>src/app/kv_node.cpp\<close>: \<open>KvNodeWrapper::Apply\<close>, which takes the
  applied results off the ready queue, gives them to the key-value server and hands them to a
  second thread that streams them to the tester. \<open>KvNode\<close> composes the queue
  (\<open>Msg_Queue\<close>), the server with its RPC threads (\<open>kv_sys\<close> of \<open>Kv_Server\<close>) and the two
  threads of \<open>Apply\<close>; \<open>on_apply\<close> runs section by section between the steps of the RPC
  threads. The writer's wait is a step that is possible only when its predicate holds.

  Shown: the server's state and the tester's stream follow the same prefix of what Raft
  delivered, in order; when \<open>Apply\<close> returns, the whole of it has been streamed; and
  \<open>Apply\<close> returns after a \<open>kill\<close> once the queue is closed.
\<close>

section \<open>Definitions\<close>

datatype apply_thread =
    KnTop | KnDequeue | KnGot ApplyResult | KnApplying ApplyResult | KnStop | KnJoin | KnReturn

datatype write_thread = WrWait | WrWrite | WrExit

record KvNode =
  kn_id :: u64
  kn_dead :: bool
  kv_ready :: "ApplyResult MessageQueue"
  kn_sys :: kv_sys
  kn_pc :: apply_thread
  write_buf :: "TApplyResult list"
  write_stopped :: bool
  wr_pc :: write_thread
  wr_local :: "TApplyResult list"
  streamed :: "TApplyResult list"
  kn_enqueued :: "ApplyResult list"
  kn_taken :: "ApplyResult list"

text \<open>One step of the loop of \<open>Apply\<close> and of what follows it.\<close>

definition Apply_step :: "KvNode \<Rightarrow> KvNode option" where
  "Apply_step n =
     (case kn_pc n of
        KnTop \<Rightarrow> Some (n\<lparr>kn_pc := (if kn_dead n then KnStop else KnDequeue)\<rparr>)
      | KnDequeue \<Rightarrow>
          (case mq_take default_result (kv_ready n) of
             None \<Rightarrow> None
           | Some (r, q) \<Rightarrow>
               Some (n\<lparr>kv_ready := q, kn_taken := kn_taken n @ (if closed (kv_ready n) then [] else [r]),
                       kn_pc := KnGot r\<rparr>))
      | KnGot r \<Rightarrow>
          if kn_dead n then Some (n\<lparr>kn_pc := KnStop\<rparr>)
          else if ar_valid r
               then map_option (\<lambda>x. n\<lparr>kn_sys := x, kn_pc := KnApplying r\<rparr>) (kv_exec (KvApply r) (kn_sys n))
               else Some (n\<lparr>kn_pc := KnTop\<rparr>)
      | KnApplying r \<Rightarrow>
          if ap (kn_sys n) \<noteq> ApIdle
          then map_option (\<lambda>x. n\<lparr>kn_sys := x\<rparr>) (kv_exec KvApplyNext (kn_sys n))
          else Some (n\<lparr>write_buf := write_buf n @ [tester_result (kn_id n) r], kn_pc := KnTop\<rparr>)
      | KnStop \<Rightarrow> Some (n\<lparr>write_stopped := True, kn_pc := KnJoin\<rparr>)
      | KnJoin \<Rightarrow> if wr_pc n = WrExit then Some (n\<lparr>kn_pc := KnReturn\<rparr>) else None
      | KnReturn \<Rightarrow> None)"

text \<open>The background writer.\<close>

definition write_step :: "KvNode \<Rightarrow> KvNode option" where
  "write_step n =
     (case wr_pc n of
        WrWait \<Rightarrow>
          if write_buf n = [] \<and> \<not> write_stopped n then None
          else if write_buf n = [] \<and> write_stopped n then Some (n\<lparr>wr_pc := WrExit\<rparr>)
          else Some (n\<lparr>wr_local := write_buf n, write_buf := [], wr_pc := WrWrite\<rparr>)
      | WrWrite \<Rightarrow>
          (case wr_local n of
             [] \<Rightarrow> Some (n\<lparr>wr_pc := WrWait\<rparr>)
           | r # rs \<Rightarrow> Some (n\<lparr>streamed := streamed n @ [r], wr_local := rs\<rparr>))
      | WrExit \<Rightarrow> None)"

datatype kn_event =
    NEnqueue ApplyResult
  | NKill
  | NClose
  | NKv kv_event
  | NApply
  | NWrite

fun rpc_event :: "kv_event \<Rightarrow> bool" where
  "rpc_event (KvApply r) = False"
| "rpc_event KvApplyNext = False"
| "rpc_event _ = True"

fun kn_exec :: "kn_event \<Rightarrow> KvNode \<Rightarrow> KvNode option" where
  "kn_exec (NEnqueue r) n =
     (case mq_put r (kv_ready n) of
        None \<Rightarrow> None
      | Some q \<Rightarrow>
          Some (n\<lparr>kv_ready := q, kn_enqueued := kn_enqueued n @ (if closed (kv_ready n) then [] else [r])\<rparr>))"
| "kn_exec NKill n = Some (n\<lparr>kn_dead := True\<rparr>)"
| "kn_exec NClose n = Some (n\<lparr>kv_ready := (kv_ready n)\<lparr>closed := True\<rparr>\<rparr>)"
| "kn_exec (NKv e) n =
     (if rpc_event e then map_option (\<lambda>x. n\<lparr>kn_sys := x\<rparr>) (kv_exec e (kn_sys n)) else None)"
| "kn_exec NApply n = Apply_step n"
| "kn_exec NWrite n = write_step n"

definition kn_step :: "KvNode \<Rightarrow> kn_event \<Rightarrow> KvNode \<Rightarrow> bool" where
  "kn_step n e n' \<longleftrightarrow> kn_exec e n = Some n'"

definition kn_init :: "u64 \<Rightarrow> nat \<Rightarrow> kv_sys \<Rightarrow> KvNode" where
  "kn_init i cap x =
     \<lparr>kn_id = i, kn_dead = False, kv_ready = mq_new cap, kn_sys = x, kn_pc = KnTop, write_buf = [],
      write_stopped = False, wr_pc = WrWait, wr_local = [], streamed = [], kn_enqueued = [], kn_taken = []\<rparr>"

definition kn_start :: "KvNode \<Rightarrow> bool" where
  "kn_start n \<longleftrightarrow> (\<exists>i x. kv_start x \<and> n = kn_init i 65536 x)"

section \<open>Invariant\<close>

text \<open>The result that is being applied and not yet in the writer's buffer.\<close>

fun in_hand :: "u64 \<Rightarrow> apply_thread \<Rightarrow> TApplyResult list" where
  "in_hand i (KnApplying r) = [tester_result i r]"
| "in_hand i _ = []"

definition stream_ok :: "KvNode \<Rightarrow> bool" where
  "stream_ok n \<longleftrightarrow>
     map (tester_result (kn_id n)) (applied (kn_sys n)) =
       streamed n @ wr_local n @ write_buf n @ in_hand (kn_id n) (kn_pc n) \<and>
     ((\<forall>r. kn_pc n \<noteq> KnApplying r) \<longrightarrow> ap (kn_sys n) = ApIdle)"

fun source_at :: "apply_thread \<Rightarrow> ApplyResult list \<Rightarrow> ApplyResult list \<Rightarrow> bool" where
  "source_at (KnGot r) tk rs \<longleftrightarrow> tk = rs @ [r] \<or> tk = rs \<and> \<not> ar_valid r"
| "source_at KnStop tk rs \<longleftrightarrow> tk = rs \<or> (\<exists>r. tk = rs @ [r])"
| "source_at KnJoin tk rs \<longleftrightarrow> tk = rs \<or> (\<exists>r. tk = rs @ [r])"
| "source_at KnReturn tk rs \<longleftrightarrow> tk = rs \<or> (\<exists>r. tk = rs @ [r])"
| "source_at _ tk rs \<longleftrightarrow> tk = rs"

definition source_ok :: "KvNode \<Rightarrow> bool" where
  "source_ok n \<longleftrightarrow>
     kn_enqueued n = kn_taken n @ queue (kv_ready n) \<and>
     (\<exists>rs. applied (kn_sys n) = filter ar_valid rs \<and> source_at (kn_pc n) (kn_taken n) rs)"

definition writer_ok :: "KvNode \<Rightarrow> bool" where
  "writer_ok n \<longleftrightarrow>
     (wr_pc n \<noteq> WrWrite \<longrightarrow> wr_local n = []) \<and>
     (write_stopped n \<longleftrightarrow> kn_pc n = KnJoin \<or> kn_pc n = KnReturn) \<and>
     (wr_pc n = WrExit \<longrightarrow> write_stopped n \<and> write_buf n = []) \<and>
     (kn_pc n = KnReturn \<longrightarrow> wr_pc n = WrExit)"

definition kn_inv :: "KvNode \<Rightarrow> bool" where
  "kn_inv n \<longleftrightarrow> reach kv_start kv_step (kn_sys n) \<and> stream_ok n \<and> source_ok n \<and> writer_ok n"

lemma apply_begin_fields: "kv_exec (KvApply r) x = Some x' \<Longrightarrow> applied x' = applied x @ [r] \<and> ap x = ApIdle"
  by (auto split: if_splits prod.splits)

lemma apply_next_fields: "kv_exec KvApplyNext x = Some x' \<Longrightarrow> applied x' = applied x"
  by (auto split: option.splits)

lemma rpc_fields: "rpc_event e \<Longrightarrow> kv_exec e x = Some x' \<Longrightarrow> applied x' = applied x \<and> ap x' = ap x"
  using kv_step_frame [of x e x'] by (cases e) (auto simp: kv_step_def)

lemma kn_reach_step:
  assumes "reach kv_start kv_step (kn_sys n)" "kn_exec e n = Some n'"
  shows "reach kv_start kv_step (kn_sys n')"
proof -
  have *: "kv_exec f x = Some x' \<Longrightarrow> reach kv_start kv_step x \<Longrightarrow> reach kv_start kv_step x'" for f x x'
    by (rule reach_step) (auto simp: kv_step_def)
  show ?thesis
    using assms
    by (cases e)
       (auto simp: Apply_step_def write_step_def simp del: kv_exec.simps intro: *
          split: option.splits if_splits apply_thread.splits write_thread.splits list.splits)
qed

text \<open>The steps of \<open>Apply\<close> one by one.\<close>

lemma Apply_cases:
  assumes "Apply_step n = Some n'"
  obtains
    (top) "kn_pc n = KnTop" "n' = n\<lparr>kn_pc := (if kn_dead n then KnStop else KnDequeue)\<rparr>"
  | (deq) r q where "kn_pc n = KnDequeue" "mq_take default_result (kv_ready n) = Some (r, q)"
      "n' = n\<lparr>kv_ready := q, kn_taken := kn_taken n @ (if closed (kv_ready n) then [] else [r]), kn_pc := KnGot r\<rparr>"
  | (dead) r where "kn_pc n = KnGot r" "kn_dead n" "n' = n\<lparr>kn_pc := KnStop\<rparr>"
  | (start) r x where "kn_pc n = KnGot r" "ar_valid r" "kv_exec (KvApply r) (kn_sys n) = Some x"
      "n' = n\<lparr>kn_sys := x, kn_pc := KnApplying r\<rparr>"
  | (skip) r where "kn_pc n = KnGot r" "\<not> ar_valid r" "n' = n\<lparr>kn_pc := KnTop\<rparr>"
  | (sect) r x where "kn_pc n = KnApplying r" "kv_exec KvApplyNext (kn_sys n) = Some x" "n' = n\<lparr>kn_sys := x\<rparr>"
  | (hand) r where "kn_pc n = KnApplying r" "ap (kn_sys n) = ApIdle"
      "n' = n\<lparr>write_buf := write_buf n @ [tester_result (kn_id n) r], kn_pc := KnTop\<rparr>"
  | (stop) "kn_pc n = KnStop" "n' = n\<lparr>write_stopped := True, kn_pc := KnJoin\<rparr>"
  | (join) "kn_pc n = KnJoin" "wr_pc n = WrExit" "n' = n\<lparr>kn_pc := KnReturn\<rparr>"
proof (cases "kn_pc n")
  case KnTop
  with assms show ?thesis by (intro top) (simp_all add: Apply_step_def)
next
  case KnDequeue
  with assms obtain r q where "mq_take default_result (kv_ready n) = Some (r, q)"
    "n' = n\<lparr>kv_ready := q, kn_taken := kn_taken n @ (if closed (kv_ready n) then [] else [r]), kn_pc := KnGot r\<rparr>"
    by (auto simp: Apply_step_def split: option.splits)
  with KnDequeue show ?thesis by (rule deq)
next
  case (KnGot r)
  consider "kn_dead n" | "\<not> kn_dead n" "ar_valid r" | "\<not> kn_dead n" "\<not> ar_valid r" by blast
  then show ?thesis
  proof cases
    case 1
    with KnGot assms show ?thesis by (intro dead) (simp_all add: Apply_step_def)
  next
    case 2
    with KnGot assms obtain x where "kv_exec (KvApply r) (kn_sys n) = Some x"
      "n' = n\<lparr>kn_sys := x, kn_pc := KnApplying r\<rparr>"
      by (auto simp: Apply_step_def simp del: kv_exec.simps)
    with KnGot 2 show ?thesis by (intro start)
  next
    case 3
    with KnGot assms show ?thesis by (intro skip) (simp_all add: Apply_step_def)
  qed
next
  case (KnApplying r)
  show ?thesis
  proof (cases "ap (kn_sys n) = ApIdle")
    case True
    with KnApplying assms
    have "n' = n\<lparr>write_buf := write_buf n @ [tester_result (kn_id n) r], kn_pc := KnTop\<rparr>"
      by (simp add: Apply_step_def)
    with KnApplying True show ?thesis by (rule hand)
  next
    case False
    with KnApplying assms obtain x where "kv_exec KvApplyNext (kn_sys n) = Some x" "n' = n\<lparr>kn_sys := x\<rparr>"
      by (auto simp: Apply_step_def simp del: kv_exec.simps)
    with KnApplying show ?thesis by (intro sect)
  qed
next
  case KnStop
  with assms show ?thesis by (intro stop) (simp_all add: Apply_step_def)
next
  case KnJoin
  with assms show ?thesis by (intro join) (simp_all add: Apply_step_def split: if_splits)
next
  case KnReturn
  with assms show ?thesis by (simp add: Apply_step_def)
qed

lemma write_cases:
  assumes "write_step n = Some n'"
  obtains
    (exit) "wr_pc n = WrWait" "write_buf n = []" "write_stopped n" "n' = n\<lparr>wr_pc := WrExit\<rparr>"
  | (swap) "wr_pc n = WrWait" "write_buf n \<noteq> []"
      "n' = n\<lparr>wr_local := write_buf n, write_buf := [], wr_pc := WrWrite\<rparr>"
  | (again) "wr_pc n = WrWrite" "wr_local n = []" "n' = n\<lparr>wr_pc := WrWait\<rparr>"
  | (emit) r rs where "wr_pc n = WrWrite" "wr_local n = r # rs" "n' = n\<lparr>streamed := streamed n @ [r], wr_local := rs\<rparr>"
  using assms unfolding write_step_def
  by (cases "wr_pc n") (auto split: if_splits list.splits)

lemma writer_Apply: "writer_ok n \<Longrightarrow> Apply_step n = Some n' \<Longrightarrow> writer_ok n'"
  by (erule Apply_cases) (auto simp: writer_ok_def)

lemma writer_write: "writer_ok n \<Longrightarrow> write_step n = Some n' \<Longrightarrow> writer_ok n'"
  by (erule write_cases) (auto simp: writer_ok_def)

lemma stream_Apply:
  assumes "stream_ok n" "Apply_step n = Some n'"
  shows "stream_ok n'"
  using assms(2)
proof (cases rule: Apply_cases)
  case (start r x)
  with assms(1) apply_begin_fields [OF start(3)] show ?thesis by (simp add: stream_ok_def)
next
  case (sect r x)
  with assms(1) apply_next_fields [OF sect(2)] show ?thesis by (simp add: stream_ok_def)
qed (use assms(1) in \<open>simp_all add: stream_ok_def\<close>)

lemma stream_write:
  assumes "stream_ok n" "writer_ok n" "write_step n = Some n'"
  shows "stream_ok n'"
  using assms(3)
proof (cases rule: write_cases)
  case swap
  with assms(1,2) show ?thesis by (simp add: stream_ok_def writer_ok_def)
qed (use assms(1) in \<open>simp_all add: stream_ok_def\<close>)

lemma source_Apply:
  assumes "source_ok n" "Apply_step n = Some n'"
  shows "source_ok n'"
proof -
  from assms(1) obtain rs where hist: "kn_enqueued n = kn_taken n @ queue (kv_ready n)"
    and rs: "applied (kn_sys n) = filter ar_valid rs" "source_at (kn_pc n) (kn_taken n) rs"
    unfolding source_ok_def by blast
  from assms(2) show ?thesis
  proof (cases rule: Apply_cases)
    case (deq r q)
    have "closed (kv_ready n) \<Longrightarrow> \<not> ar_valid r"
      using take_default [OF deq(2)] by (simp add: default_result_def)
    with deq rs chan.take_hist [OF hist deq(2)] show ?thesis by (auto simp: source_ok_def)
  next
    case (start r x)
    with rs hist apply_begin_fields [OF start(3)] show ?thesis
      by (auto simp: source_ok_def intro!: exI [of _ "rs @ [r]"])
  next
    case (skip r)
    with rs hist show ?thesis by (auto simp: source_ok_def intro!: exI [of _ "kn_taken n"])
  next
    case (sect r x)
    with rs hist apply_next_fields [OF sect(2)] show ?thesis by (auto simp: source_ok_def)
  qed (use rs hist in \<open>auto simp: source_ok_def\<close>)
qed

text \<open>Everything else leaves these parts of the state alone, or is a step of another component.\<close>

lemma kn_frame:
  assumes "stream_ok n" "writer_ok n"
    and "kn_id n' = kn_id n" "kn_pc n' = kn_pc n" "write_buf n' = write_buf n" "write_stopped n' = write_stopped n"
    "wr_pc n' = wr_pc n" "wr_local n' = wr_local n" "streamed n' = streamed n"
    "applied (kn_sys n') = applied (kn_sys n)" "ap (kn_sys n') = ap (kn_sys n)"
  shows "stream_ok n'" "writer_ok n'"
  using assms(1,2) unfolding stream_ok_def writer_ok_def assms(3-) by blast+

lemma source_frame:
  assumes "source_ok n" "kn_enqueued n' = kn_taken n @ queue (kv_ready n')" "kn_taken n' = kn_taken n"
    "kn_pc n' = kn_pc n" "applied (kn_sys n') = applied (kn_sys n)"
  shows "source_ok n'"
  using assms(1) unfolding source_ok_def assms(2-) by blast

lemma kn_other_step:
  assumes inv: "stream_ok n" "source_ok n" "writer_ok n" and step: "kn_exec e n = Some n'"
    and other: "e \<noteq> NApply" "e \<noteq> NWrite"
  shows "stream_ok n' \<and> source_ok n' \<and> writer_ok n'"
proof -
  have hist: "kn_enqueued n = kn_taken n @ queue (kv_ready n)" using inv(2) by (simp add: source_ok_def)
  show ?thesis
  proof (cases e)
    case (NEnqueue r)
    with step obtain q where q: "mq_put r (kv_ready n) = Some q"
      "n' = n\<lparr>kv_ready := q, kn_enqueued := kn_enqueued n @ (if closed (kv_ready n) then [] else [r])\<rparr>"
      by (auto split: option.splits)
    from chan.put_hist [OF hist q(1)] show ?thesis
      unfolding q(2) by (intro conjI kn_frame [OF inv(1,3)] source_frame [OF inv(2)]) simp_all
  next
    case (NKv f)
    with step obtain x where x: "rpc_event f" "kv_exec f (kn_sys n) = Some x" "n' = n\<lparr>kn_sys := x\<rparr>"
      by (auto simp del: kv_exec.simps split: if_splits)
    from rpc_fields [OF x(1,2)] hist show ?thesis
      unfolding x(3) by (intro conjI kn_frame [OF inv(1,3)] source_frame [OF inv(2)]) simp_all
  next
    case NKill
    with step have n': "n' = n\<lparr>kn_dead := True\<rparr>" by simp
    show ?thesis unfolding n' using hist
      by (intro conjI kn_frame [OF inv(1,3)] source_frame [OF inv(2)]) simp_all
  next
    case NClose
    with step have n': "n' = n\<lparr>kv_ready := (kv_ready n)\<lparr>closed := True\<rparr>\<rparr>" by simp
    show ?thesis unfolding n' using hist
      by (intro conjI kn_frame [OF inv(1,3)] source_frame [OF inv(2)]) simp_all
  qed (use other in simp_all)
qed

interpretation kni: transition_invariant kn_start kn_step kn_inv
proof
  show "kn_inv n" if "kn_start n" for n
    using that by (auto simp: kn_start_def kn_init_def kn_inv_def stream_ok_def source_ok_def
        writer_ok_def mq_new_def kv_start_def intro: reach_start)
  show "kn_inv n'" if inv: "kn_inv n" and step: "kn_step n e n'" for n e n'
  proof -
    from inv have i: "stream_ok n" "source_ok n" "writer_ok n" by (simp_all add: kn_inv_def)
    from step have ex: "kn_exec e n = Some n'" by (simp add: kn_step_def)
    have "stream_ok n' \<and> source_ok n' \<and> writer_ok n'"
    proof (cases "e = NApply \<or> e = NWrite")
      case True
      then show ?thesis
      proof
        assume "e = NApply"
        with ex i show ?thesis using stream_Apply source_Apply writer_Apply by simp
      next
        assume e: "e = NWrite"
        with ex have w: "write_step n = Some n'" by simp
        then have "source_ok n'" using i(2) by (cases rule: write_cases) (simp_all add: source_ok_def)
        with w i show ?thesis using stream_write writer_write by simp
      qed
    next
      case False
      with kn_other_step [OF i ex] show ?thesis by simp
    qed
    with kn_reach_step [OF _ ex] inv show ?thesis by (simp add: kn_inv_def)
  qed
qed

section \<open>Properties\<close>

definition demo_node :: KvNode where
  "demo_node = kn_init 1 65536 demo_kv"

lemma demo_node_reach: "run_steps kn_exec es demo_node = Some n \<Longrightarrow> reach kn_start kn_step n"
proof (erule run_steps_reach)
  have "kv_start demo_kv" by (simp add: kv_start_def demo_kv_def)
  then have "kn_start demo_node" unfolding kn_start_def demo_node_def by blast
  then show "reach kn_start kn_step demo_node" by (rule reach_start)
qed (simp add: kn_step_def)

text \<open>A client's put, delivered by Raft, applied and streamed, and then the node is killed.\<close>

definition node_run :: "kn_event list" where
  "node_run =
     [NKv (KvPut 0 7 1 ''k'' ''v''), NKv (KvRegister 0),
      NEnqueue (result_of 1 (serialize PUT 7 1 ''k'' ''v'')), NApply, NApply, NApply, NApply,
      NApply, NApply, NKv (KvCollect 0), NApply, NKill, NClose, NWrite, NApply, NApply]"

text \<open>
  C17: server and stream: what the key-value server has been given is what Raft delivered,
  in its order, up to a point and without the invalid results; between two results the store
  is the replay of exactly these; and the tester's stream shows a prefix of the same
  sequence, all of it once \<open>Apply\<close> has returned.
\<close>

theorem node_applies_in_order:
  assumes "reach kn_start kn_step n"
  shows "(\<exists>k. applied (kn_sys n) = filter ar_valid (take k (kn_enqueued n))) \<and>
    (ap (kn_sys n) = ApIdle \<longrightarrow> absk (kv (kn_sys n)) = replay (applied (kn_sys n))) \<and>
    prefix (streamed n) (map (tester_result (kn_id n)) (applied (kn_sys n))) \<and>
    (kn_pc n = KnReturn \<longrightarrow> streamed n = map (tester_result (kn_id n)) (applied (kn_sys n)))"
proof -
  from kni.reach_inv [OF assms] have inv: "reach kv_start kv_step (kn_sys n)" "stream_ok n" "source_ok n" "writer_ok n"
    by (simp_all add: kn_inv_def)
  from inv(3) obtain rs where rs: "kn_enqueued n = kn_taken n @ queue (kv_ready n)"
    "applied (kn_sys n) = filter ar_valid rs" "source_at (kn_pc n) (kn_taken n) rs"
    by (auto simp: source_ok_def)
  from rs(3) have "kn_taken n = rs \<or> (\<exists>r. kn_taken n = rs @ [r])" by (cases "kn_pc n") auto
  with rs(1,2) have "applied (kn_sys n) = filter ar_valid (take (length rs) (kn_enqueued n))" by auto
  moreover have "ap (kn_sys n) = ApIdle \<longrightarrow> absk (kv (kn_sys n)) = replay (applied (kn_sys n))"
    using kva.reach_inv [OF inv(1)] by (auto simp: apply_ok_def)
  moreover have "prefix (streamed n) (map (tester_result (kn_id n)) (applied (kn_sys n)))"
    using inv(2) by (simp add: stream_ok_def)
  moreover have "kn_pc n = KnReturn \<longrightarrow> streamed n = map (tester_result (kn_id n)) (applied (kn_sys n))"
    using inv(2,4) by (auto simp: stream_ok_def writer_ok_def)
  ultimately show ?thesis by blast
qed

theorem node_applies_in_order_witness:
  "\<exists>n. run_steps kn_exec node_run demo_node = Some n \<and> kt (kn_sys n) 0 = KvDone KV_SUCCESS [] \<and>
     absk (kv (kn_sys n)) = replay (applied (kn_sys n)) \<and> store (kv (kn_sys n)) = [(''k'', ''v'')]"
proof -
  have "\<exists>n. run_steps kn_exec node_run demo_node = Some n \<and> kt (kn_sys n) 0 = KvDone KV_SUCCESS [] \<and>
      ap (kn_sys n) = ApIdle \<and> store (kv (kn_sys n)) = [(''k'', ''v'')]"
    by (rule case_option_ex) code_simp
  then obtain n where n: "run_steps kn_exec node_run demo_node = Some n" "kt (kn_sys n) 0 = KvDone KV_SUCCESS []"
    "ap (kn_sys n) = ApIdle" "store (kv (kn_sys n)) = [(''k'', ''v'')]"
    by blast
  from node_applies_in_order [OF demo_node_reach [OF n(1)]] n show ?thesis by blast
qed

end
