(* ===== verification/Test_Config.thy ===== *)
theory Test_Config
  imports Raft_Wrapper
begin

text \<open>
  The checks that the multi-process tests make on a running cluster:
  \<open>src/inc/toolings/test_config.hpp\<close>. \<open>TestConfig\<close> holds the fields of
  \<open>MultiprocTestConfig\<close> that the checks use. \<open>applier_func\<close> is the handler that the
  constructor registers, called for every result that a node streams: it compares the result
  with what all nodes delivered before (\<open>check_logs\<close>) and fails the test on a mismatch or a
  gap. \<open>FAIL()\<close> of GoogleTest returns from the handler, so the \<open>throw\<close> after it is not
  reached. The threads that call the handler meet at its mutex; it is one step here.

  \<open>check_one_leader\<close>, \<open>check_terms\<close> and \<open>check_no_leader\<close> get the replies of the polls as
  arguments. A helper that throws gives \<open>Throws\<close>; reading the front of an empty vector is
  \<open>FrontOfEmpty\<close>.

  Shown: the handler fails the test exactly when two results of one index differ or a node
  skips an index; a poll with at most one leader per term gives the leader of the highest
  term, for terms that fit an \<open>int\<close>, and is undefined beyond.
\<close>

section \<open>State\<close>

record TestConfig =
  tc_ids :: "u64 list"
  tc_logs :: "(u64, (u64, bytes) umap) umap"
  apply_err :: "(u64, string) umap"
  raft_stopped :: "(u64, bool) umap"
  tc_connected :: "(u64, bool) umap"
  max_index :: u64
  tc_stop :: bool
  tc_failed :: bool

text \<open>The constructor leaves \<open>max_index\<close> to \<open>begin\<close>; 0 stands for whatever it holds before.\<close>

definition TestConfig_new :: "u64 list \<Rightarrow> TestConfig" where
  "TestConfig_new ids =
     \<lparr>tc_ids = sort (remdups ids), tc_logs = fold (\<lambda>i. AList.update i []) ids [],
      apply_err = fold (\<lambda>i. AList.update i []) ids [], raft_stopped = fold (\<lambda>i. AList.update i True) ids [],
      tc_connected = fold (\<lambda>i. AList.update i True) ids [], max_index = 0, tc_stop = False, tc_failed = False\<rparr>"

definition tc_begin :: "TestConfig \<Rightarrow> TestConfig" where
  "tc_begin t = t\<lparr>max_index := 0, raft_stopped := fold (\<lambda>i. AList.update i False) (tc_ids t) (raft_stopped t)\<rparr>"

section \<open>The handler of the streamed results\<close>

definition mismatch :: "u64 \<Rightarrow> ApplyResult \<Rightarrow> u64 \<Rightarrow> bytes \<Rightarrow> string" where
  "mismatch i m j d =
     ''commit index='' @ to_string (ar_index m) @ '' server='' @ to_string i @ '' '' @ ar_data m @
     '' != server='' @ to_string j @ '' '' @ d"

definition out_of_order :: "u64 \<Rightarrow> ApplyResult \<Rightarrow> string" where
  "out_of_order i m = ''server '' @ to_string i @ '' apply out of order '' @ to_string (ar_index m)"

text \<open>The loop over all logs; the last mismatch wins.\<close>

fun compare_logs :: "u64 \<Rightarrow> ApplyResult \<Rightarrow> (u64, (u64, bytes) umap) umap \<Rightarrow> string \<Rightarrow> string" where
  "compare_logs i m [] err = err"
| "compare_logs i m ((j, log) # ls) err =
     compare_logs i m ls
       (case map_of log (ar_index m) of
          None \<Rightarrow> err
        | Some d \<Rightarrow> if d \<noteq> ar_data m then mismatch i m j d else err)"

definition check_logs :: "u64 \<Rightarrow> ApplyResult \<Rightarrow> TestConfig \<Rightarrow> (string \<times> bool) \<times> TestConfig" where
  "check_logs i m t =
     (let err = compare_logs i m (tc_logs t) [];
          prevok = (case map_of (tc_logs t) i of
                      None \<Rightarrow> False
                    | Some log \<Rightarrow> map_of log (dec64 (ar_index m)) \<noteq> None);
          log = (case map_of (tc_logs t) i of None \<Rightarrow> [] | Some log \<Rightarrow> log)
      in ((err, prevok),
          t\<lparr>tc_logs := AList.update i (AList.update (ar_index m) (ar_data m) log) (tc_logs t),
            max_index := (if ar_index m > max_index t then ar_index m else max_index t)\<rparr>))"

definition stopped :: "u64 \<Rightarrow> TestConfig \<Rightarrow> bool" where
  "stopped i t \<longleftrightarrow> tc_stop t \<or> tc_failed t \<or> map_of (raft_stopped t) i = Some True"

definition report :: "u64 \<Rightarrow> string \<Rightarrow> TestConfig \<Rightarrow> TestConfig" where
  "report i err t =
     t\<lparr>apply_err := AList.update i err (apply_err t), tc_failed := True, tc_stop := True\<rparr>"

definition applier_func :: "TApplyResult \<Rightarrow> TestConfig \<Rightarrow> TestConfig" where
  "applier_func r t =
     (let i = ta_id r; m = \<lparr>ar_valid = ta_valid r, ar_data = ta_data r, ar_index = ta_index r\<rparr>
      in if stopped i t then t
         else if \<not> ar_valid m then t
         else case check_logs i m t of
                ((err, prevok), t1) \<Rightarrow>
                  (let err1 = (if ar_index m > 1 \<and> \<not> prevok then out_of_order i m else err)
                   in if err1 \<noteq> [] then report i err1 t1 else t1))"

section \<open>Polling the cluster\<close>

datatype 'a checked = Found 'a | Throws string | FrontOfEmpty

definition abort_msg :: string where
  "abort_msg = ''Abort due to test failure. See details above.''"

definition static_cast_int :: "u64 \<Rightarrow> int" where
  "static_cast_int n =
     (let k = int (n mod 2 ^ 32) in if k < 2 ^ 31 then k else k - 2 ^ 32)"

definition int_to_u64 :: "int \<Rightarrow> u64" where
  "int_to_u64 i = nat (i mod 2 ^ 64)"

definition add_leader :: "TState \<Rightarrow> (u64, u64 list) umap \<Rightarrow> (u64, u64 list) umap" where
  "add_leader s m =
     (if ts_is_leader s
      then case map_of m (ts_term s) of
             None \<Rightarrow> AList.update (ts_term s) [ts_id s] m
           | Some ids \<Rightarrow> AList.update (ts_term s) (ids @ [ts_id s]) m
      else m)"

fun last_term_with_leader :: "(u64, u64 list) umap \<Rightarrow> int \<Rightarrow> int option" where
  "last_term_with_leader [] acc = Some acc"
| "last_term_with_leader ((tm, ids) # m) acc =
     (if length ids > 1 then None
      else last_term_with_leader m (if static_cast_int tm > acc then static_cast_int tm else acc))"

text \<open>One iteration; \<open>None\<close> when the loop goes on.\<close>

definition poll_leader :: "TState list \<Rightarrow> u64 checked option" where
  "poll_leader states =
     (let leaders = fold add_leader states []
      in case last_term_with_leader leaders (- 1) of
           None \<Rightarrow> Some (Throws abort_msg)
         | Some tm \<Rightarrow>
             if leaders = [] then None
             else Some (case map_of leaders (int_to_u64 tm) of
                          Some (n # ns) \<Rightarrow> Found n
                        | _ \<Rightarrow> FrontOfEmpty))"

fun poll_loop :: "(bool \<times> TState list) list \<Rightarrow> u64 checked" where
  "poll_loop [] = Throws abort_msg"
| "poll_loop ((halted, states) # polls) =
     (if halted then Throws abort_msg
      else case poll_leader states of None \<Rightarrow> poll_loop polls | Some r \<Rightarrow> r)"

text \<open>Every poll comes with whether the test was stopped or failed before it.\<close>

definition check_one_leader :: "(nat \<Rightarrow> bool \<times> TState list) \<Rightarrow> u64 checked" where
  "check_one_leader polls = poll_loop (map polls [0..<10])"

fun check_terms_loop :: "TState list \<Rightarrow> u64 option \<Rightarrow> u64 option checked" where
  "check_terms_loop [] acc = Found acc"
| "check_terms_loop (s # ss) acc =
     (case acc of
        None \<Rightarrow> check_terms_loop ss (Some (ts_term s))
      | Some x \<Rightarrow> if x \<noteq> ts_term s then Throws abort_msg else check_terms_loop ss acc)"

definition check_terms :: "TState list \<Rightarrow> u64 option checked" where
  "check_terms states = check_terms_loop states None"

text \<open>\<open>ASSERT_TRUE(false)\<close> returns, so the \<open>throw\<close> after it is not reached: the test has failed.\<close>

fun check_no_leader :: "TState list \<Rightarrow> bool" where
  "check_no_leader [] = True"
| "check_no_leader (s # ss) = (if ts_is_leader s then False else check_no_leader ss)"

text \<open>
  \<open>n_committed\<close>: the count of the nodes that have a value at an index, and the value; the
  logs are locked for each node anew, so every node comes with the state that was seen.
\<close>

fun n_committed_loop :: "u64 \<Rightarrow> (u64 \<times> TestConfig) list \<Rightarrow> nat \<Rightarrow> bytes \<Rightarrow> (nat \<times> bytes) checked" where
  "n_committed_loop i [] count data = Found (count, data)"
| "n_committed_loop i ((n, t) # seen) count data =
     (if (case map_of (apply_err t) n of None \<Rightarrow> False | Some e \<Rightarrow> e \<noteq> []) then Throws abort_msg
      else case map_of (case map_of (tc_logs t) n of None \<Rightarrow> [] | Some log \<Rightarrow> log) i of
             None \<Rightarrow> n_committed_loop i seen count data
           | Some d \<Rightarrow>
               if count > 0 \<and> data \<noteq> d then Throws abort_msg
               else n_committed_loop i seen (count + 1) d)"

definition n_committed :: "u64 \<Rightarrow> (u64 \<times> TestConfig) list \<Rightarrow> (nat \<times> bytes) checked" where
  "n_committed i seen = n_committed_loop i seen 0 []"

section \<open>What the handler accepts\<close>

definition consistent :: "TApplyResult list \<Rightarrow> bool" where
  "consistent rs \<longleftrightarrow>
     (\<forall>r \<in> set rs. \<forall>r' \<in> set rs. ta_index r = ta_index r' \<longrightarrow> ta_data r = ta_data r')"

text \<open>Every index above 1 comes after its predecessor from the same node.\<close>

fun no_gaps :: "TApplyResult list \<Rightarrow> bool" where
  "no_gaps [] = True"
| "no_gaps (r # earlier) \<longleftrightarrow>
     no_gaps earlier \<and>
     (ta_index r > 1 \<longrightarrow>
        (\<exists>q \<in> set earlier. ta_id q = ta_id r \<and> ta_index q = ta_index r - 1))"

definition acceptable :: "TApplyResult list \<Rightarrow> bool" where
  "acceptable rs \<longleftrightarrow> consistent rs \<and> no_gaps (rev rs)"

text \<open>The logs hold what was delivered.\<close>

definition logs_are :: "TApplyResult list \<Rightarrow> TestConfig \<Rightarrow> bool" where
  "logs_are rs t \<longleftrightarrow>
     distinct (map fst (tc_logs t)) \<and>
     (\<forall>i k d. (\<exists>log. map_of (tc_logs t) i = Some log \<and> map_of log k = Some d) \<longleftrightarrow>
        (\<exists>r \<in> set rs. ta_id r = i \<and> ta_index r = k \<and> ta_data r = d))"

definition running :: "TestConfig \<Rightarrow> bool" where
  "running t \<longleftrightarrow> \<not> tc_stop t \<and> \<not> tc_failed t \<and> (\<forall>i. map_of (raft_stopped t) i \<noteq> Some True)"


lemma map_of_fold_same:
  "map_of (fold (\<lambda>i. AList.update i v) xs al) i = (if i \<in> set xs then Some v else map_of al i)"
  by (induction xs arbitrary: al) auto

lemma distinct_fold_same:
  "distinct (map fst al) \<Longrightarrow> distinct (map fst (fold (\<lambda>i. AList.update i v) xs al))"
  by (induction xs arbitrary: al) (simp_all add: distinct_update)

lemma compare_logs_ok:
  "compare_logs i m ls err = [] \<longleftrightarrow>
     err = [] \<and> (\<forall>(j, log) \<in> set ls. \<forall>d. map_of log (ar_index m) = Some d \<longrightarrow> d = ar_data m)"
  by (induction i m ls err rule: compare_logs.induct) (auto simp: mismatch_def split: option.splits)

lemma running_begin: "running (tc_begin (TestConfig_new ids)) \<and> logs_are [] (tc_begin (TestConfig_new ids))"
  by (auto simp: running_def logs_are_def tc_begin_def TestConfig_new_def map_of_fold_same
      distinct_fold_same)

text \<open>What the two checks of a result come to.\<close>

lemma logs_are_compare:
  assumes "logs_are rs t"
  shows "compare_logs i m (tc_logs t) [] = [] \<longleftrightarrow>
    (\<forall>q \<in> set rs. ta_index q = ar_index m \<longrightarrow> ta_data q = ar_data m)"
proof -
  have mem: "(j, log) \<in> set (tc_logs t) \<longleftrightarrow> map_of (tc_logs t) j = Some log" for j log
    using assms by (simp add: logs_are_def)
  have at: "(\<exists>log. map_of (tc_logs t) j = Some log \<and> map_of log k = Some d) \<longleftrightarrow>
      (\<exists>r \<in> set rs. ta_id r = j \<and> ta_index r = k \<and> ta_data r = d)" for j k d
    using assms unfolding logs_are_def by blast
  have "compare_logs i m (tc_logs t) [] = [] \<longleftrightarrow>
      (\<forall>j d. (\<exists>log. map_of (tc_logs t) j = Some log \<and> map_of log (ar_index m) = Some d) \<longrightarrow> d = ar_data m)"
    unfolding compare_logs_ok using mem by fastforce
  also have "\<dots> \<longleftrightarrow> (\<forall>q \<in> set rs. ta_index q = ar_index m \<longrightarrow> ta_data q = ar_data m)"
    unfolding at by auto
  finally show ?thesis .
qed

lemma logs_are_prev:
  assumes "logs_are rs t"
  shows "(case map_of (tc_logs t) i of None \<Rightarrow> False | Some log \<Rightarrow> map_of log k \<noteq> None) \<longleftrightarrow>
    (\<exists>q \<in> set rs. ta_id q = i \<and> ta_index q = k)"
proof -
  have at: "(\<exists>log. map_of (tc_logs t) i = Some log \<and> map_of log k = Some d) \<longleftrightarrow>
      (\<exists>r \<in> set rs. ta_id r = i \<and> ta_index r = k \<and> ta_data r = d)" for d
    using assms unfolding logs_are_def by blast
  have "(case map_of (tc_logs t) i of None \<Rightarrow> False | Some log \<Rightarrow> map_of log k \<noteq> None) \<longleftrightarrow>
      (\<exists>d log. map_of (tc_logs t) i = Some log \<and> map_of log k = Some d)"
    by (auto split: option.splits)
  also have "\<dots> \<longleftrightarrow> (\<exists>q \<in> set rs. ta_id q = i \<and> ta_index q = k)"
    unfolding at by auto
  finally show ?thesis .
qed


lemma check_logs_err:
  assumes "logs_are rs t" "check_logs i m t = ((err, prevok), t1)"
  shows "err = [] \<longleftrightarrow> (\<forall>q \<in> set rs. ta_index q = ar_index m \<longrightarrow> ta_data q = ar_data m)"
  using assms(2) logs_are_compare [OF assms(1), of i m] by (auto simp: check_logs_def Let_def)

lemma check_logs_prev:
  assumes "logs_are rs t" "check_logs i m t = ((err, prevok), t1)"
  shows "prevok \<longleftrightarrow> (\<exists>q \<in> set rs. ta_id q = i \<and> ta_index q = dec64 (ar_index m))"
  unfolding logs_are_prev [OF assms(1), symmetric] using assms(2) by (auto simp: check_logs_def Let_def)

lemma logs_are_add:
  assumes "logs_are rs t" "check_logs (ta_id r) m t = (res, t1)" "ar_index m = ta_index r" "ar_data m = ta_data r"
    and same: "\<And>q. q \<in> set rs \<Longrightarrow> ta_index q = ta_index r \<Longrightarrow> ta_data q = ta_data r"
  shows "logs_are (rs @ [r]) t1"
proof -
  let ?log = "case map_of (tc_logs t) (ta_id r) of None \<Rightarrow> [] | Some log \<Rightarrow> log"
  have t1: "tc_logs t1 = AList.update (ta_id r) (AList.update (ta_index r) (ta_data r) ?log) (tc_logs t)"
    using assms(2-4) by (auto simp: check_logs_def Let_def)
  have at: "(\<exists>log. map_of (tc_logs t) i = Some log \<and> map_of log k = Some d) \<longleftrightarrow>
      (\<exists>q \<in> set rs. ta_id q = i \<and> ta_index q = k \<and> ta_data q = d)" for i k d
    using assms(1) unfolding logs_are_def by blast
  have "map_of ?log k = Some d \<longleftrightarrow> (\<exists>q \<in> set rs. ta_id q = ta_id r \<and> ta_index q = k \<and> ta_data q = d)" for k d
    unfolding at [symmetric] by (auto split: option.splits)
  then have own: "map_of (AList.update (ta_index r) (ta_data r) ?log) k = Some d \<longleftrightarrow>
      (\<exists>q \<in> set (rs @ [r]). ta_id q = ta_id r \<and> ta_index q = k \<and> ta_data q = d)" for k d
    using same by auto
  have "distinct (map fst (tc_logs t1))"
    using assms(1) unfolding t1 by (simp add: logs_are_def distinct_update)
  moreover have "(\<exists>log. map_of (tc_logs t1) i = Some log \<and> map_of log k = Some d) \<longleftrightarrow>
      (\<exists>q \<in> set (rs @ [r]). ta_id q = i \<and> ta_index q = k \<and> ta_data q = d)" for i k d
  proof (cases "i = ta_id r")
    case True
    then show ?thesis using own [of k d] unfolding t1 by simp
  next
    case False
    then show ?thesis using at [of i k d] unfolding t1 by auto
  qed
  ultimately show ?thesis unfolding logs_are_def by blast
qed

lemma consistent_snoc:
  "consistent (rs @ [r]) \<longleftrightarrow>
     consistent rs \<and> (\<forall>q \<in> set rs. ta_index q = ta_index r \<longrightarrow> ta_data q = ta_data r)"
proof
  assume a: "consistent (rs @ [r])"
  have eq: "ta_data x = ta_data y" if "x \<in> insert r (set rs)" "y \<in> insert r (set rs)" "ta_index x = ta_index y" for x y
    using a that unfolding consistent_def set_append list.set by blast
  show "consistent rs \<and> (\<forall>q \<in> set rs. ta_index q = ta_index r \<longrightarrow> ta_data q = ta_data r)"
    unfolding consistent_def by (intro conjI ballI impI; rule eq) (assumption | rule insertI1 insertI2)+
next
  assume a: "consistent rs \<and> (\<forall>q \<in> set rs. ta_index q = ta_index r \<longrightarrow> ta_data q = ta_data r)"
  note new = a [THEN conjunct2, THEN bspec, THEN mp]
  have old: "ta_data x = ta_data y" if "x \<in> set rs" "y \<in> set rs" "ta_index x = ta_index y" for x y
    using a that unfolding consistent_def by blast
  have "ta_data x = ta_data y" if "x \<in> set (rs @ [r])" "y \<in> set (rs @ [r])" "ta_index x = ta_index y" for x y
  proof -
    from that(1,2) consider "x \<in> set rs" "y \<in> set rs" | "x = r" "y = r" | "x = r" "y \<in> set rs" | "x \<in> set rs" "y = r"
      by auto
    then show ?thesis
    proof cases
      case 1
      then show ?thesis using that(3) by (rule old)
    next
      case 3
      from new [OF 3(2)] that(3) show ?thesis unfolding 3(1) by (metis (full_types))
    next
      case 4
      from new [OF 4(1)] that(3) show ?thesis unfolding 4(2) by blast
    qed blast
  qed
  then show "consistent (rs @ [r])" unfolding consistent_def by blast
qed

lemma acceptable_snoc:
  "acceptable (rs @ [r]) \<longleftrightarrow>
     acceptable rs \<and> (\<forall>q \<in> set rs. ta_index q = ta_index r \<longrightarrow> ta_data q = ta_data r) \<and>
     (ta_index r > 1 \<longrightarrow> (\<exists>q \<in> set rs. ta_id q = ta_id r \<and> ta_index q = ta_index r - 1))"
  unfolding acceptable_def by (auto simp: consistent_snoc)

lemma applier_func_accepts:
  assumes run: "running t" and logs: "logs_are rs t" and valid: "ta_valid r"
  shows "if (\<forall>q \<in> set rs. ta_index q = ta_index r \<longrightarrow> ta_data q = ta_data r) \<and>
            (ta_index r > 1 \<longrightarrow> (\<exists>q \<in> set rs. ta_id q = ta_id r \<and> ta_index q = ta_index r - 1))
         then running (applier_func r t) \<and> logs_are (rs @ [r]) (applier_func r t)
         else tc_failed (applier_func r t)"
proof -
  let ?m = "\<lparr>ar_valid = ta_valid r, ar_data = ta_data r, ar_index = ta_index r\<rparr>"
  obtain err prevok t1 where c: "check_logs (ta_id r) ?m t = ((err, prevok), t1)"
    by (metis prod.exhaust)
  have err: "err = [] \<longleftrightarrow> (\<forall>q \<in> set rs. ta_index q = ta_index r \<longrightarrow> ta_data q = ta_data r)"
    using check_logs_err [OF logs c] by simp
  have prev: "prevok \<longleftrightarrow> (\<exists>q \<in> set rs. ta_id q = ta_id r \<and> ta_index q = dec64 (ta_index r))"
    using check_logs_prev [OF logs c] by simp
  have t1: "tc_failed t1 = tc_failed t" "tc_stop t1 = tc_stop t" "raft_stopped t1 = raft_stopped t"
    using c by (auto simp: check_logs_def Let_def)
  have "\<not> stopped (ta_id r) t" using run by (simp add: running_def stopped_def)
  then have f: "applier_func r t =
      (let err1 = (if ta_index r > 1 \<and> \<not> prevok then out_of_order (ta_id r) ?m else err)
       in if err1 \<noteq> [] then report (ta_id r) err1 t1 else t1)"
    using c valid by (simp add: applier_func_def Let_def)
  show ?thesis
  proof (cases "err = [] \<and> (ta_index r > 1 \<longrightarrow> prevok)")
    case True
    then have "applier_func r t = t1" unfolding f by auto
    moreover have "logs_are (rs @ [r]) t1"
      by (rule logs_are_add [OF logs c]) (use True err in auto)
    ultimately show ?thesis using run t1 True err prev by (auto simp: running_def dec64_def)
  next
    case False
    then have "tc_failed (applier_func r t)"
      unfolding f by (auto simp: report_def out_of_order_def Let_def)
    with False err prev show ?thesis by (auto simp: dec64_def)
  qed
qed

lemma handler_decides:
  assumes "\<forall>r \<in> set rs. ta_valid r"
  shows "let t = fold applier_func rs (tc_begin (TestConfig_new ids))
         in if acceptable rs then running t \<and> logs_are rs t else tc_failed t"
  using assms
proof (induction rs rule: rev_induct)
  case Nil
  show ?case using running_begin [of ids] by (simp add: acceptable_def consistent_def)
next
  case (snoc r rs)
  let ?t = "fold applier_func rs (tc_begin (TestConfig_new ids))"
  show ?case
  proof (cases "acceptable rs")
    case True
    with snoc have "running ?t" "logs_are rs ?t" by (auto simp: Let_def)
    from applier_func_accepts [OF this, of r] snoc.prems True show ?thesis
      by (simp add: acceptable_snoc Let_def split: if_splits)
  next
    case False
    with snoc have "tc_failed ?t" by (auto simp: Let_def)
    then have "applier_func r ?t = ?t" by (simp add: applier_func_def stopped_def Let_def)
    with False \<open>tc_failed ?t\<close> show ?thesis by (simp add: acceptable_snoc)
  qed
qed

text \<open>
  C34: the test's verdict on the results it is sent is exact: the handler fails the test if and
  only if two results with the same index differ, on whichever nodes, or a node delivers an
  index above 1 before the one below it.
\<close>

theorem handler_exact:
  assumes "\<forall>r \<in> set rs. ta_valid r"
  shows "tc_failed (fold applier_func rs (tc_begin (TestConfig_new ids))) \<longleftrightarrow> \<not> acceptable rs"
  using handler_decides [OF assms, of ids] by (auto simp: Let_def running_def split: if_splits)

definition gap_results :: "TApplyResult list" where
  "gap_results =
     [\<lparr>ta_valid = True, ta_data = ''a'', ta_index = 1, ta_id = 0\<rparr>,
      \<lparr>ta_valid = True, ta_data = ''c'', ta_index = 3, ta_id = 0\<rparr>]"

theorem handler_exact_witness:
  "tc_failed (fold applier_func gap_results (tc_begin (TestConfig_new [0, 1]))) \<and>
   \<not> tc_failed (fold applier_func (take 1 gap_results) (tc_begin (TestConfig_new [0, 1])))"
  by (subst (1 2) handler_exact) (simp_all add: gap_results_def acceptable_def consistent_def)

section \<open>The polled leader\<close>

definition leader_ids :: "TState list \<Rightarrow> u64 \<Rightarrow> u64 list" where
  "leader_ids states tm = map ts_id (filter (\<lambda>s. ts_is_leader s \<and> ts_term s = tm) states)"

lemma leaders_map:
  "distinct (map fst (fold add_leader states [])) \<and>
   map_of (fold add_leader states []) tm = (if leader_ids states tm = [] then None else Some (leader_ids states tm))"
proof (induction states arbitrary: tm rule: rev_induct)
  case (snoc s states)
  let ?m = "fold add_leader states []"
  have d: "distinct (map fst ?m)" and at: "map_of ?m tm = (if leader_ids states tm = [] then None else Some (leader_ids states tm))" for tm
    using snoc by blast+
  have "distinct (map fst (add_leader s ?m))"
    using d by (simp add: add_leader_def distinct_update split: option.splits)
  moreover have "map_of (add_leader s ?m) tm =
      (if leader_ids (states @ [s]) tm = [] then None else Some (leader_ids (states @ [s]) tm))"
    by (simp add: add_leader_def at leader_ids_def)
  ultimately show ?case by simp
qed (simp add: leader_ids_def)

lemma last_term_cases:
  "last_term_with_leader m acc =
     (if \<exists>(tm, ids) \<in> set m. length ids > 1 then None
      else Some (fold (\<lambda>(tm, ids) v. max v (static_cast_int tm)) m acc))"
  by (induction m acc rule: last_term_with_leader.induct) (auto simp: max_def)

lemma fold_max:
  fixes f :: "'a \<Rightarrow> int"
  shows "(fold (\<lambda>x v. max v (f x)) xs a = a \<or> (\<exists>x \<in> set xs. fold (\<lambda>x v. max v (f x)) xs a = f x)) \<and>
    a \<le> fold (\<lambda>x v. max v (f x)) xs a \<and> (\<forall>x \<in> set xs. f x \<le> fold (\<lambda>x v. max v (f x)) xs a)"
proof (induction xs arbitrary: a)
  case (Cons x xs)
  from Cons [of "max a (f x)"] show ?case by (auto simp: max_def split: if_splits)
qed simp

lemma static_cast_small: "n < 2 ^ 31 \<Longrightarrow> static_cast_int n = int n"
  by (simp add: static_cast_int_def Let_def)

lemma leader_ids_nonempty:
  "leader_ids states tm \<noteq> [] \<longleftrightarrow> (\<exists>s \<in> set states. ts_is_leader s \<and> ts_term s = tm)"
  by (auto simp: leader_ids_def filter_empty_conv)

lemma leader_ids_single:
  "distinct (map ts_term (filter ts_is_leader states)) \<longleftrightarrow> (\<forall>tm. length (leader_ids states tm) \<le> 1)"
proof (induction states)
  case (Cons s states)
  have "length (leader_ids (s # states) tm) =
      (if ts_is_leader s \<and> ts_term s = tm then 1 else 0) + length (leader_ids states tm)" for tm
    by (simp add: leader_ids_def)
  moreover have "ts_term s \<in> ts_term ` set (filter ts_is_leader states) \<longleftrightarrow> leader_ids states (ts_term s) \<noteq> []"
    unfolding leader_ids_nonempty by (auto intro: rev_image_eqI)
  ultimately show ?case using Cons by (auto simp: le_Suc_eq)
qed (simp add: leader_ids_def)

lemma poll_leader_cases:
  assumes small: "\<And>s. s \<in> set states \<Longrightarrow> ts_is_leader s \<Longrightarrow> ts_term s < 2 ^ 31"
  shows "if \<forall>s \<in> set states. \<not> ts_is_leader s then poll_leader states = None
    else if distinct (map ts_term (filter ts_is_leader states))
    then \<exists>s \<in> set states. ts_is_leader s \<and> (\<forall>q \<in> set states. ts_is_leader q \<longrightarrow> ts_term q \<le> ts_term s) \<and>
           poll_leader states = Some (Found (ts_id s))
    else poll_leader states = Some (Throws abort_msg)"
proof -
  let ?m = "fold add_leader states []"
  let ?v = "fold (\<lambda>(tm, ids) v. max v (static_cast_int tm)) ?m (- 1)"
  have at: "map_of ?m tm = (if leader_ids states tm = [] then None else Some (leader_ids states tm))" for tm
    using leaders_map by blast
  have mem: "(tm, ids) \<in> set ?m \<longleftrightarrow> leader_ids states tm \<noteq> [] \<and> ids = leader_ids states tm" for tm ids
    using leaders_map [of states tm] map_of_eq_Some_iff [of ?m tm ids] by (auto split: if_splits)
  have none: "?m = [] \<longleftrightarrow> (\<forall>s \<in> set states. \<not> ts_is_leader s)"
  proof -
    have "m = [] \<longleftrightarrow> (\<forall>a b. (a, b) \<notin> set m)" for m :: "(u64, u64 list) umap" by (cases m) auto
    then have "?m = [] \<longleftrightarrow> (\<forall>tm. leader_ids states tm = [])" using mem by simp
    then show ?thesis using leader_ids_nonempty [of states] by blast
  qed
  have many: "(\<exists>(tm, ids) \<in> set ?m. length ids > 1) \<longleftrightarrow> \<not> distinct (map ts_term (filter ts_is_leader states))"
    unfolding leader_ids_single using mem by (force simp: not_le)
  have v: "?v = - 1 \<or> (\<exists>tm ids. (tm, ids) \<in> set ?m \<and> ?v = static_cast_int tm)"
    and le: "\<And>tm ids. (tm, ids) \<in> set ?m \<Longrightarrow> static_cast_int tm \<le> ?v"
    using fold_max [of "\<lambda>(tm, ids). static_cast_int tm" ?m "- 1"] by (auto simp: case_prod_beta')
  show ?thesis
  proof (cases "?m \<noteq> [] \<and> distinct (map ts_term (filter ts_is_leader states))")
    case True
    have cast: "(tm, ids) \<in> set ?m \<Longrightarrow> static_cast_int tm = int tm" for tm ids
      using mem small leader_ids_nonempty static_cast_small by metis
    obtain tm ids where t: "(tm, ids) \<in> set ?m" "?v = int tm"
    proof -
      obtain a b where ab: "(a, b) \<in> set ?m" using True last_in_set [of ?m] by (metis prod.exhaust)
      from le [OF ab] cast [OF ab] have "?v \<noteq> - 1" by linarith
      with v obtain tm ids where "(tm, ids) \<in> set ?m" "?v = static_cast_int tm" by blast
      with cast that show thesis by metis
    qed
    obtain s where s: "s \<in> set states" "ts_is_leader s" "ts_term s = tm"
      using t(1) mem leader_ids_nonempty by metis
    have "leader_ids states tm = [ts_id s]"
    proof -
      have "length (leader_ids states tm) \<le> 1" "ts_id s \<in> set (leader_ids states tm)"
        using True s unfolding leader_ids_single by (auto simp: leader_ids_def)
      then show ?thesis by (cases "leader_ids states tm") auto
    qed
    moreover have "int_to_u64 ?v = tm" using t(2) small [OF s(1,2)] s(3) by (simp add: int_to_u64_def)
    ultimately have "poll_leader states = Some (Found (ts_id s))"
      using True many at [of tm] by (simp add: poll_leader_def last_term_cases Let_def)
    moreover have "ts_term q \<le> tm" if "q \<in> set states" "ts_is_leader q" for q
    proof -
      have "(ts_term q, leader_ids states (ts_term q)) \<in> set ?m"
        using that mem leader_ids_nonempty by metis
      from le [OF this] cast [OF this] t(2) show ?thesis by linarith
    qed
    ultimately show ?thesis using True none s by auto
  next
    case False
    then show ?thesis
      using none many by (auto simp: poll_leader_def last_term_cases Let_def)
  qed
qed

definition leaderless :: "TState list \<Rightarrow> bool" where
  "leaderless states \<longleftrightarrow> (\<forall>s \<in> set states. \<not> ts_is_leader s)"

lemma poll_leader_None: "leaderless states \<Longrightarrow> poll_leader states = None"
  using poll_leader_cases [of states] by (auto simp: leaderless_def)

lemma poll_loop_first:
  assumes "\<forall>p \<in> set polls. \<not> fst p"
    and "\<And>p. p \<in> set polls \<Longrightarrow> poll_leader (snd p) = None \<longleftrightarrow> leaderless (snd p)"
  shows "if \<forall>p \<in> set polls. leaderless (snd p) then poll_loop polls = Throws abort_msg
    else \<exists>k < length polls. (\<forall>j < k. leaderless (snd (polls ! j))) \<and> \<not> leaderless (snd (polls ! k)) \<and>
           poll_leader (snd (polls ! k)) = Some (poll_loop polls)"
  using assms
proof (induction polls)
  case (Cons p polls)
  obtain h states where p: "p = (h, states)" by (cases p)
  show ?case
  proof (cases "leaderless states")
    case True
    then have eq: "poll_loop (p # polls) = poll_loop polls" using Cons.prems(1) p poll_leader_None by simp
    show ?thesis
    proof (cases "\<forall>q \<in> set polls. leaderless (snd q)")
      case False
      with Cons obtain k where k: "k < length polls" "\<forall>j < k. leaderless (snd (polls ! j))"
        "\<not> leaderless (snd (polls ! k))" "poll_leader (snd (polls ! k)) = Some (poll_loop polls)"
        by (auto split: if_splits)
      have "\<forall>j < Suc k. leaderless (snd ((p # polls) ! j))"
        using k(2) True p by (auto simp: less_Suc_eq_0_disj)
      with k eq False show ?thesis by auto
    qed (use Cons True eq p in auto)
  next
    case False
    then obtain r where "poll_leader states = Some r" using Cons.prems(2) [of p] p by auto
    with False Cons.prems(1) p show ?thesis by (auto intro!: exI [of _ 0])
  qed
qed simp

text \<open>
  \<open>check_one_leader\<close> looks at the polls in turn: the first one in which a node claims to
  lead decides. If two nodes claim the same term, the test aborts; otherwise the node that
  leads the highest term is returned. Without any leader in ten polls the test aborts. Terms
  are assumed to fit an \<open>int\<close>, to which the code casts them.
\<close>

lemma one_leader_found:
  assumes "\<forall>k < 10. \<not> fst (polls k)"
    and small: "\<forall>k < 10. \<forall>s \<in> set (snd (polls k)). ts_is_leader s \<longrightarrow> ts_term s < 2 ^ 31"
  shows "if \<forall>k < 10. leaderless (snd (polls k)) then check_one_leader polls = Throws abort_msg
    else \<exists>k < 10. (\<forall>j < k. leaderless (snd (polls j))) \<and>
      (if distinct (map ts_term (filter ts_is_leader (snd (polls k))))
       then \<exists>s \<in> set (snd (polls k)). ts_is_leader s \<and>
              (\<forall>q \<in> set (snd (polls k)). ts_is_leader q \<longrightarrow> ts_term q \<le> ts_term s) \<and>
              check_one_leader polls = Found (ts_id s)
       else check_one_leader polls = Throws abort_msg)"
proof -
  let ?ps = "map polls [0..<10]"
  have all: "(\<forall>p \<in> set ?ps. leaderless (snd p)) \<longleftrightarrow> (\<forall>k < 10. leaderless (snd (polls k)))" by auto
  note cases = poll_leader_cases [of "snd (polls k)" for k]
  have dec: "poll_leader (snd p) = None \<longleftrightarrow> leaderless (snd p)" if p: "p \<in> set ?ps" for p
  proof -
    from p obtain k where k: "k < 10" "p = polls k" by auto
    with cases [of k] small show ?thesis by (auto simp: leaderless_def split: if_splits)
  qed
  have first: "if \<forall>k < 10. leaderless (snd (polls k)) then check_one_leader polls = Throws abort_msg
    else \<exists>k < 10. (\<forall>j < k. leaderless (snd (polls j))) \<and> \<not> leaderless (snd (polls k)) \<and>
           poll_leader (snd (polls k)) = Some (check_one_leader polls)"
    using poll_loop_first [of ?ps, OF _ dec] assms(1) unfolding all check_one_leader_def
    by (auto split: if_splits)
  show ?thesis
  proof (cases "\<forall>k < 10. leaderless (snd (polls k))")
    case False
    with first obtain k where k: "k < 10" "\<forall>j < k. leaderless (snd (polls j))" "\<not> leaderless (snd (polls k))"
      "poll_leader (snd (polls k)) = Some (check_one_leader polls)" by auto
    from cases [of k] small k(1,3,4)
    have "if distinct (map ts_term (filter ts_is_leader (snd (polls k))))
       then \<exists>s \<in> set (snd (polls k)). ts_is_leader s \<and>
              (\<forall>q \<in> set (snd (polls k)). ts_is_leader q \<longrightarrow> ts_term q \<le> ts_term s) \<and>
              check_one_leader polls = Found (ts_id s)
       else check_one_leader polls = Throws abort_msg"
      by (auto simp: leaderless_def split: if_splits)
    with k(1,2) False show ?thesis by auto
  qed (use first in simp)
qed

definition polled :: "nat \<Rightarrow> bool \<times> TState list" where
  "polled k =
     (False, [\<lparr>ts_term = 4, ts_is_leader = (1 \<le> k), ts_id = 0\<rparr>,
              \<lparr>ts_term = 7, ts_is_leader = (1 \<le> k), ts_id = 1\<rparr>, \<lparr>ts_term = 9, ts_is_leader = False, ts_id = 2\<rparr>])"

lemma one_leader_found_witness: "check_one_leader polled = Found 1"
proof -
  have some: "\<not> (\<forall>k < 10. leaderless (snd (polled k)))"
    by (auto simp: leaderless_def polled_def intro!: exI [of _ "1 :: nat"])
  have one: "distinct (map ts_term (filter ts_is_leader (snd (polled k))))" for k by (simp add: polled_def)
  have "\<forall>k < 10. \<not> fst (polled k)"
    "\<forall>k < 10. \<forall>s \<in> set (snd (polled k)). ts_is_leader s \<longrightarrow> ts_term s < 2 ^ 31" by (auto simp: polled_def)
  from one_leader_found [OF this] some one
  obtain k s where "s \<in> set (snd (polled k))" "ts_is_leader s"
    "\<forall>q \<in> set (snd (polled k)). ts_is_leader q \<longrightarrow> ts_term q \<le> ts_term s" "check_one_leader polled = Found (ts_id s)"
    by (auto split: if_splits)
  then show ?thesis by (auto simp: polled_def)
qed

text \<open>Beyond an \<open>int\<close> the highest term is looked up under another key, and an empty vector's front is read.\<close>

lemma high_term_undefined:
  assumes "2 ^ 31 \<le> tm" "tm < 2 ^ 32"
  shows "check_one_leader (\<lambda>_. (False, [\<lparr>ts_term = tm, ts_is_leader = True, ts_id = i\<rparr>])) = FrontOfEmpty"
proof -
  have "poll_leader [\<lparr>ts_term = tm, ts_is_leader = True, ts_id = i\<rparr>] = Some FrontOfEmpty"
    using assms by (simp add: poll_leader_def add_leader_def static_cast_int_def int_to_u64_def Let_def)
  then show ?thesis by (simp add: check_one_leader_def upt_rec)
qed

section \<open>The count of the nodes that committed an index\<close>

lemma n_committed_correct:
  assumes "n_committed i seen = Found (count, data)"
  shows "count = length (filter (\<lambda>(n, t). \<exists>log. map_of (tc_logs t) n = Some log \<and> map_of log i = Some data) seen)"
proof -
  have "n_committed_loop i seen k d = Found (count, data) \<Longrightarrow>
      (0 < k \<longrightarrow> data = d) \<and>
      count = k + length (filter (\<lambda>(n, t). \<exists>log. map_of (tc_logs t) n = Some log \<and> map_of log i = Some data) seen)"
    for k d
  proof (induction i seen k d rule: n_committed_loop.induct)
    case (2 i n t seen k d)
    then show ?case
      by (auto split: if_splits option.splits)
  qed simp
  from this [of 0 "[]"] assms show ?thesis by (simp add: n_committed_def)
qed

end
