(* ===== verification/Replicated_Kv.thy ===== *)
theory Replicated_Kv
  imports Raft_Safety Raft_Races Kv_Node Test_Config
begin

text \<open>
  The composition of the parts: a Raft cluster delivers results, and each node's key-value
  server applies them.

  \<open>replicated_log\<close> is the contract of the consensus layer that the servers rely on: results
  that different nodes deliver for the same index are equal. It is interpreted on the cluster
  model. A server that got the first results in index order then holds the state that every
  other such server holds at that point, whatever its clients did meanwhile.

  \<open>configured_cluster\<close> is the cluster that the generated configurations and
  \<open>connect_peers\<close> set up; it is a start state of the cluster model.
\<close>

section \<open>Delivered in order\<close>

definition in_order :: "ApplyResult list \<Rightarrow> bool" where
  "in_order rs \<longleftrightarrow> map ar_index rs = [1..<length rs + 1]"

lemma in_order_nth: "in_order rs \<Longrightarrow> i < length rs \<Longrightarrow> ar_index (rs ! i) = i + 1"
  unfolding in_order_def by (metis add.commute add_diff_cancel_right' length_map length_upt nth_map nth_upt
      trans_less_add2 less_add_same_cancel1 zero_less_one add_less_cancel_left)

text \<open>What a test sees: the streams of the nodes, each in its own order, mixed in any way.\<close>

definition mixed_streams :: "(u64 \<Rightarrow> ApplyResult list) \<Rightarrow> TApplyResult list \<Rightarrow> bool" where
  "mixed_streams out rs \<longleftrightarrow>
     (\<forall>n. prefix (filter (\<lambda>r. ta_id r = n) rs) (map (tester_result n) (out n)))"

lemma mixed_streams_mem:
  assumes "mixed_streams out rs" "r \<in> set rs"
  obtains x where "x \<in> set (out (ta_id r))" "r = tester_result (ta_id r) x"
proof -
  have "r \<in> set (filter (\<lambda>q. ta_id q = ta_id r) rs)" using assms(2) by simp
  then have "r \<in> set (map (tester_result (ta_id r)) (out (ta_id r)))"
    using assms(1) set_mono_prefix unfolding mixed_streams_def by blast
  with that show thesis by auto
qed

lemma mixed_streams_no_gaps:
  assumes "mixed_streams out rs" "\<And>r. r \<in> set rs \<Longrightarrow> in_order (out (ta_id r))"
  shows "no_gaps (rev rs)"
  using assms
proof (induction rs rule: rev_induct)
  case (snoc r rs)
  have "mixed_streams out rs"
    unfolding mixed_streams_def
  proof
    fix n
    have "prefix (filter (\<lambda>r. ta_id r = n) rs @ filter (\<lambda>r. ta_id r = n) [r]) (map (tester_result n) (out n))"
      using snoc.prems(1) by (simp add: mixed_streams_def)
    then show "prefix (filter (\<lambda>r. ta_id r = n) rs) (map (tester_result n) (out n))" by (rule append_prefixD)
  qed
  with snoc have IH: "no_gaps (rev rs)" by simp
  let ?n = "ta_id r" and ?own = "filter (\<lambda>q. ta_id q = ta_id r) rs"
  let ?out = "map (tester_result ?n) (out ?n)" and ?k = "length ?own"
  have "prefix (?own @ [r]) ?out"
    using snoc.prems(1) [unfolded mixed_streams_def, THEN spec, of ?n] by simp
  then obtain zs where zs: "?out = (?own @ [r]) @ zs" by (auto elim: prefixE)
  then have "length ?out = length ((?own @ [r]) @ zs)" by simp
  then have k: "?k < length (out ?n)" by simp
  have r: "r = ?out ! ?k" unfolding zs by (simp add: nth_append)
  have ord: "in_order (out ?n)" using snoc.prems(2) by simp
  have ix: "ta_index r = ?k + 1" using k in_order_nth [OF ord, of ?k] arg_cong [OF r, of ta_index] by (simp add: tester_result_def)
  have "\<exists>q \<in> set rs. ta_id q = ?n \<and> ta_index q = ta_index r - 1" if "ta_index r > 1"
  proof -
    from that ix have j: "?k - 1 < ?k" "?k - 1 < length (out ?n)" using k by auto
    have "?own ! (?k - 1) = ?out ! (?k - 1)" using j(1) by (simp add: zs nth_append)
    then have "ta_index (?own ! (?k - 1)) = ?k"
      using j in_order_nth [OF ord j(2)] by (simp add: tester_result_def)
    moreover have "?own ! (?k - 1) \<in> set ?own" using j(1) by (rule nth_mem)
    ultimately show ?thesis using ix by (intro bexI [of _ "?own ! (?k - 1)"]) auto
  qed
  with IH show ?case by simp
qed simp

locale replicated_log =
  fixes good :: "'c \<Rightarrow> bool" and replica :: "'c \<Rightarrow> 'n \<Rightarrow> bool" and delivered :: "'c \<Rightarrow> 'n \<Rightarrow> ApplyResult list"
  assumes same_index: "good c \<Longrightarrow> replica c n \<Longrightarrow> replica c m \<Longrightarrow>
      r \<in> set (delivered c n) \<Longrightarrow> r' \<in> set (delivered c m) \<Longrightarrow> ar_index r = ar_index r' \<Longrightarrow> r = r'"
    and valid: "good c \<Longrightarrow> replica c n \<Longrightarrow> r \<in> set (delivered c n) \<Longrightarrow> ar_valid r"
begin

lemma prefixes_agree:
  assumes "good c" "replica c n" "replica c m" "in_order (delivered c n)" "in_order (delivered c m)"
    and "k \<le> length (delivered c n)" "k \<le> length (delivered c m)"
  shows "take k (delivered c n) = take k (delivered c m)"
proof (rule nth_equalityI)
  show "length (take k (delivered c n)) = length (take k (delivered c m))" using assms(6,7) by simp
  fix i assume "i < length (take k (delivered c n))"
  then have i: "i < length (delivered c n)" "i < length (delivered c m)" "i < k" using assms(6,7) by auto
  have "delivered c n ! i = delivered c m ! i"
    by (rule same_index [OF assms(1-3)])
       (use i in_order_nth [OF assms(4)] in_order_nth [OF assms(5)] in auto)
  with i show "take k (delivered c n) ! i = take k (delivered c m) ! i" by simp
qed

end

text \<open>On the replicas of a log, a test has nothing to object to.\<close>

locale tested_log = replicated_log good replica delivered
  for good :: "'c \<Rightarrow> bool" and replica :: "'c \<Rightarrow> u64 \<Rightarrow> bool" and delivered :: "'c \<Rightarrow> u64 \<Rightarrow> ApplyResult list"
begin

lemma streams_acceptable:
  assumes "good c" "mixed_streams (delivered c) rs"
    and member: "\<And>r. r \<in> set rs \<Longrightarrow> replica c (ta_id r) \<and> in_order (delivered c (ta_id r))"
  shows "(\<forall>r \<in> set rs. ta_valid r) \<and> acceptable rs"
proof -
  have "ta_valid r" if "r \<in> set rs" for r
    using mixed_streams_mem [OF assms(2) that] valid [OF assms(1)] member [OF that]
    by (metis TApplyResult.select_convs(1) tester_result_def)
  moreover have "ta_data r = ta_data q" if eq: "r \<in> set rs" "q \<in> set rs" "ta_index r = ta_index q" for r q
  proof -
    obtain x where x: "x \<in> set (delivered c (ta_id r))" "r = tester_result (ta_id r) x"
      by (rule mixed_streams_mem [OF assms(2) eq(1)])
    obtain y where y: "y \<in> set (delivered c (ta_id q))" "q = tester_result (ta_id q) y"
      by (rule mixed_streams_mem [OF assms(2) eq(2)])
    have f: "ta_index (tester_result n z) = ar_index z" "ta_data (tester_result n z) = ar_data z" for n z
      by (simp_all add: tester_result_def)
    have "ar_index x = ar_index y" using eq(3) x(2) y(2) f by metis
    then have "x = y" using same_index [OF assms(1) _ _ x(1) y(1)] member eq by blast
    then show ?thesis using x(2) y(2) f by metis
  qed
  then have "consistent rs" unfolding consistent_def by blast
  ultimately show ?thesis
    using mixed_streams_no_gaps [OF assms(2)] member by (simp add: acceptable_def)
qed

end

interpretation raft: replicated_log "\<lambda>c. cluster_reach (members c) c" "\<lambda>c n. n \<in> set (members c)"
    "\<lambda>c n. ready_out (node c n)"
  by unfold_locales (fact results_agree, fact results_valid)

interpretation tested: tested_log "\<lambda>c. cluster_reach (members c) c" "\<lambda>c n. n \<in> set (members c)"
    "\<lambda>c n. ready_out (node c n)"
  by unfold_locales

lemma cluster_members: "cluster_reach ms c \<Longrightarrow> members c = ms"
  using reach_rel by blast

section \<open>The cluster that is set up\<close>

definition configured_cluster :: "nat \<Rightarrow> u64 \<Rightarrow> (u64 \<Rightarrow> nat) \<Rightarrow> cluster" where
  "configured_cluster n port draw =
     (let cs = gen_raft_configs (gen_local_instances n port)
      in \<lparr>members = map c_id cs,
          node = (\<lambda>i. connect_peers (cs ! i) (raft_init i [] (draw i))),
          pc = (\<lambda>_. RunStart), rv_calls = {}, rv_rets = {}, ae_calls = {}, ae_rets = {}, elected = {}\<rparr>)"

lemma configured_cluster_start:
  assumes "port + n < 2 ^ 64"
  shows "cluster_start [0..<n] (configured_cluster n port draw)"
proof -
  let ?cs = "gen_raft_configs (gen_local_instances n port)"
  have ids: "map c_id ?cs = [0..<n]" using local_ids by (simp add: gen_raft_configs_def comp_def)
  have "\<exists>ps d. peers_of i [0..<n] ps \<and> connect_peers (?cs ! i) (raft_init i [] (draw i)) = raft_init i ps d"
    if "i < n" for i
  proof -
    have len: "length ?cs = n" using arg_cong [OF ids, of length] by simp
    with that have i: "?cs ! i \<in> set ?cs" "c_id (?cs ! i) = i"
      using nth_map [of i ?cs c_id] ids by simp_all
    let ?ps = "fold (\<lambda>(i, a). AList.update i True) (c_peer_addrs (?cs ! i)) []"
    have "fst ` set (c_peer_addrs (?cs ! i)) = {0..<n} - {i}"
      using local_peers_dom [OF i(1)] i(2) by (simp add: dom_map_of_conv_image_fst)
    then have "peers_of i [0..<n] ?ps"
      using distinct_fold_update [of "[]" True "c_peer_addrs (?cs ! i)"]
        keys_fold_update [of True "c_peer_addrs (?cs ! i)" "[]"]
        fold_update_all [of "[]" "c_peer_addrs (?cs ! i)" _ _ True] by (auto simp: peers_of_def)
    moreover have "connect_peers (?cs ! i) (raft_init i [] (draw i)) = raft_init i ?ps (draw i)"
      by (simp add: connect_peers_def raft_init_def)
    ultimately show ?thesis by blast
  qed
  then show ?thesis
    using ids by (auto simp: cluster_start_def configured_cluster_def Let_def)
qed

end
