(* ===== verification/Peer_Worker.thy ===== *)
theory Peer_Worker
  imports Prelude
begin

text \<open>
  The worker thread that \<open>connect_peers\<close> starts for every peer
  (\<open>src/inc/rafty/impl/raft.ipp\<close>), the way \<open>send_heartbeats\<close> hands it a request and waits
  for it (\<open>src/src/raft.cpp\<close>), and \<open>kill\<close>. One worker with its three parties: the worker,
  the run thread and the thread that kills. They share a mutex and one condition variable
  with \<open>notify_one\<close>; \<open>notify\<close> wakes one sleeper, and its argument chooses which one when
  both sleep. A wait evaluates its predicate under the mutex and sleeps when it is false.

  \<open>submitted\<close> and \<open>executed\<close> are histories of the requests handed over and of those whose
  RPC has returned.
\<close>

section \<open>Definitions\<close>

record 'q PeerWorker =
  has_task :: bool
  task_done :: bool
  stop :: bool
  task :: "'q option"

datatype 'q worker_pc = WCheck | WAsleep | WRun 'q | WExit

datatype 'q run_thread = RIdle | RSubmit 'q | RSubmitAsleep 'q | RAwait | RAwaitAsleep

datatype kill_thread = KIdle | KNotify | KJoin | KDone

record 'q pw_sys =
  pw :: "'q PeerWorker"
  wk :: "'q worker_pc"
  rn :: "'q run_thread"
  kl :: kill_thread
  submitted :: "'q list"
  executed :: "'q list"

definition pw_start :: "'q pw_sys" where
  "pw_start = \<lparr>pw = \<lparr>has_task = False, task_done = True, stop = False, task = None\<rparr>,
     wk = WCheck, rn = RIdle, kl = KIdle, submitted = [], executed = []\<rparr>"

fun wake_run :: "'q run_thread \<Rightarrow> 'q run_thread" where
  "wake_run (RSubmitAsleep q) = RSubmit q"
| "wake_run RAwaitAsleep = RAwait"
| "wake_run r = r"

definition notify :: "bool \<Rightarrow> 'q pw_sys \<Rightarrow> 'q pw_sys" where
  "notify to_worker s =
     (if wk s = WAsleep \<and> (to_worker \<or> wake_run (rn s) = rn s) then s\<lparr>wk := WCheck\<rparr>
      else s\<lparr>rn := wake_run (rn s)\<rparr>)"

text \<open>The worker's loop: wait, take the task, and after the RPC report it.\<close>

definition worker_wait :: "'q pw_sys \<Rightarrow> 'q pw_sys option" where
  "worker_wait s =
     (if \<not> has_task (pw s) \<and> \<not> stop (pw s) then Some (s\<lparr>wk := WAsleep\<rparr>)
      else if stop (pw s) then Some (s\<lparr>wk := WExit\<rparr>)
      else case task (pw s) of
          None \<Rightarrow> None
        | Some q \<Rightarrow> Some (s\<lparr>pw := (pw s)\<lparr>has_task := False, task := None\<rparr>, wk := WRun q\<rparr>))"

definition worker_done :: "bool \<Rightarrow> 'q \<Rightarrow> 'q pw_sys \<Rightarrow> 'q pw_sys" where
  "worker_done b q s =
     notify b (s\<lparr>pw := (pw s)\<lparr>task_done := True\<rparr>, executed := executed s @ [q], wk := WCheck\<rparr>)"

text \<open>The run thread's two loops over the workers, for this worker.\<close>

definition post_task :: "bool \<Rightarrow> 'q \<Rightarrow> 'q pw_sys \<Rightarrow> 'q pw_sys" where
  "post_task b q s =
     (if \<not> task_done (pw s) then s\<lparr>rn := RSubmitAsleep q\<rparr>
      else notify b (s\<lparr>pw := (pw s)\<lparr>task := Some q, task_done := False, has_task := True\<rparr>,
                      rn := RAwait, submitted := submitted s @ [q]\<rparr>))"

definition await_task :: "'q pw_sys \<Rightarrow> 'q pw_sys" where
  "await_task s = (if task_done (pw s) then s\<lparr>rn := RIdle\<rparr> else s\<lparr>rn := RAwaitAsleep\<rparr>)"

datatype 'q pw_event =
    Worker
  | WorkerReturn bool
  | Submit 'q
  | Run bool
  | Kill
  | KillNotify bool
  | Join
  | SpuriousWorker
  | SpuriousRun

fun pw_exec :: "'q pw_event \<Rightarrow> 'q pw_sys \<Rightarrow> 'q pw_sys option" where
  "pw_exec Worker s = (if wk s = WCheck then worker_wait s else None)"
| "pw_exec (WorkerReturn b) s = (case wk s of WRun q \<Rightarrow> Some (worker_done b q s) | _ \<Rightarrow> None)"
| "pw_exec (Submit q) s = (if rn s = RIdle then Some (s\<lparr>rn := RSubmit q\<rparr>) else None)"
| "pw_exec (Run b) s =
     (case rn s of RSubmit q \<Rightarrow> Some (post_task b q s) | RAwait \<Rightarrow> Some (await_task s) | _ \<Rightarrow> None)"
| "pw_exec Kill s =
     (if kl s = KIdle then Some (s\<lparr>pw := (pw s)\<lparr>stop := True\<rparr>, kl := KNotify\<rparr>) else None)"
| "pw_exec (KillNotify b) s = (if kl s = KNotify then Some (notify b (s\<lparr>kl := KJoin\<rparr>)) else None)"
| "pw_exec Join s = (if kl s = KJoin \<and> wk s = WExit then Some (s\<lparr>kl := KDone\<rparr>) else None)"
| "pw_exec SpuriousWorker s = (if wk s = WAsleep then Some (s\<lparr>wk := WCheck\<rparr>) else None)"
| "pw_exec SpuriousRun s = Some (s\<lparr>rn := wake_run (rn s)\<rparr>)"

definition pw_step :: "'q pw_sys \<Rightarrow> 'q pw_event \<Rightarrow> 'q pw_sys \<Rightarrow> bool" where
  "pw_step s e s' \<longleftrightarrow> pw_exec e s = Some s'"

section \<open>Invariant\<close>

text \<open>
  A request is either being sent, or waiting to be taken, or there is none. In each case a
  sleeper has nothing to do, except for a worker whose \<open>kill\<close> has not notified yet.
\<close>

fun phase_ok :: "'q PeerWorker \<Rightarrow> 'q worker_pc \<Rightarrow> 'q run_thread \<Rightarrow> 'q list \<Rightarrow> 'q list \<Rightarrow> bool" where
  "phase_ok w (WRun q) r sub ex \<longleftrightarrow>
     \<not> task_done w \<and> \<not> has_task w \<and> sub = ex @ [q] \<and> (r = RAwait \<or> r = RAwaitAsleep)"
| "phase_ok w k r sub ex \<longleftrightarrow>
     (if task_done w then \<not> has_task w \<and> sub = ex \<and> wake_run r = r
      else has_task w \<and> k \<noteq> WAsleep \<and> (r = RAwait \<or> r = RAwaitAsleep) \<and>
        (case task w of None \<Rightarrow> False | Some q \<Rightarrow> sub = ex @ [q]))"

definition kill_ok :: "'q pw_sys \<Rightarrow> bool" where
  "kill_ok s \<longleftrightarrow>
     (stop (pw s) \<longleftrightarrow> kl s \<noteq> KIdle) \<and> (wk s = WExit \<longrightarrow> stop (pw s)) \<and>
     (wk s = WAsleep \<longrightarrow> kl s = KIdle \<or> kl s = KNotify)"

definition pw_inv :: "'q pw_sys \<Rightarrow> bool" where
  "pw_inv s \<longleftrightarrow> phase_ok (pw s) (wk s) (rn s) (submitted s) (executed s) \<and> kill_ok s"

lemmas pw_op_defs = worker_wait_def worker_done_def post_task_def await_task_def notify_def

lemma pw_inv_worker: "pw_inv s \<Longrightarrow> pw_exec Worker s = Some s' \<Longrightarrow> pw_inv s'"
  by (auto simp: pw_inv_def kill_ok_def worker_wait_def split: if_splits option.splits)

lemma pw_inv_return: "pw_inv s \<Longrightarrow> pw_exec (WorkerReturn b) s = Some s' \<Longrightarrow> pw_inv s'"
  by (cases "rn s"; auto simp: pw_inv_def kill_ok_def worker_done_def notify_def split: worker_pc.splits)

lemma pw_inv_run: "pw_inv s \<Longrightarrow> pw_exec (Run b) s = Some s' \<Longrightarrow> pw_inv s'"
  by (cases "rn s"; cases "wk s"; simp add: pw_inv_def kill_ok_def post_task_def await_task_def notify_def
      split: if_splits option.splits; auto)

lemma pw_inv_submit: "pw_inv s \<Longrightarrow> pw_exec (Submit q) s = Some s' \<Longrightarrow> pw_inv s'"
  by (cases "wk s"; auto simp: pw_inv_def kill_ok_def split: if_splits)

lemma pw_inv_kill: "pw_inv s \<Longrightarrow> pw_exec Kill s = Some s' \<Longrightarrow> pw_inv s'"
  by (cases "wk s"; auto simp: pw_inv_def kill_ok_def split: if_splits)

lemma pw_inv_kill_notify: "pw_inv s \<Longrightarrow> pw_exec (KillNotify b) s = Some s' \<Longrightarrow> pw_inv s'"
  by (cases "rn s"; cases "wk s"; simp add: pw_inv_def kill_ok_def notify_def split: if_splits option.splits; auto)

lemma pw_inv_rest:
  "pw_inv s \<Longrightarrow> pw_exec Join s = Some s' \<Longrightarrow> pw_inv s'"
  "pw_inv s \<Longrightarrow> pw_exec SpuriousWorker s = Some s' \<Longrightarrow> pw_inv s'"
  "pw_inv s \<Longrightarrow> pw_exec SpuriousRun s = Some s' \<Longrightarrow> pw_inv s'"
  by (cases "rn s"; cases "wk s"; auto simp: pw_inv_def kill_ok_def split: if_splits option.splits)+

lemma pw_inv_step: "pw_inv s \<Longrightarrow> pw_exec e s = Some s' \<Longrightarrow> pw_inv s'"
  by (cases e; hypsubst;
      erule (1) pw_inv_worker pw_inv_return pw_inv_run pw_inv_submit pw_inv_kill pw_inv_kill_notify pw_inv_rest)

interpretation pwi: transition_invariant "\<lambda>s. s = pw_start" pw_step pw_inv
proof
  show "pw_inv s" if "s = pw_start" for s :: "'q pw_sys"
    using that by (simp add: pw_inv_def kill_ok_def pw_start_def)
  show "pw_inv s'" if "pw_inv s" "pw_step s e s'" for s s' :: "'q pw_sys" and e
    using that by (auto simp: pw_step_def intro: pw_inv_step)
qed

section \<open>Properties\<close>

text \<open>
  C22: the worker sends every request once, in the order they were handed over, and when
  \<open>send_heartbeats\<close> gets past its wait, the reply it reads is that of its own request: all
  requests handed over have been sent.
\<close>

theorem worker_in_order:
  assumes "reach (\<lambda>s. s = pw_start) pw_step s"
  shows "(submitted s = executed s \<or> (\<exists>q. submitted s = executed s @ [q])) \<and>
    (rn s = RIdle \<longrightarrow> submitted s = executed s)"
proof -
  from pwi.reach_inv [OF assms] have "phase_ok (pw s) (wk s) (rn s) (submitted s) (executed s)"
    by (simp add: pw_inv_def)
  then show ?thesis by (cases "wk s") (auto split: if_splits option.splits)
qed

text \<open>One request through the worker.\<close>

definition send_run :: "nat pw_event list" where
  "send_run = [Worker, Submit 5, Run True, Run True, Worker, WorkerReturn True, Run True]"

lemma pw_reach: "run_steps pw_exec es pw_start = Some s \<Longrightarrow> reach (\<lambda>s. s = pw_start) pw_step s"
  by (erule run_steps_reach) (auto simp: pw_step_def intro: reach_start)

theorem worker_in_order_witness:
  "\<exists>s. run_steps pw_exec send_run pw_start = Some s \<and> submitted s = [5] \<and> executed s = [5]"
proof -
  have "\<exists>s. run_steps pw_exec send_run pw_start = Some s \<and> rn s = RIdle \<and> submitted s = [5]"
    by (rule case_option_ex) code_simp
  then obtain s where s: "run_steps pw_exec send_run pw_start = Some s" "rn s = RIdle" "submitted s = [5]"
    by blast
  from worker_in_order [OF pw_reach [OF s(1)]] s show ?thesis by simp
qed

text \<open>
  C23: no wake-up is lost: as long as nobody kills the node, a run thread that waits for the
  worker gets on by the steps of the worker alone, once its RPC returns.
\<close>

theorem worker_progress:
  assumes "reach (\<lambda>s. s = pw_start) pw_step s" "\<not> stop (pw s)" "rn s = RAwait \<or> rn s = RAwaitAsleep"
  shows "\<exists>es s'. set es \<subseteq> {Worker, WorkerReturn False, Run False} \<and> run_steps pw_exec es s = Some s' \<and>
    rn s' = RIdle \<and> executed s' = submitted s"
proof -
  from pwi.reach_inv [OF assms(1)] have inv: "phase_ok (pw s) (wk s) (rn s) (submitted s) (executed s)"
    "wk s \<noteq> WExit"
    using assms(2) by (auto simp: pw_inv_def kill_ok_def)
  consider q where "wk s = WRun q" | "task_done (pw s)" "rn s = RAwait" "submitted s = executed s"
    | q where "wk s = WCheck" "has_task (pw s)" "task (pw s) = Some q"
    using inv assms(3) by (cases "wk s") (auto split: if_splits option.splits)
  then show ?thesis
  proof cases
    case 1
    with inv assms(3) show ?thesis
      by (intro exI [of _ "[WorkerReturn False, Run False]"])
         (auto simp: worker_done_def notify_def await_task_def)
  next
    case 2
    then show ?thesis by (intro exI [of _ "[Run False]"]) (auto simp: await_task_def)
  next
    case 3
    with inv assms(2,3) show ?thesis
      by (intro exI [of _ "[Worker, WorkerReturn False, Run False]"])
         (auto simp: worker_wait_def worker_done_def notify_def await_task_def split: if_splits)
  qed
qed

theorem worker_progress_witness:
  "\<exists>s es s'. run_steps pw_exec [Worker, Submit (5 :: nat), Run True, Run True] pw_start = Some s \<and>
     rn s = RAwaitAsleep \<and> run_steps pw_exec es s = Some s' \<and> rn s' = RIdle"
proof -
  have "\<exists>s. run_steps pw_exec [Worker, Submit (5 :: nat), Run True, Run True] pw_start = Some s \<and>
      \<not> stop (pw s) \<and> rn s = RAwaitAsleep"
    by (rule case_option_ex) code_simp
  then obtain s where s: "run_steps pw_exec [Worker, Submit (5 :: nat), Run True, Run True] pw_start = Some s"
    "\<not> stop (pw s)" "rn s = RAwaitAsleep"
    by blast
  from worker_progress [OF pw_reach [OF s(1)] s(2)] s show ?thesis by blast
qed

text \<open>
  C29: \<open>kill\<close> can strand the run thread. When it sets \<open>stop\<close> after a request was handed
  over and before the worker took it, the worker exits without reporting; from then on
  \<open>send_heartbeats\<close> never gets past its wait, whatever happens.
\<close>

definition stranded :: "'q pw_sys \<Rightarrow> bool" where
  "stranded s \<longleftrightarrow> wk s = WExit \<and> \<not> task_done (pw s) \<and> (rn s = RAwait \<or> rn s = RAwaitAsleep)"

lemma stranded_step: "stranded s \<Longrightarrow> pw_exec e s = Some s' \<Longrightarrow> stranded s'"
  by (cases e) (auto simp: stranded_def pw_op_defs split: if_splits)

theorem kill_strands_run:
  "\<exists>s. run_steps pw_exec [Submit (5 :: nat), Run True, Kill, KillNotify True, Worker, Join] pw_start = Some s \<and>
     kl s = KDone \<and> \<not> (\<exists>es s'. run_steps pw_exec es s = Some s' \<and> rn s' = RIdle)"
proof -
  have "\<exists>s. run_steps pw_exec [Submit (5 :: nat), Run True, Kill, KillNotify True, Worker, Join] pw_start = Some s \<and>
      kl s = KDone \<and> stranded s"
    by (rule case_option_ex) code_simp
  moreover have "stranded s \<Longrightarrow> run_steps pw_exec es s = Some s' \<Longrightarrow> rn s' \<noteq> RIdle"
    for es :: "nat pw_event list" and s s'
  proof (induction es arbitrary: s)
    case Nil
    then show ?case by (auto simp: stranded_def)
  next
    case (Cons e es)
    then show ?case using stranded_step by (auto split: option.splits)
  qed
  ultimately show ?thesis by blast
qed

end
