(* ===== verification/Kv_Client.thy ===== *)
theory Kv_Client
  imports Kv_Server
begin

text \<open>
  The retrying client of \<open>src/inc/kv/kv_client.hpp\<close>. A stub is a value of any type; what a
  call on a stub returns at an attempt is a parameter of the operations (\<open>call\<close>: the
  network and the server answer it), and so is the client id that the constructor draws.
  \<open>None\<close> is undefined behaviour: a stub index out of range, or the remainder by zero in
  \<open>rotate_leader\<close>. Deadlines and the pause between attempts do not appear.

  Shown: with at least one replica no call is undefined, and the index stays in range; the
  result is that of the first successful attempt of the round robin, or a timeout; a replica
  that answers long enough is found; the requests of a client carry increasing numbers, and
  all attempts of an operation the same one.
\<close>

section \<open>Definitions\<close>

datatype KvRequest =
    PutRequest bytes bytes u64 u64
  | GetRequest bytes u64 u64
  | AppendRequest bytes bytes u64 u64

text \<open>What a call returns: a gRPC failure, or a response.\<close>

datatype kv_outcome = RpcFailed | Response KvStatus bytes

record 'a KvClient =
  stubs :: "'a list"
  client_id :: u64
  seq_num :: u64
  leader_idx :: nat

definition max_attempts :: nat where
  "max_attempts = 50"

definition client_new :: "u64 \<Rightarrow> 'a list \<Rightarrow> 'a KvClient" where
  "client_new gen addrs = \<lparr>stubs = addrs, client_id = gen, seq_num = 0, leader_idx = 0\<rparr>"

definition rotate_leader :: "'a KvClient \<Rightarrow> 'a KvClient option" where
  "rotate_leader c =
     (if stubs c = [] then None
      else Some (c\<lparr>leader_idx := (leader_idx c + 1) mod length (stubs c)\<rparr>))"

text \<open>
  The loop of the three operations, from attempt \<open>k\<close> with \<open>n\<close> attempts left.
\<close>

fun attempts ::
  "nat \<Rightarrow> nat \<Rightarrow> (nat \<Rightarrow> 'a \<Rightarrow> KvRequest \<Rightarrow> kv_outcome) \<Rightarrow> KvRequest \<Rightarrow> 'a KvClient \<Rightarrow>
   (KvStatus \<times> bytes \<times> 'a KvClient) option" where
  "attempts 0 k call req c = Some (KV_TIMEOUT, [], c)"
| "attempts (Suc n) k call req c =
     (case vec_at (stubs c) (leader_idx c) of
        None \<Rightarrow> None
      | Some stub \<Rightarrow>
          (case call k stub req of
             Response KV_SUCCESS v \<Rightarrow> Some (KV_SUCCESS, v, c)
           | _ \<Rightarrow>
               (case rotate_leader c of
                  None \<Rightarrow> None
                | Some c' \<Rightarrow> attempts n (k + 1) call req c')))"

definition client_put ::
  "(nat \<Rightarrow> 'a \<Rightarrow> KvRequest \<Rightarrow> kv_outcome) \<Rightarrow> bytes \<Rightarrow> bytes \<Rightarrow> 'a KvClient \<Rightarrow> (KvStatus \<times> 'a KvClient) option" where
  "client_put call key val c =
     (let seq = inc64 (seq_num c); c1 = c\<lparr>seq_num := seq\<rparr>
      in map_option (\<lambda>(st, v, c2). (st, c2))
           (attempts max_attempts 0 call (PutRequest key val (client_id c) seq) c1))"

definition client_get ::
  "(nat \<Rightarrow> 'a \<Rightarrow> KvRequest \<Rightarrow> kv_outcome) \<Rightarrow> bytes \<Rightarrow> 'a KvClient \<Rightarrow> (KvStatus \<times> bytes \<times> 'a KvClient) option" where
  "client_get call key c =
     (let seq = inc64 (seq_num c); c1 = c\<lparr>seq_num := seq\<rparr>
      in attempts max_attempts 0 call (GetRequest key (client_id c) seq) c1)"

definition client_append ::
  "(nat \<Rightarrow> 'a \<Rightarrow> KvRequest \<Rightarrow> kv_outcome) \<Rightarrow> bytes \<Rightarrow> bytes \<Rightarrow> 'a KvClient \<Rightarrow> (KvStatus \<times> 'a KvClient) option" where
  "client_append call key val c =
     (let seq = inc64 (seq_num c); c1 = c\<lparr>seq_num := seq\<rparr>
      in map_option (\<lambda>(st, v, c2). (st, c2))
           (attempts max_attempts 0 call (AppendRequest key val (client_id c) seq) c1))"

definition client_ok :: "'a KvClient \<Rightarrow> bool" where
  "client_ok c \<longleftrightarrow> leader_idx c < length (stubs c)"

text \<open>
  The reference: the stub of attempt \<open>k\<close>, the value of the first success among the
  attempts \<open>ks\<close>.
\<close>

definition stub_at :: "nat \<Rightarrow> 'a KvClient \<Rightarrow> 'a" where
  "stub_at k c = stubs c ! ((leader_idx c + k) mod length (stubs c))"

definition reply_at :: "(nat \<Rightarrow> 'a \<Rightarrow> KvRequest \<Rightarrow> kv_outcome) \<Rightarrow> KvRequest \<Rightarrow> 'a KvClient \<Rightarrow> nat \<Rightarrow> kv_outcome" where
  "reply_at call req c k = call k (stub_at k c) req"

fun first_success :: "kv_outcome list \<Rightarrow> KvStatus \<times> bytes" where
  "first_success [] = (KV_TIMEOUT, [])"
| "first_success (Response KV_SUCCESS v # os) = (KV_SUCCESS, v)"
| "first_success (_ # os) = first_success os"

section \<open>Lemmas\<close>

lemma client_new_ok: "addrs \<noteq> [] \<Longrightarrow> client_ok (client_new g addrs)"
  by (simp add: client_ok_def client_new_def)

lemma first_success_Cons:
  "first_success (r # os) = (case r of Response KV_SUCCESS v \<Rightarrow> (KV_SUCCESS, v) | _ \<Rightarrow> first_success os)"
  by (cases r rule: kv_outcome.exhaust; simp split: KvStatus.splits)

lemma first_success_iff:
  "fst (first_success os) = KV_SUCCESS \<longleftrightarrow> (\<exists>v. Response KV_SUCCESS v \<in> set os)"
  by (induction os) (auto simp: first_success_Cons split: kv_outcome.splits KvStatus.splits)

lemma client_ok_pos: "client_ok c \<Longrightarrow> 0 < length (stubs c)"
  by (auto simp: client_ok_def)

lemma rotate_ok:
  assumes "client_ok c"
  obtains c' where "rotate_leader c = Some c'" "client_ok c'" "stubs c' = stubs c"
    "client_id c' = client_id c" "seq_num c' = seq_num c"
    "\<And>k. stub_at k c' = stub_at (Suc k) c"
proof -
  from client_ok_pos [OF assms] have "stubs c \<noteq> []" by auto
  with that show ?thesis
    by (auto simp: rotate_leader_def client_ok_def stub_at_def mod_add_left_eq)
qed

lemma attempts_spec:
  assumes "client_ok c"
  shows "\<exists>c'. attempts n k call req c =
      Some (fst (first_success (map (\<lambda>j. call (k + j) (stub_at j c) req) [0..<n])),
            snd (first_success (map (\<lambda>j. call (k + j) (stub_at j c) req) [0..<n])), c') \<and>
    client_ok c' \<and> stubs c' = stubs c \<and> client_id c' = client_id c \<and> seq_num c' = seq_num c"
  using assms
proof (induction n arbitrary: k c)
  case (Suc n)
  from rotate_ok [OF Suc.prems] obtain c1 where c1: "rotate_leader c = Some c1" "client_ok c1"
    "stubs c1 = stubs c" "client_id c1 = client_id c" "seq_num c1 = seq_num c"
    "\<And>k. stub_at k c1 = stub_at (Suc k) c"
    by blast
  from Suc.prems have now: "vec_at (stubs c) (leader_idx c) = Some (stub_at 0 c)"
    by (simp add: client_ok_def stub_at_def)
  have later: "map (\<lambda>j. call (k + j) (stub_at j c) req) [0..<Suc n] =
      call k (stub_at 0 c) req # map (\<lambda>j. call (k + 1 + j) (stub_at j c1) req) [0..<n]"
    by (simp add: upt_conv_Cons c1(6) map_Suc_upt [symmetric] comp_def del: upt_Suc)
  have step: "attempts (Suc n) k call req c =
      (case call k (stub_at 0 c) req of
         Response KV_SUCCESS v \<Rightarrow> Some (KV_SUCCESS, v, c) | _ \<Rightarrow> attempts n (k + 1) call req c1)"
    unfolding attempts.simps now c1(1) option.case ..
  show ?case
    unfolding later first_success_Cons step
    using Suc.IH [OF c1(2), of "k + 1"] Suc.prems c1(3-5)
    by (auto split: kv_outcome.splits KvStatus.splits)
qed simp

text \<open>Every replica has its turn among any \<open>length (stubs c)\<close> attempts in a row.\<close>

lemma every_stub_tried:
  assumes "client_ok c" "d < length (stubs c)"
  obtains k where "a \<le> k" "k < a + length (stubs c)" "stub_at k c = stubs c ! d"
proof -
  let ?n = "length (stubs c)"
  define m where "m = (leader_idx c + a) mod ?n"
  define s where "s = (d + ?n - m) mod ?n"
  have n: "0 < ?n" using client_ok_pos [OF assms(1)] .
  then have m: "m < ?n" and s: "s < ?n" unfolding m_def s_def by (blast intro: mod_less_divisor)+
  have "(leader_idx c + (a + s)) mod ?n = (m + s) mod ?n"
    by (metis add.assoc m_def mod_add_left_eq)
  also have "\<dots> = (m + (d + ?n - m)) mod ?n" by (simp add: s_def mod_add_right_eq)
  also have "\<dots> = d" using m assms(2) by simp
  finally show ?thesis
    using that [of "a + s"] s by (simp add: stub_at_def)
qed

text \<open>The requests of a session: operation after operation, whatever the replies.\<close>

datatype client_op = OpPut bytes bytes | OpGet bytes | OpAppend bytes bytes

fun client_step ::
  "(nat \<Rightarrow> 'a \<Rightarrow> KvRequest \<Rightarrow> kv_outcome) \<Rightarrow> client_op \<Rightarrow> 'a KvClient \<Rightarrow> 'a KvClient option" where
  "client_step call (OpPut k v) c = map_option snd (client_put call k v c)"
| "client_step call (OpGet k) c = map_option (snd \<circ> snd) (client_get call k c)"
| "client_step call (OpAppend k v) c = map_option snd (client_append call k v c)"

definition op_spec ::
  "(nat \<Rightarrow> 'a \<Rightarrow> KvRequest \<Rightarrow> kv_outcome) \<Rightarrow> KvRequest \<Rightarrow> 'a KvClient \<Rightarrow> KvStatus \<times> bytes" where
  "op_spec call req c = first_success (map (reply_at call req c) [0..<max_attempts])"

lemma stub_at_seq [simp]: "stub_at k (c\<lparr>seq_num := q\<rparr>) = stub_at k c"
  by (simp add: stub_at_def)

lemma operation_spec:
  assumes "client_ok c"
  shows "\<exists>c'. attempts max_attempts 0 call req (c\<lparr>seq_num := q\<rparr>) =
      Some (fst (op_spec call req c), snd (op_spec call req c), c') \<and>
    client_ok c' \<and> stubs c' = stubs c \<and> client_id c' = client_id c \<and> seq_num c' = q"
  using attempts_spec [of "c\<lparr>seq_num := q\<rparr>" max_attempts 0 call req] assms
  by (simp add: client_ok_def op_spec_def reply_at_def [abs_def])

lemma client_step_ok:
  assumes "client_ok c"
  obtains c' where "client_step call op c = Some c'" "client_ok c'" "stubs c' = stubs c"
    "client_id c' = client_id c" "seq_num c' = inc64 (seq_num c)"
  using that assms operation_spec [OF assms, of call _ "inc64 (seq_num c)"]
  by (cases op) (fastforce simp: client_put_def client_get_def client_append_def Let_def)+

section \<open>Properties\<close>

text \<open>
  With at least one replica, the operations of a client are total: no stub index is
  out of range and no call is undefined, whatever the replicas answer. Each of them takes the
  next sequence number and keeps the client id.
\<close>

theorem client_total:
  assumes "stubs c \<noteq> []" "leader_idx c < length (stubs c)" "seq_num c + length ops < 2 ^ 64"
  shows "\<exists>c'. run_steps (client_step call) ops c = Some c' \<and> leader_idx c' < length (stubs c') \<and>
    stubs c' = stubs c \<and> client_id c' = client_id c \<and> seq_num c' = seq_num c + length ops"
  using assms
proof (induction ops arbitrary: c)
  case (Cons op ops)
  then have "client_ok c" by (simp add: client_ok_def)
  then obtain c1 where c1: "client_step call op c = Some c1" "client_ok c1" "stubs c1 = stubs c"
    "client_id c1 = client_id c" "seq_num c1 = inc64 (seq_num c)"
    by (rule client_step_ok)
  from Cons.prems(3) have "inc64 (seq_num c) = seq_num c + 1" by (intro inc64_no_wrap) simp
  with Cons.IH [of c1] Cons.prems c1 show ?case by (simp add: client_ok_def)
qed simp

theorem client_total_witness:
  "\<exists>c'. run_steps (client_step (\<lambda>k a r. RpcFailed)) [OpPut ''k'' ''v'', OpGet ''k''] (client_new 9 [1 :: nat, 2, 3]) =
     Some c' \<and> seq_num c' = 2 \<and> leader_idx c' < 3"
  using client_total [of "client_new 9 [1 :: nat, 2, 3]" "[OpPut ''k'' ''v'', OpGet ''k'']" "\<lambda>k a r. RpcFailed"]
  by (auto simp: client_new_def)

text \<open>
  C24: an operation returns what the first successful one of its fifty attempts returned,
  and \<open>KV_TIMEOUT\<close> with an empty value when none succeeded; attempt \<open>k\<close> goes to the
  replica \<open>k\<close> places after the last one used. All attempts carry the same request.
\<close>

theorem client_first_success:
  assumes "leader_idx c < length (stubs c)"
  shows "map_option (\<lambda>(st, v, c'). (st, v)) (client_get call key c) =
      Some (first_success
        (map (\<lambda>k. call k (stubs c ! ((leader_idx c + k) mod length (stubs c)))
                    (GetRequest key (client_id c) (inc64 (seq_num c)))) [0..<50])) \<and>
    map_option fst (client_put call key val c) =
      Some (fst (first_success
        (map (\<lambda>k. call k (stubs c ! ((leader_idx c + k) mod length (stubs c)))
                    (PutRequest key val (client_id c) (inc64 (seq_num c)))) [0..<50]))) \<and>
    map_option fst (client_append call key val c) =
      Some (fst (first_success
        (map (\<lambda>k. call k (stubs c ! ((leader_idx c + k) mod length (stubs c)))
                    (AppendRequest key val (client_id c) (inc64 (seq_num c)))) [0..<50])))"
proof -
  have ok: "client_ok c" using assms by (simp add: client_ok_def)
  note spec = operation_spec [OF ok, of call _ "inc64 (seq_num c)",
      unfolded op_spec_def reply_at_def stub_at_def max_attempts_def]
  show ?thesis
    using spec [of "GetRequest key (client_id c) (inc64 (seq_num c))"]
      spec [of "PutRequest key val (client_id c) (inc64 (seq_num c))"]
      spec [of "AppendRequest key val (client_id c) (inc64 (seq_num c))"]
    by (auto simp: client_get_def client_put_def client_append_def Let_def max_attempts_def simp del: upt_rec_numeral)
qed

theorem client_first_success_witness:
  "map_option fst (client_put (\<lambda>k a r. if a = 3 then Response KV_SUCCESS [] else Response KV_NOTLEADER [])
      ''k'' ''v'' (client_new 9 [1 :: nat, 2, 3])) = Some KV_SUCCESS"
proof -
  have "leader_idx (client_new 9 [1 :: nat, 2, 3]) < length (stubs (client_new 9 [1 :: nat, 2, 3]))"
    by (simp add: client_new_def)
  from client_first_success [OF this, THEN conjunct2, THEN conjunct1] show ?thesis
    by (rule trans) code_simp
qed

text \<open>
  C25: a client finds the leader: when one replica answers every call with success from
  some attempt on, and there are attempts enough left for one round over the replicas, the
  operation succeeds.
\<close>

theorem client_finds_leader:
  assumes "leader_idx c < length (stubs c)" "d < length (stubs c)" "a + length (stubs c) \<le> 50"
    and "\<And>k r. a \<le> k \<Longrightarrow> \<exists>v. call k (stubs c ! d) r = Response KV_SUCCESS v"
  shows "map_option fst (client_put call key val c) = Some KV_SUCCESS"
proof -
  have ok: "client_ok c" using assms(1) by (simp add: client_ok_def)
  define req where "req = PutRequest key val (client_id c) (inc64 (seq_num c))"
  from every_stub_tried [OF ok assms(2), of a] obtain k where
    k: "a \<le> k" "k < a + length (stubs c)" "stub_at k c = stubs c ! d" .
  from assms(4) [OF k(1), of req] obtain v where v: "reply_at call req c k = Response KV_SUCCESS v"
    by (auto simp: reply_at_def k(3))
  moreover have "k < max_attempts" using k assms(3) by (simp add: max_attempts_def)
  ultimately have "Response KV_SUCCESS v \<in> set (map (reply_at call req c) [0..<max_attempts])"
    by (force simp: image_iff)
  then have "fst (op_spec call req c) = KV_SUCCESS"
    unfolding op_spec_def first_success_iff by blast
  with operation_spec [OF ok, of call req "inc64 (seq_num c)"] show ?thesis
    by (auto simp: client_put_def Let_def req_def)
qed

theorem client_finds_leader_witness:
  "map_option fst (client_put (\<lambda>k a r. if a = 2 \<and> 10 \<le> k then Response KV_SUCCESS [] else RpcFailed)
      ''k'' ''v'' (client_new 9 [1 :: nat, 2, 3])) = Some KV_SUCCESS"
  by (rule client_finds_leader [where d = 1 and a = 10]) (simp_all add: client_new_def)

text \<open>A client made without addresses runs into undefined behaviour at its first operation.\<close>

lemma client_without_replicas: "client_put call key val (client_new g []) = None"
proof -
  have "attempts n k call req c = None" if "stubs c = []" "0 < n" for n k req c
    using that by (cases n) (simp_all add: vec_at_def)
  then show ?thesis by (simp add: client_put_def client_new_def max_attempts_def Let_def)
qed

end
