(* ===== verification/Benchmarks.thy ===== *)
theory Benchmarks
  imports Complex_Main Kv_Client Cluster_Config
begin

text \<open>
  The two benchmark programs, \<open>src/app/tput.cpp\<close> and \<open>src/app/latency.cpp\<close>: the arguments
  and the loop over the rounds, what a round asks of the cluster, the barrier between the
  client threads and the main thread, and the statistics. The clients are those of
  \<open>Kv_Client\<close>. Times are rational numbers of milliseconds or seconds, taken from the clock;
  the rounding of \<open>double\<close> is left out. The random draws are arguments. \<open>None\<close> is
  undefined behaviour: an \<open>int\<close> that overflows or a vector index out of range; for
  \<open>tput_loop\<close> it is a loop that does not return, and the overflow is a flag.

  Shown: the rounds run through the powers of two up to the limit and end, up to the limit at
  which the counter overflows; no timed request is sent before all clients are warmed up, and
  the results of all of them are collected; the percentiles are in range and ordered; every key
  that is read was written before.
\<close>

section \<open>Statistics\<close>

definition REQUESTS_PER_CLIENT :: nat where "REQUESTS_PER_CLIENT = 1000"
definition KEYSPACE_SIZE :: nat where "KEYSPACE_SIZE = 1000"
definition NUM_REQUESTS :: nat where "NUM_REQUESTS = 1000"

record RoundResult =
  client_count :: int
  lat_avg :: rat
  lat_p50 :: rat
  lat_p90 :: rat
  lat_p99 :: rat
  throughput :: rat

text \<open>\<open>v[n * p / 100]\<close> on a sorted vector; \<open>size_t\<close> arithmetic wraps.\<close>

definition percentile :: "rat list \<Rightarrow> nat \<Rightarrow> rat option" where
  "percentile v p = vec_at v (length v * p mod 2 ^ 64 div 100)"

definition average :: "rat list \<Rightarrow> rat" where
  "average v = sum_list v / of_nat (length v)"

definition int_max :: int where
  "int_max = 2 ^ 31 - 1"

definition round_stats :: "int \<Rightarrow> rat list \<Rightarrow> rat \<Rightarrow> RoundResult option" where
  "round_stats num_clients all_latencies wall_s =
     (let v = sort all_latencies; ops = num_clients * int REQUESTS_PER_CLIENT
      in case (percentile v 50, percentile v 90, percentile v 99) of
           (Some p50, Some p90, Some p99) \<Rightarrow>
             if ops > int_max then None
             else Some \<lparr>client_count = num_clients, lat_avg = average v, lat_p50 = p50, lat_p90 = p90,
                        lat_p99 = p99, throughput = of_int ops / wall_s\<rparr>
         | _ \<Rightarrow> None)"

text \<open>The statistics of the latency benchmark: average, median, 99th percentile.\<close>

definition latency_stats :: "rat list \<Rightarrow> (rat \<times> rat \<times> rat) option" where
  "latency_stats latencies =
     (let v = sort latencies
      in case (percentile v 50, percentile v 99) of
           (Some p50, Some p99) \<Rightarrow> Some (average v, p50, p99)
         | _ \<Rightarrow> None)"

section \<open>Requests\<close>

definition bench_key :: "nat \<Rightarrow> bytes" where
  "bench_key i = ''key_'' @ to_string i"

definition populate_keyspace :: "client_op list" where
  "populate_keyspace = map (\<lambda>i. OpPut (bench_key i) ''init'') [1..<KEYSPACE_SIZE + 1]"

definition warmup :: "nat \<Rightarrow> client_op" where
  "warmup c = OpPut (''warmup_'' @ to_string c) ''v''"

text \<open>A timed request from the two draws of its turn.\<close>

definition timed_request :: "int \<Rightarrow> nat \<times> nat \<Rightarrow> client_op" where
  "timed_request put_ratio draw =
     (case draw of
        (key, op) \<Rightarrow> if int op \<le> put_ratio then OpPut (bench_key key) ''v'' else OpGet (bench_key key))"

definition latency_requests :: "client_op list" where
  "latency_requests = replicate NUM_REQUESTS (OpPut ''bench_key'' ''bench_value'')"

section \<open>The rounds\<close>

datatype tput_start = Usage | BadNumber | BadRatio | BadNodes | Start int int int

text \<open>\<open>stoi\<close> of the standard library throws on what is not a number or does not fit an \<open>int\<close>.\<close>

definition tput_args :: "(string \<Rightarrow> int option) \<Rightarrow> string list \<Rightarrow> tput_start" where
  "tput_args stoi argv =
     (case argv of
        prog # a1 # a2 # rest \<Rightarrow>
          (case (stoi a1, stoi a2, (case rest of [] \<Rightarrow> Some 3 | a3 # _ \<Rightarrow> stoi a3)) of
             (Some max_clients, Some put_ratio, Some num_nodes) \<Rightarrow>
               if put_ratio < 0 \<or> put_ratio > 100 then BadRatio
               else if num_nodes < 1 then BadNodes
               else Start max_clients put_ratio num_nodes
           | _ \<Rightarrow> BadNumber)
      | _ \<Rightarrow> Usage)"

text \<open>
  The loop \<open>for (n = 1; n <= max_clients; n *= 2, ++round_idx)\<close>: the rounds it runs, with
  whether \<open>n *= 2\<close> overflowed.
\<close>

partial_function (option) tput_loop :: "int \<Rightarrow> int \<Rightarrow> nat \<Rightarrow> ((int \<times> nat) list \<times> bool) option" where
  "tput_loop max_clients n round_idx =
     (if n \<le> max_clients
      then if n * 2 > int_max then Some ([(n, round_idx)], True)
           else Option.bind (tput_loop max_clients (n * 2) (round_idx + 1))
                  (\<lambda>(rs, overflow). Some ((n, round_idx) # rs, overflow))
      else Some ([], False))"

definition result_file :: "int \<Rightarrow> string" where
  "result_file num_nodes = (if num_nodes = 5 then ''result_5rep.txt'' else ''result.txt'')"

section \<open>The threads of a round\<close>

text \<open>
  A client thread warms up, announces itself, spins until it is released, sends its requests
  and hands its latencies over under the mutex. The main thread releases the clients when all
  have announced themselves, and joins them.
\<close>

datatype client_thread = Warmup | Announced | Timed "rat list" | Joined

record bench_round =
  num_clients :: nat
  threads :: "client_thread list"
  ready_count :: nat
  go :: bool
  all_latencies :: "rat list"

datatype bench_event =
    WarmedUp nat
  | SeesGo nat
  | Sends nat rat
  | HandsOver nat
  | Releases

fun bench_exec :: "bench_event \<Rightarrow> bench_round \<Rightarrow> bench_round option" where
  "bench_exec (WarmedUp c) b =
     (if vec_at (threads b) c = Some Warmup
      then Some (b\<lparr>threads := (threads b)[c := Announced], ready_count := ready_count b + 1\<rparr>) else None)"
| "bench_exec (SeesGo c) b =
     (if vec_at (threads b) c = Some Announced \<and> go b
      then Some (b\<lparr>threads := (threads b)[c := Timed []]\<rparr>) else None)"
| "bench_exec (Sends c t) b =
     (case vec_at (threads b) c of
        Some (Timed lats) \<Rightarrow>
          if length lats < REQUESTS_PER_CLIENT
          then Some (b\<lparr>threads := (threads b)[c := Timed (lats @ [t])]\<rparr>) else None
      | _ \<Rightarrow> None)"
| "bench_exec (HandsOver c) b =
     (case vec_at (threads b) c of
        Some (Timed lats) \<Rightarrow>
          if length lats = REQUESTS_PER_CLIENT
          then Some (b\<lparr>threads := (threads b)[c := Joined], all_latencies := all_latencies b @ lats\<rparr>) else None
      | _ \<Rightarrow> None)"
| "bench_exec Releases b =
     (if ready_count b \<ge> num_clients b \<and> \<not> go b then Some (b\<lparr>go := True\<rparr>) else None)"

definition bench_step :: "bench_round \<Rightarrow> bench_event \<Rightarrow> bench_round \<Rightarrow> bool" where
  "bench_step b e b' \<longleftrightarrow> bench_exec e b = Some b'"

definition bench_start :: "nat \<Rightarrow> bench_round \<Rightarrow> bool" where
  "bench_start n b \<longleftrightarrow>
     b = \<lparr>num_clients = n, threads = replicate n Warmup, ready_count = 0, go = False, all_latencies = []\<rparr>"

text \<open>All threads have been joined.\<close>

definition round_over :: "bench_round \<Rightarrow> bool" where
  "round_over b \<longleftrightarrow> (\<forall>t \<in> set (threads b). t = Joined)"

section \<open>Percentiles\<close>

lemma percentile_index:
  assumes "0 < n" "n * 99 < 2 ^ 64" "p \<le> 99"
  shows "n * p mod 2 ^ 64 div 100 = n * p div 100" "n * p div 100 < (n :: nat)"
proof -
  have le: "n * p \<le> n * 99" using assms(3) by simp
  then have "n * p < 2 ^ 64" using assms(2) by (rule le_less_trans)
  then show "n * p mod 2 ^ 64 div 100 = n * p div 100" by (simp only: mod_less)
  have "n * p < n * 100" using assms(1,3) by simp
  then show "n * p div 100 < n" by (simp add: div_less_iff_less_mult)
qed

lemma count_le_sorted:
  fixes v :: "rat list"
  assumes "sorted v" "i < length v"
  shows "i < length (filter (\<lambda>x. x \<le> v ! i) v)" "length (filter (\<lambda>x. x < v ! i) v) \<le> i"
proof -
  have count: "length (filter P v) = length (filter P (take k v)) + length (filter P (drop k v))" for P k
    by (metis append_take_drop_id filter_append length_append)
  have "filter (\<lambda>x. x \<le> v ! i) (take (Suc i) v) = take (Suc i) v"
    using assms by (auto simp: filter_id_conv in_set_conv_nth less_Suc_eq_le intro!: sorted_nth_mono)
  then show "i < length (filter (\<lambda>x. x \<le> v ! i) v)"
    using count [of _ "Suc i"] assms(2) by simp
  have "filter (\<lambda>x. x < v ! i) (drop i v) = []"
    using assms by (auto simp: filter_empty_conv in_set_conv_nth not_less intro!: sorted_nth_mono)
  then show "length (filter (\<lambda>x. x < v ! i) v) \<le> i"
    using count [of _ i] length_filter_le [of "\<lambda>x. x < v ! i" "take i v"] by simp
qed

text \<open>What the percentiles mean: the shares of the samples below them, and up to them.\<close>

definition splits_at :: "rat list \<Rightarrow> nat \<Rightarrow> rat \<Rightarrow> bool" where
  "splits_at v p x \<longleftrightarrow>
     x \<in> set v \<and> 100 * length (filter (\<lambda>y. y < x) v) \<le> p * length v \<and>
     p * length v < 100 * length (filter (\<lambda>y. y \<le> x) v)"

lemma length_filter_sort: "length (filter P (sort v)) = length (filter P v)"
  by (metis filter_sort length_sort)

lemma percentile_splits:
  assumes "0 < length v" "length v * 99 < 2 ^ 64" "p \<le> 99"
  obtains x where "percentile (sort v) p = Some x" "x = sort v ! (length v * p div 100)" "splits_at v p x"
proof -
  let ?i = "length v * p div 100"
  have i: "?i < length (sort v)" using percentile_index(2) [OF assms] by simp
  have le: "100 * ?i \<le> p * length v" "p * length v < 100 * (?i + 1)"
    using div_mult_mod_eq [of "length v * p" 100] mod_less_divisor [of 100 "length v * p"]
    by (simp_all add: mult.commute)
  have "splits_at v p (sort v ! ?i)"
    using count_le_sorted [OF sorted_sort i] le nth_mem [OF i]
    by (auto simp: splits_at_def length_filter_sort)
  moreover have "percentile (sort v) p = Some (sort v ! ?i)"
    using percentile_index(1) [OF assms] i by (simp add: percentile_def)
  ultimately show thesis using that by blast
qed

lemma round_stats_correct:
  assumes "length lats = n * REQUESTS_PER_CLIENT" "0 < n" "n * REQUESTS_PER_CLIENT < 2 ^ 31"
  obtains r where "round_stats (int n) lats wall = Some r" "client_count r = int n"
    "splits_at lats 50 (lat_p50 r)" "splits_at lats 90 (lat_p90 r)" "splits_at lats 99 (lat_p99 r)"
    "lat_p50 r \<le> lat_p90 r" "lat_p90 r \<le> lat_p99 r"
proof -
  have len: "0 < length lats" "length lats * 99 < 2 ^ 64"
    using assms by (simp_all add: REQUESTS_PER_CLIENT_def)
  obtain a where a: "percentile (sort lats) 50 = Some a" "a = sort lats ! (length lats * 50 div 100)"
    "splits_at lats 50 a" by (rule percentile_splits [OF len, of 50]) simp
  obtain b where b: "percentile (sort lats) 90 = Some b" "b = sort lats ! (length lats * 90 div 100)"
    "splits_at lats 90 b" by (rule percentile_splits [OF len, of 90]) simp
  obtain c where c: "percentile (sort lats) 99 = Some c" "c = sort lats ! (length lats * 99 div 100)"
    "splits_at lats 99 c" by (rule percentile_splits [OF len, of 99]) simp
  have "int n * int REQUESTS_PER_CLIENT \<le> int_max"
    using assms(3) by (simp add: int_max_def REQUESTS_PER_CLIENT_def)
  moreover have "a \<le> b" "b \<le> c"
    unfolding a(2) b(2) c(2) using percentile_index(2) [OF len, of 90] percentile_index(2) [OF len, of 99]
    by (intro sorted_nth_mono; simp add: div_le_mono)+
  ultimately show thesis
    using that [of "\<lparr>client_count = int n, lat_avg = average (sort lats), lat_p50 = a, lat_p90 = b, lat_p99 = c,
        throughput = of_int (int n * int REQUESTS_PER_CLIENT) / wall\<rparr>"] a b c
    by (simp add: round_stats_def Let_def)
qed

section \<open>The rounds that are run\<close>

lemma tput_loop_pow:
  assumes "k \<le> 30"
  shows "tput_loop m (2 ^ k) k = Some (map (\<lambda>j. (2 ^ j, j)) (filter (\<lambda>j. 2 ^ j \<le> m) [k..<31]), 2 ^ 30 \<le> m)"
  using assms
proof (induction k rule: inc_induct)
  case base
  show ?case by (subst tput_loop.simps) (simp add: int_max_def upt_rec)
next
  case (step k)
  show ?case
  proof (cases "2 ^ k \<le> m")
    case True
    have "(2 :: int) ^ Suc k \<le> 2 ^ 30" using step.hyps by (intro power_increasing) simp_all
    then have "\<not> 2 ^ k * 2 > int_max" by (simp add: int_max_def)
    moreover have "tput_loop m (2 ^ k * 2) (k + 1) =
        Some (map (\<lambda>j. (2 ^ j, j)) (filter (\<lambda>j. 2 ^ j \<le> m) [Suc k..<31]), 2 ^ 30 \<le> m)"
      using step.IH by (simp add: mult.commute)
    moreover have "[k..<31] = k # [Suc k..<31]" using step.hyps by (simp add: upt_rec)
    ultimately show ?thesis using True by (subst tput_loop.simps) simp
  next
    case False
    have above: "m < 2 ^ j" if "k \<le> j" for j
    proof -
      have "(2 :: int) ^ k \<le> 2 ^ j" using that by (rule power_increasing) simp
      with False show ?thesis by linarith
    qed
    then have "filter (\<lambda>j. 2 ^ j \<le> m) [k..<31] = []" "\<not> 2 ^ 30 \<le> m"
      using step.hyps above [of 30] by (auto simp: filter_empty_conv not_le)
    with False show ?thesis by (subst tput_loop.simps) simp
  qed
qed


section \<open>The barrier\<close>

lemma length_filter_update:
  "i < length xs \<Longrightarrow>
     length (filter P (xs[i := x])) + (if P (xs ! i) then 1 else 0) =
     length (filter P xs) + (if P x then 1 else 0)"
proof (induction xs arbitrary: i)
  case (Cons y ys)
  then show ?case by (cases i) auto
qed simp

definition bench_inv :: "nat \<Rightarrow> bench_round \<Rightarrow> bool" where
  "bench_inv n b \<longleftrightarrow>
     num_clients b = n \<and> length (threads b) = n \<and>
     ready_count b = length (filter (\<lambda>t. t \<noteq> Warmup) (threads b)) \<and>
     (go b \<longrightarrow> Warmup \<notin> set (threads b)) \<and>
     (\<not> go b \<longrightarrow> set (threads b) \<subseteq> {Warmup, Announced}) \<and>
     (\<forall>lats. Timed lats \<in> set (threads b) \<longrightarrow> length lats \<le> REQUESTS_PER_CLIENT) \<and>
     length (all_latencies b) = REQUESTS_PER_CLIENT * length (filter (\<lambda>t. t = Joined) (threads b))"

lemma set_update_cases_list: "x \<in> set (xs[i := y]) \<Longrightarrow> x = y \<or> x \<in> set xs"
  using set_update_subset_insert [of xs i y] by blast

lemma bench_inv_step:
  assumes inv: "bench_inv n b" and step: "bench_exec e b = Some b'"
  shows "bench_inv n b'"
proof (cases e)
  case (WarmedUp c)
  with step have c: "c < length (threads b)" "threads b ! c = Warmup"
    and b': "b' = b\<lparr>threads := (threads b)[c := Announced], ready_count := ready_count b + 1\<rparr>"
    by (auto split: if_splits)
  have "\<not> go b" using inv c nth_mem [OF c(1)] by (auto simp: bench_inv_def)
  with inv c length_filter_update [OF c(1), of "\<lambda>t. t \<noteq> Warmup" Announced]
    length_filter_update [OF c(1), of "\<lambda>t. t = Joined" Announced] set_update_subset_insert [of "threads b" c Announced]
  show ?thesis unfolding b' by (auto simp: bench_inv_def)
next
  case (SeesGo c)
  with step have c: "c < length (threads b)" "threads b ! c = Announced" "go b"
    and b': "b' = b\<lparr>threads := (threads b)[c := Timed []]\<rparr>"
    by (auto split: if_splits)
  with inv c length_filter_update [OF c(1), of "\<lambda>t. t \<noteq> Warmup" "Timed []"]
    length_filter_update [OF c(1), of "\<lambda>t. t = Joined" "Timed []"]
  show ?thesis unfolding b' by (auto simp: bench_inv_def dest!: set_update_cases_list)
next
  case (Sends c x)
  with step obtain lats where c: "c < length (threads b)" "threads b ! c = Timed lats"
    "length lats < REQUESTS_PER_CLIENT"
    and b': "b' = b\<lparr>threads := (threads b)[c := Timed (lats @ [x])]\<rparr>"
    by (auto split: option.splits client_thread.splits if_splits)
  have "go b" using inv c nth_mem [OF c(1)] by (auto simp: bench_inv_def)
  with inv c length_filter_update [OF c(1), of "\<lambda>t. t \<noteq> Warmup" "Timed (lats @ [x])"]
    length_filter_update [OF c(1), of "\<lambda>t. t = Joined" "Timed (lats @ [x])"]
  show ?thesis unfolding b' by (auto simp: bench_inv_def dest!: set_update_cases_list)
next
  case (HandsOver c)
  with step obtain lats where c: "c < length (threads b)" "threads b ! c = Timed lats"
    "length lats = REQUESTS_PER_CLIENT"
    and b': "b' = b\<lparr>threads := (threads b)[c := Joined], all_latencies := all_latencies b @ lats\<rparr>"
    by (auto split: option.splits client_thread.splits if_splits)
  have "go b" using inv c nth_mem [OF c(1)] by (auto simp: bench_inv_def)
  with inv c length_filter_update [OF c(1), of "\<lambda>t. t \<noteq> Warmup" Joined]
    length_filter_update [OF c(1), of "\<lambda>t. t = Joined" Joined]
  show ?thesis unfolding b' by (auto simp: bench_inv_def dest!: set_update_cases_list)
next
  case Releases
  with step have c: "ready_count b \<ge> num_clients b" and b': "b' = b\<lparr>go := True\<rparr>" by (auto split: if_splits)
  have "length (filter (\<lambda>t. t \<noteq> Warmup) (threads b)) \<ge> length (threads b)"
    using inv c by (simp add: bench_inv_def)
  then have "Warmup \<notin> set (threads b)"
    using length_filter_less [of Warmup "threads b" "\<lambda>t. t \<noteq> Warmup"] by auto
  with inv show ?thesis unfolding b' by (simp add: bench_inv_def)
qed

interpretation bm: transition_invariant "bench_start n" bench_step "bench_inv n" for n
proof unfold_locales
  show "bench_inv n b" if "bench_start n b" for b
    using that by (auto simp: bench_start_def bench_inv_def)
  show "bench_inv n b'" if "bench_inv n b" "bench_step b e b'" for b e b'
    using that by (auto simp: bench_step_def intro: bench_inv_step)
qed

lemma bench_progress:
  assumes inv: "bench_inv n b" and going: "\<not> round_over b"
  shows "\<exists>e b'. bench_exec e b = Some b'"
proof (cases "go b")
  case True
  obtain c where c: "c < length (threads b)" "threads b ! c \<noteq> Joined"
    using going by (auto simp: round_over_def in_set_conv_nth)
  have "threads b ! c \<noteq> Warmup" using inv True nth_mem [OF c(1)] by (auto simp: bench_inv_def)
  with c(2) consider "threads b ! c = Announced" | lats where "threads b ! c = Timed lats"
    by (cases "threads b ! c") auto
  then show ?thesis
  proof cases
    case 1
    with c True have "bench_exec (SeesGo c) b \<noteq> None" by simp
    then show ?thesis by blast
  next
    case 2
    then have "Timed lats \<in> set (threads b)" using nth_mem [OF c(1)] by simp
    with inv have "length lats \<le> REQUESTS_PER_CLIENT" unfolding bench_inv_def by blast
    with 2 c(1) have "bench_exec (Sends c 0) b \<noteq> None \<or> bench_exec (HandsOver c) b \<noteq> None"
      by (auto simp: vec_at_in_range)
    then show ?thesis by blast
  qed
next
  case False
  show ?thesis
  proof (cases "Warmup \<in> set (threads b)")
    case True
    then obtain c where "vec_at (threads b) c = Some Warmup" by (auto simp: in_set_conv_nth)
    then have "bench_exec (WarmedUp c) b \<noteq> None" by simp
    then show ?thesis by blast
  next
    case no: False
    then have "filter (\<lambda>t. t \<noteq> Warmup) (threads b) = threads b" by (auto simp: filter_id_conv)
    with inv False have "bench_exec Releases b \<noteq> None" by (simp add: bench_inv_def)
    then show ?thesis by blast
  qed
qed

text \<open>
  C40: a round measures what it is meant to. Nobody is timed while a client still warms up, and
  the round is never stuck. When it is over, the latencies of all requests of all clients are
  there; the statistics are then defined, as long as the number of requests fits an \<open>int\<close>,
  and the percentiles split the samples in the shares they are named after.
\<close>

theorem round_measured:
  assumes "reach (bench_start n) bench_step b"
  shows "(Warmup \<in> set (threads b) \<longrightarrow> set (threads b) \<subseteq> {Warmup, Announced}) \<and>
    (\<not> round_over b \<longrightarrow> (\<exists>e b'. bench_exec e b = Some b')) \<and>
    (round_over b \<longrightarrow> length (all_latencies b) = n * REQUESTS_PER_CLIENT) \<and>
    (round_over b \<and> 0 < n \<and> n * REQUESTS_PER_CLIENT < 2 ^ 31 \<longrightarrow>
       (\<exists>r. round_stats (int n) (all_latencies b) wall = Some r \<and>
          splits_at (all_latencies b) 50 (lat_p50 r) \<and> splits_at (all_latencies b) 90 (lat_p90 r) \<and>
          splits_at (all_latencies b) 99 (lat_p99 r) \<and> lat_p50 r \<le> lat_p90 r \<and> lat_p90 r \<le> lat_p99 r))"
proof -
  have inv: "bench_inv n b" using assms by (rule bm.reach_inv)
  have len: "length (all_latencies b) = n * REQUESTS_PER_CLIENT" if "round_over b"
  proof -
    have "filter (\<lambda>t. t = Joined) (threads b) = threads b"
      using that by (auto simp: round_over_def filter_id_conv)
    with inv show ?thesis by (simp add: bench_inv_def)
  qed
  have "Warmup \<in> set (threads b) \<longrightarrow> set (threads b) \<subseteq> {Warmup, Announced}"
    using inv by (auto simp: bench_inv_def)
  moreover have "\<exists>r. round_stats (int n) (all_latencies b) wall = Some r \<and>
      splits_at (all_latencies b) 50 (lat_p50 r) \<and> splits_at (all_latencies b) 90 (lat_p90 r) \<and>
      splits_at (all_latencies b) 99 (lat_p99 r) \<and> lat_p50 r \<le> lat_p90 r \<and> lat_p90 r \<le> lat_p99 r"
    if "round_over b" "0 < n" "n * REQUESTS_PER_CLIENT < 2 ^ 31"
    by (rule round_stats_correct [OF len [OF that(1)] that(2,3), of wall]) blast
  ultimately show ?thesis using bench_progress [OF inv] len by blast
qed

text \<open>A round with one client whose requests all take the same time.\<close>

definition one_client :: "client_thread \<Rightarrow> nat \<Rightarrow> bool \<Rightarrow> rat list \<Rightarrow> bench_round" where
  "one_client t k g lats = \<lparr>num_clients = 1, threads = [t], ready_count = k, go = g, all_latencies = lats\<rparr>"

lemma one_client_sends:
  "k \<le> REQUESTS_PER_CLIENT \<Longrightarrow>
     reach (bench_start 1) bench_step (one_client (Timed (replicate k 5)) 1 True [])"
proof (induction k)
  case 0
  have "reach (bench_start 1) bench_step (one_client Warmup 0 False [])"
    by (rule reach_start) (simp add: bench_start_def one_client_def)
  then have "reach (bench_start 1) bench_step (one_client Announced 1 False [])"
    by (rule reach_step [where l = "WarmedUp 0"]) (simp add: bench_step_def one_client_def)
  then have "reach (bench_start 1) bench_step (one_client Announced 1 True [])"
    by (rule reach_step [where l = Releases]) (simp add: bench_step_def one_client_def)
  then show ?case
    by (rule reach_step [where l = "SeesGo 0"]) (simp add: bench_step_def one_client_def)
next
  case (Suc k)
  then have "reach (bench_start 1) bench_step (one_client (Timed (replicate k 5)) 1 True [])" by simp
  then show ?case
    by (rule reach_step [where l = "Sends 0 5"])
       (use Suc.prems in \<open>simp add: bench_step_def one_client_def vec_at_def replicate_append_same\<close>)
qed

theorem round_measured_witness:
  "\<exists>r b. reach (bench_start 1) bench_step b \<and> round_over b \<and> length (all_latencies b) = 1000 \<and>
     round_stats 1 (all_latencies b) 5 = Some r \<and> lat_p50 r \<le> lat_p99 r"
proof -
  let ?b = "one_client Joined 1 True (replicate REQUESTS_PER_CLIENT 5)"
  have reach: "reach (bench_start 1) bench_step ?b"
    by (rule reach_step [OF one_client_sends [OF order_refl], where l = "HandsOver 0"])
       (simp add: bench_step_def one_client_def vec_at_def)
  moreover have "round_over ?b" by (simp add: round_over_def one_client_def)
  ultimately show ?thesis
    using round_measured [OF reach, of 5] by (auto simp: REQUESTS_PER_CLIENT_def intro: order_trans)
qed

text \<open>Every key that the timed phase asks for has been written before.\<close>

lemma timed_keys_populated:
  assumes "1 \<le> key" "key \<le> KEYSPACE_SIZE"
  shows "timed_request ratio (key, op) = OpPut (bench_key key) ''v'' \<or>
    timed_request ratio (key, op) = OpGet (bench_key key)"
    "OpPut (bench_key key) ''init'' \<in> set populate_keyspace"
proof -
  have "key \<in> set [1..<KEYSPACE_SIZE + 1]" using assms by auto
  then show "OpPut (bench_key key) ''init'' \<in> set populate_keyspace"
    unfolding populate_keyspace_def set_map by (rule imageI)
qed (simp add: timed_request_def)

text \<open>The extremes of the ratio: with draws of 1 to 100, 0 sends reads only, 100 writes only.\<close>

lemma put_ratio_extremes:
  assumes "1 \<le> op" "op \<le> 100"
  shows "timed_request 0 (key, op) = OpGet (bench_key key)"
    "timed_request 100 (key, op) = OpPut (bench_key key) ''v''"
  using assms by (simp_all add: timed_request_def)

text \<open>The latency benchmark: with its thousand samples the statistics are defined.\<close>

lemma latency_stats_defined:
  assumes "length lats = NUM_REQUESTS"
  obtains avg p50 p99 where "latency_stats lats = Some (avg, p50, p99)" "splits_at lats 50 p50" "splits_at lats 99 p99"
proof -
  have len: "0 < length lats" "length lats * 99 < 2 ^ 64" using assms by (simp_all add: NUM_REQUESTS_def)
  obtain a where a: "percentile (sort lats) 50 = Some a" "splits_at lats 50 a"
    by (rule percentile_splits [OF len, of 50]) simp
  obtain c where c: "percentile (sort lats) 99 = Some c" "splits_at lats 99 c"
    by (rule percentile_splits [OF len, of 99]) simp
  from that a c show thesis by (simp add: latency_stats_def Let_def)
qed

end
