(* ===== verification/Node_App.thy ===== *)
theory Node_App
  imports Raft_Wrapper
begin

text \<open>
  The two node programs: \<open>main\<close>, the command line and the signal handler of
  \<open>src/app/raft_node.cpp\<close>, \<open>main\<close> of \<open>src/app/kv_node.cpp\<close>, and what they do to the log sinks
  (\<open>src/inc/common/logger.hpp\<close>). \<open>NodeProc\<close> is the process: the object behind the static
  pointer, whether the pointer is set, the flag of the loop, and where the loop stands;
  \<open>np_typed\<close> are the lines it has handled. The pointer is null after \<open>reset\<close>, and a call through it is \<open>NullDeref\<close>; the static state of the
  interceptor outlives the object. A signal is an event that may come between any two others.

  Abseil's \<open>StripAsciiWhitespace\<close> and \<open>StrSplit\<close> are the parameters \<open>strip\<close> and \<open>split\<close>, what
  \<open>poll\<close> and \<open>getline\<close> give is part of the events. The values of the flags are a record;
  DDB, tracing and what is printed do not appear.

  Shown: which calls a node cuts after any lines were typed, from the flags it was started
  with; that the loop never goes through the null pointer if signals arrive while it polls,
  and that it does otherwise; what the verbosity leaves of the output.
\<close>

section \<open>Logging\<close>

datatype sink = StdoutSink | StdoutColorSink | FileSink | OtherSink

text \<open>A sink with whether anything passes its level.\<close>

type_synonym sinks = "(sink \<times> bool) list"

definition logger_sinks :: "bool \<Rightarrow> sinks" where
  "logger_sinks tracing = (if tracing then [(OtherSink, True)] else [(StdoutColorSink, True), (FileSink, True)])"

definition disable_console_logging :: "bool \<Rightarrow> sinks \<Rightarrow> sinks" where
  "disable_console_logging disable_file_sink =
     map (\<lambda>(s, on).
       case s of
         StdoutSink \<Rightarrow> (s, False)
       | StdoutColorSink \<Rightarrow> (s, False)
       | FileSink \<Rightarrow> (s, if disable_file_sink then False else on)
       | OtherSink \<Rightarrow> (s, on))"

definition prepare_logging :: "int \<Rightarrow> sinks \<Rightarrow> sinks" where
  "prepare_logging verbosity s =
     (if verbosity < 1 then disable_console_logging True s
      else if verbosity < 2 then disable_console_logging False s
      else s)"

section \<open>Start of a node\<close>

record node_flags =
  fl_id :: u64
  fl_port :: u64
  fl_peers :: "(u64, string) omap"
  fl_fail_type :: int
  fl_verbosity :: int
  fl_enable_ctrl :: bool

definition world_of :: "u64 \<Rightarrow> (u64, string) omap \<Rightarrow> string set" where
  "world_of i ps = insert (to_string i) (to_string ` fst ` set ps)"

definition prepare_interceptor :: "string set \<Rightarrow> int \<Rightarrow> NetInterceptor \<Rightarrow> NetInterceptor" where
  "prepare_interceptor world failure ni = set_type (fail_type_of failure) (setup_rank world ni)"

definition node_config :: "node_flags \<Rightarrow> Config" where
  "node_config fl =
     \<lparr>c_id = fl_id fl, c_addr = ''0.0.0.0:'' @ to_string (fl_port fl), c_peer_addrs = fl_peers fl\<rparr>"

text \<open>
  The object that \<open>main\<close> makes, with the bound of its queue, up to the point where the node
  serves. What the process starts with (uninitialised fields, the drawn timeout, the static
  interceptors) is in \<open>env\<close>.
\<close>

record start_env =
  junk_id :: u64
  junk_stop :: bool
  drawn :: nat
  static_net :: NetInterceptor
  static_count :: ByteCounter

definition start_node :: "nat \<Rightarrow> node_flags \<Rightarrow> start_env \<Rightarrow> Wrapper" where
  "start_node bound fl env =
     (let config = node_config fl; q = mq_new bound;
          w = (if fl_enable_ctrl fl
               then RaftWrapper_ctrl config q (drawn env) (static_net env) (static_count env)
               else RaftWrapper_plain (junk_id env) (junk_stop env) config q (drawn env) (static_net env) (static_count env))
      in start_server
           (w\<lparr>net := prepare_interceptor (world_of (fl_id fl) (fl_peers fl)) (fl_fail_type fl) (net w)\<rparr>))"

definition raft_node_main :: "node_flags \<Rightarrow> start_env \<Rightarrow> Wrapper" where
  "raft_node_main fl env = start_node 0 fl env"

text \<open>The key-value node also listens for clients, at its own port plus an offset.\<close>

definition kv_node_main :: "node_flags \<Rightarrow> start_env \<Rightarrow> Wrapper \<times> string" where
  "kv_node_main fl env =
     (start_node 65536 fl env, ''0.0.0.0:'' @ to_string (add64 (fl_port fl) KV_PORT_OFFSET))"

section \<open>Commands\<close>

datatype loop_pc = LoopTop | Reading | GotLine string | LoopEnd

record NodeProc =
  np_node :: Wrapper
  np_set :: bool
  keep_running :: bool
  np_pc :: loop_pc
  np_typed :: "string list"

datatype 'a ran = Ran 'a | NullDeref | Terminated | Waits

text \<open>\<open>handle_cmd\<close>: whether the loop is left, and the process.\<close>

definition handle_words :: "string list \<Rightarrow> NodeProc \<Rightarrow> (bool \<times> NodeProc) ran" where
  "handle_words splits p =
     (case splits of
        [] \<Rightarrow> Ran (False, p)
      | [cmd] \<Rightarrow>
          if cmd = ''r'' then
            if \<not> np_set p then NullDeref
            else (case run_node (np_node p) of
                    None \<Rightarrow> Terminated
                  | Some w \<Rightarrow> Ran (False, p\<lparr>np_node := w\<rparr>))
          else if cmd = ''k'' then
            if \<not> np_set p then NullDeref
            else Ran (True, p\<lparr>np_node := stop_server (kill_node (np_node p))\<rparr>)
          else Ran (False, p)
      | cmd # params \<Rightarrow>
          (let w = np_node p
           in if cmd = ''dis'' then Ran (False, p\<lparr>np_node := w\<lparr>net := fold disconnect params (net w)\<rparr>\<rparr>)
              else if cmd = ''conn'' then Ran (False, p\<lparr>np_node := w\<lparr>net := fold reconnect params (net w)\<rparr>\<rparr>)
              else Ran (False, p)))"

definition handle_cmd ::
  "(string \<Rightarrow> string) \<Rightarrow> (char \<Rightarrow> string \<Rightarrow> string list) \<Rightarrow> string \<Rightarrow> NodeProc \<Rightarrow> (bool \<times> NodeProc) ran" where
  "handle_cmd strip split command p = handle_words (split (CHR '' '') (strip command)) p"

text \<open>\<open>reset\<close> of the pointer runs \<open>cleanup\<close>, which may have to wait for the shutdown helper.\<close>

definition reset_node :: "NodeProc \<Rightarrow> NodeProc ran" where
  "reset_node p =
     (if np_set p
      then case cleanup_finish (cleanup_request (np_node p)) of
             None \<Rightarrow> Waits
           | Some w \<Rightarrow> Ran (p\<lparr>np_node := w, np_set := False\<rparr>)
      else Ran p)"

definition handle_sigint :: "NodeProc \<Rightarrow> NodeProc ran" where
  "handle_sigint p =
     (if np_set p
      then case reset_node (p\<lparr>np_node := stop_server (kill_node (np_node p))\<rparr>) of
             Ran q \<Rightarrow> Ran (q\<lparr>keep_running := False\<rparr>)
           | r \<Rightarrow> r
      else Ran (p\<lparr>keep_running := False\<rparr>))"

datatype poll_result = PollIn | PollTimeout | PollOther | PollIntr | PollError

datatype read_result = Line string | Eof | ReadFailed

datatype loop_event = LPoll poll_result | LRead read_result | LDispatch | LSignal

text \<open>Where the loop goes on after \<open>poll\<close> and after \<open>getline\<close>.\<close>

definition poll_next :: "bool \<Rightarrow> poll_result \<Rightarrow> loop_pc" where
  [simp]: "poll_next keep r =
     (if \<not> keep then LoopEnd else case r of PollIn \<Rightarrow> Reading | PollError \<Rightarrow> LoopEnd | _ \<Rightarrow> LoopTop)"

definition read_next :: "bool \<Rightarrow> read_result \<Rightarrow> loop_pc" where
  [simp]: "read_next keep r =
     (case r of
        Line s \<Rightarrow> GotLine s
      | Eof \<Rightarrow> LoopEnd
      | ReadFailed \<Rightarrow> if \<not> keep then LoopEnd else LoopTop)"

fun loop_step ::
  "(string \<Rightarrow> string) \<Rightarrow> (char \<Rightarrow> string \<Rightarrow> string list) \<Rightarrow> loop_event \<Rightarrow> NodeProc \<Rightarrow> NodeProc ran option" where
  "loop_step strip split (LPoll r) p =
     (if np_pc p = LoopTop
      then Some (Ran (p\<lparr>np_pc := poll_next (keep_running p) r\<rparr>))
      else None)"
| "loop_step strip split (LRead r) p =
     (if np_pc p = Reading
      then Some (Ran (p\<lparr>np_pc := read_next (keep_running p) r\<rparr>))
      else None)"
| "loop_step strip split LDispatch p =
     (case np_pc p of
        GotLine s \<Rightarrow>
          Some (case handle_cmd strip split s p of
                  Ran (leave, q) \<Rightarrow> Ran (q\<lparr>np_pc := (if leave then LoopEnd else LoopTop), np_typed := np_typed q @ [s]\<rparr>)
                | NullDeref \<Rightarrow> NullDeref
                | Terminated \<Rightarrow> Terminated
                | Waits \<Rightarrow> Waits)
      | _ \<Rightarrow> None)"
| "loop_step strip split LSignal p = Some (handle_sigint p)"

text \<open>A run of the loop; it ends early where the process does.\<close>

fun run_loop ::
  "(string \<Rightarrow> string) \<Rightarrow> (char \<Rightarrow> string \<Rightarrow> string list) \<Rightarrow> loop_event list \<Rightarrow> NodeProc \<Rightarrow> NodeProc ran option" where
  "run_loop strip split [] p = Some (Ran p)"
| "run_loop strip split (e # es) p =
     (case loop_step strip split e p of
        Some (Ran q) \<Rightarrow> run_loop strip split es q
      | r \<Rightarrow> r)"

definition proc_start :: "Wrapper \<Rightarrow> NodeProc" where
  "proc_start w = \<lparr>np_node = w, np_set = True, keep_running = True, np_pc = LoopTop, np_typed = []\<rparr>"

section \<open>Which calls are cut\<close>

text \<open>What a typed line means for the interceptor.\<close>

definition line_events :: "string list \<Rightarrow> net_event list" where
  "line_events splits =
     (case splits of
        cmd # p # ps \<Rightarrow>
          if cmd = ''dis'' then map Disconnect (p # ps)
          else if cmd = ''conn'' then map Reconnect (p # ps) else []
      | _ \<Rightarrow> [])"

definition typed_events :: "(string \<Rightarrow> string) \<Rightarrow> (char \<Rightarrow> string \<Rightarrow> string list) \<Rightarrow> string list \<Rightarrow> net_event list" where
  "typed_events strip split typed = concat (map (\<lambda>s. line_events (split (CHR '' '') (strip s))) typed)"

lemma fold_disconnect: "fold disconnect ps s = fold net_exec (map Disconnect ps) s"
  by (induction ps arbitrary: s) simp_all

lemma fold_reconnect: "fold reconnect ps s = fold net_exec (map Reconnect ps) s"
  by (induction ps arbitrary: s) simp_all

lemma run_node_frame: "run_node w = Some w' \<Longrightarrow> net w' = net w \<and> with_ctrl w' = with_ctrl w \<and> helper w' = helper w"
  by (auto simp: run_node_def Let_def split: if_splits)

lemma handle_words_net:
  assumes "handle_words splits p = Ran (leave, q)"
  shows "net (np_node q) = fold net_exec (line_events splits) (net (np_node p))"
  using assms
  by (auto simp: handle_words_def line_events_def Let_def stop_server_def kill_node_def
      fold_disconnect fold_reconnect simp del: fold_map
      split: list.splits if_splits option.splits dest!: run_node_frame)

lemma handle_words_frame:
  assumes "handle_words splits p = Ran (leave, q)"
  shows "np_typed q = np_typed p" "np_set q = np_set p" "np_pc q = np_pc p" "keep_running q = keep_running p"
  using assms by (auto simp: handle_words_def Let_def split: list.splits if_splits option.splits)

lemma handle_sigint_frame:
  assumes "handle_sigint p = Ran q"
  shows "net (np_node q) = net (np_node p)" "np_typed q = np_typed p" "np_pc q = np_pc p"
  using assms
  by (auto simp: handle_sigint_def reset_node_def cleanup_finish_def cleanup_request_def close_ready_def
      stop_server_def kill_node_def split: if_splits option.splits ran.splits)

lemma loop_step_net:
  assumes "loop_step strip split e p = Some (Ran q)"
    and "net (np_node p) = fold net_exec (typed_events strip split (np_typed p)) ni"
  shows "net (np_node q) = fold net_exec (typed_events strip split (np_typed q)) ni"
proof (cases e)
  case LDispatch
  with assms(1) obtain s leave q1 where s: "np_pc p = GotLine s" "handle_cmd strip split s p = Ran (leave, q1)"
    "q = q1\<lparr>np_pc := (if leave then LoopEnd else LoopTop), np_typed := np_typed q1 @ [s]\<rparr>"
    by (auto split: loop_pc.splits ran.splits)
  from handle_words_net [OF s(2) [unfolded handle_cmd_def]] handle_words_frame(1) [OF s(2) [unfolded handle_cmd_def]]
  show ?thesis using assms(2) s(3) by (simp add: typed_events_def)
next
  case LSignal
  with assms handle_sigint_frame [of p q] show ?thesis by simp
qed (use assms in \<open>auto split: if_splits\<close>)

lemma run_loop_net:
  assumes "run_loop strip split es p = Some (Ran q)"
    and "net (np_node p) = fold net_exec (typed_events strip split (np_typed p)) ni"
  shows "net (np_node q) = fold net_exec (typed_events strip split (np_typed q)) ni"
  using assms
proof (induction es arbitrary: p)
  case (Cons e es)
  then obtain p1 where "loop_step strip split e p = Some (Ran p1)" "run_loop strip split es p1 = Some (Ran q)"
    by (auto split: option.splits ran.splits)
  with Cons loop_step_net show ?case by blast
qed simp

lemma start_node_net:
  "net (start_node bound fl env) =
     net_exec (SetType (fail_type_of (fl_fail_type fl)))
       (setup_rank (to_string ` insert (fl_id fl) (fst ` set (fl_peers fl))) (static_net env))"
  by (simp add: start_node_def start_server_def RaftWrapper_ctrl_def RaftWrapper_plain_def prepare_interceptor_def
      world_of_def image_image Let_def)

lemma fold_type: "ni_type (fold net_exec es s) = ni_type s" if "\<And>t. SetType t \<notin> set es"
  using that
proof (induction es arbitrary: s)
  case (Cons e es)
  have "ni_type (net_exec e s) = ni_type s" using Cons.prems [of _]
    by (cases e) (auto simp: disconnect_def reconnect_def)
  with Cons show ?case by simp
qed simp

lemma typed_events_no_type: "SetType t \<notin> set (typed_events strip split ls)"
  by (auto simp: typed_events_def line_events_def split: list.splits if_splits)

text \<open>
  C35: the faults an operator injects: a node that was started with some flags and whose
  command line was used in any way, interrupted or not, cuts a call to a peer exactly as the
  typed lines say. In the failure mode, the last \<open>dis\<close> or \<open>conn\<close> that names one of the two was a
  \<open>dis\<close>; in the partition mode, which \<open>--fail_type 1\<close> selects, this holds of one and not of
  the other.
\<close>

theorem typed_faults:
  assumes "run_loop strip split es (proc_start (raft_node_main fl env)) = Some (Ran p)"
    and "m \<in> insert (fl_id fl) (fst ` set (fl_peers fl))" "n \<in> insert (fl_id fl) (fst ` set (fl_peers fl))"
  defines "off \<equiv> \<lambda>i. cut_after (to_string i) (typed_events strip split (np_typed p)) False"
  shows "Intercept (net (np_node p)) PRE_SEND_MESSAGE (create_context m n) = Hijack \<longleftrightarrow>
    (if fl_fail_type fl = 1 then off m \<noteq> off n else off m \<or> off n)"
proof -
  let ?ids = "insert (fl_id fl) (fst ` set (fl_peers fl))" and ?ty = "SetType (fail_type_of (fl_fail_type fl))"
  let ?es = "?ty # typed_events strip split (np_typed p)"
  have net: "net (np_node p) = fold net_exec ?es (setup_rank (to_string ` ?ids) (static_net env))"
    using run_loop_net [OF assms(1), of "net (raft_node_main fl env)"]
    by (simp add: proc_start_def typed_events_def raft_node_main_def start_node_net)
  have "ni_type (net (np_node p)) = fail_type_of (fl_fail_type fl)"
    unfolding net using fold_type [OF typed_events_no_type] by (simp add: set_type_def)
  with intercept_cuts [OF assms(2,3) net] show ?thesis
    by (simp add: off_def fail_type_of_def)
qed

definition demo_flags :: node_flags where
  "demo_flags = \<lparr>fl_id = 1, fl_port = 50051, fl_peers = [(2, ''localhost:50052''), (3, ''localhost:50053'')],
     fl_fail_type = 0, fl_verbosity = 1, fl_enable_ctrl = False\<rparr>"

definition demo_env :: start_env where
  "demo_env = \<lparr>junk_id = 0, junk_stop = False, drawn = 300,
     static_net = \<lparr>ni_type = NETWORK_FAILURE, rank1 = {}, rank2 = {}\<rparr>,
     static_count = \<lparr>total_bytes_sent = 0, total_rpc_count = 0\<rparr>\<rparr>"

definition demo_proc :: NodeProc where
  "demo_proc = proc_start (raft_node_main demo_flags demo_env)"

definition type_line :: "string \<Rightarrow> loop_event list" where
  "type_line s = [LPoll PollIn, LRead (Line s), LDispatch]"

theorem typed_faults_witness:
  "\<exists>p. run_loop (\<lambda>s. s) split_on (type_line ''dis 2'') demo_proc = Some (Ran p) \<and>
     Intercept (net (np_node p)) PRE_SEND_MESSAGE (create_context 1 2) = Hijack \<and>
     Intercept (net (np_node p)) PRE_SEND_MESSAGE (create_context 1 3) = Proceed"
proof -
  obtain p where p: "run_loop (\<lambda>s. s) split_on (type_line ''dis 2'') demo_proc = Some (Ran p)" "np_typed p = [''dis 2'']"
    by (simp add: type_line_def demo_proc_def proc_start_def handle_cmd_def handle_words_def Let_def)
  have ty: "typed_events (\<lambda>s. s) split_on [''dis 2''] = [Disconnect ''2'']"
    by (simp add: typed_events_def line_events_def)
  have str: "to_string 1 = ''1''" "to_string 2 = ''2''" "to_string 3 = ''3''" by code_simp+
  note off = typed_faults [OF p(1) [unfolded demo_proc_def], unfolded p(2) ty]
  have "Intercept (net (np_node p)) PRE_SEND_MESSAGE (create_context 1 2) = Hijack"
    "Intercept (net (np_node p)) PRE_SEND_MESSAGE (create_context 1 3) \<noteq> Hijack"
    using off [of 1 2] off [of 1 3] by (simp_all add: demo_flags_def str del: One_nat_def)
  moreover have "v \<noteq> Hijack \<Longrightarrow> v = Proceed" for v by (cases v) simp_all
  ultimately show ?thesis using p(1) by blast
qed

text \<open>
  The help text writes the ids with a comma between them; typed like that, all but the last
  carry the comma into the name and are ignored.
\<close>

lemma comma_is_ignored:
  "typed_events (\<lambda>s. s) split_on [''dis 2, 3''] = [Disconnect ''2,'', Disconnect ''3'']"
  "cut_after (to_string 2) [Disconnect ''2,'', Disconnect ''3''] False = False"
proof -
  show "typed_events (\<lambda>s. s) split_on [''dis 2, 3''] = [Disconnect ''2,'', Disconnect ''3'']"
    by (simp add: typed_events_def line_events_def)
  have "to_string 2 = ''2''" by code_simp
  then show "cut_after (to_string 2) [Disconnect ''2,'', Disconnect ''3''] False = False" by simp
qed

section \<open>Signals\<close>

text \<open>All signals of a run arrive while the loop polls or after it has ended.\<close>

fun signals_in_poll ::
  "(string \<Rightarrow> string) \<Rightarrow> (char \<Rightarrow> string \<Rightarrow> string list) \<Rightarrow> loop_event list \<Rightarrow> NodeProc \<Rightarrow> bool" where
  "signals_in_poll strip split [] p = True"
| "signals_in_poll strip split (e # es) p \<longleftrightarrow>
     (e = LSignal \<longrightarrow> np_pc p = LoopTop \<or> np_pc p = LoopEnd) \<and>
     (case loop_step strip split e p of Some (Ran q) \<Rightarrow> signals_in_poll strip split es q | _ \<Rightarrow> True)"

definition pointer_ok :: "NodeProc \<Rightarrow> bool" where
  "pointer_ok p \<longleftrightarrow> np_set p \<or> \<not> keep_running p \<and> (np_pc p = LoopTop \<or> np_pc p = LoopEnd)"

lemma handle_sigint_ok:
  assumes "handle_sigint p = Ran q" "np_pc p = LoopTop \<or> np_pc p = LoopEnd"
  shows "pointer_ok q"
proof -
  have "\<not> keep_running q" "np_pc q = np_pc p"
    using assms(1) by (auto simp: handle_sigint_def reset_node_def split: if_splits option.splits ran.splits)
  with assms(2) show ?thesis by (simp add: pointer_ok_def)
qed

lemma loop_step_ok:
  assumes "pointer_ok p" "loop_step strip split e p = Some r" "e = LSignal \<longrightarrow> np_pc p = LoopTop \<or> np_pc p = LoopEnd"
  shows "r \<noteq> NullDeref \<and> (\<forall>q. r = Ran q \<longrightarrow> pointer_ok q)"
proof (cases e)
  case LDispatch
  with assms(2) obtain s where s: "np_pc p = GotLine s"
    "r = (case handle_cmd strip split s p of
            Ran (leave, q) \<Rightarrow> Ran (q\<lparr>np_pc := (if leave then LoopEnd else LoopTop), np_typed := np_typed q @ [s]\<rparr>)
          | NullDeref \<Rightarrow> NullDeref | Terminated \<Rightarrow> Terminated | Waits \<Rightarrow> Waits)"
    by (auto split: loop_pc.splits)
  with assms(1) have set: "np_set p" by (simp add: pointer_ok_def)
  then have "handle_cmd strip split s p \<noteq> NullDeref"
    by (auto simp: handle_cmd_def handle_words_def Let_def split: list.splits option.splits)
  moreover have "np_set q" if "handle_cmd strip split s p = Ran (leave, q)" for leave q
    using handle_words_frame(2) [OF that [unfolded handle_cmd_def]] set by simp
  ultimately show ?thesis unfolding s(2) by (auto simp: pointer_ok_def split: ran.splits)
next
  case LSignal
  then have r: "r = handle_sigint p" using assms(2) by simp
  have "handle_sigint p \<noteq> NullDeref"
    by (auto simp: handle_sigint_def reset_node_def split: option.splits ran.splits)
  moreover have "pointer_ok q" if "handle_sigint p = Ran q" for q
    using that assms(3) LSignal by (intro handle_sigint_ok) simp_all
  ultimately show ?thesis unfolding r by blast
qed (use assms(1,2) in \<open>auto simp: pointer_ok_def split: if_splits\<close>)

text \<open>
  The command loop and the signal handler share a pointer that the handler resets. As long
  as the signals arrive while the loop waits for input, no command is run through the null
  pointer, whatever is typed.
\<close>

lemma polled_signals_safe:
  assumes "signals_in_poll strip split es (proc_start w)"
  shows "run_loop strip split es (proc_start w) \<noteq> Some NullDeref"
proof -
  have "pointer_ok p \<Longrightarrow> signals_in_poll strip split es p \<Longrightarrow> run_loop strip split es p \<noteq> Some NullDeref" for p
  proof (induction es arbitrary: p)
    case (Cons e es)
    show ?case
    proof (cases "loop_step strip split e p")
      case (Some r)
      from loop_step_ok [OF Cons.prems(1) Some] Cons.prems(2)
      have "r \<noteq> NullDeref" "\<And>q. r = Ran q \<Longrightarrow> pointer_ok q" by auto
      with Cons Some show ?thesis by (cases r) auto
    qed simp
  qed simp
  moreover have "pointer_ok (proc_start w)" by (simp add: pointer_ok_def proc_start_def)
  ultimately show ?thesis using assms by blast
qed

definition polled_signal :: "loop_event list" where
  "polled_signal = type_line ''dis 2'' @ [LSignal, LPoll PollIntr]"

lemma polled_signals_safe_witness:
  "signals_in_poll (\<lambda>s. s) split_on polled_signal demo_proc \<and>
   run_loop (\<lambda>s. s) split_on polled_signal demo_proc \<noteq> Some NullDeref"
proof -
  have "signals_in_poll (\<lambda>s. s) split_on polled_signal demo_proc"
    by (simp add: polled_signal_def type_line_def demo_proc_def proc_start_def handle_cmd_def handle_words_def Let_def
        split: ran.splits)
  then show ?thesis unfolding demo_proc_def using polled_signals_safe by blast
qed

text \<open>A signal between the poll and the command, and the command goes through the null pointer.\<close>

lemma late_signal_null:
  "run_loop (\<lambda>s. s) split_on [LPoll PollIn, LSignal, LRead (Line ''k''), LDispatch] demo_proc = Some NullDeref"
  by (simp add: demo_proc_def proc_start_def raft_node_main_def start_node_def demo_flags_def demo_env_def
      RaftWrapper_plain_def RaftWrapper_ctrl_def handle_sigint_def reset_node_def cleanup_request_def
      cleanup_finish_def close_ready_def stop_server_def kill_node_def start_server_def
      handle_cmd_def handle_words_def Let_def)

text \<open>A node under the test controller cannot be destroyed before its shutdown helper is through.\<close>

lemma sigint_waits_for_helper:
  assumes "np_set p" "helper (np_node p) = HelperWaiting \<or> helper (np_node p) = HelperClosed"
  shows "handle_sigint p = Waits"
  using assms
  by (auto simp: handle_sigint_def reset_node_def cleanup_finish_def cleanup_request_def stop_server_def kill_node_def)

section \<open>Output\<close>

text \<open>What is left of the sinks: with 0 nothing, with 1 the file, with 2 all; a traced build keeps its sink.\<close>

lemma verbosity_sinks:
  "prepare_logging 0 (logger_sinks False) = [(StdoutColorSink, False), (FileSink, False)]"
  "prepare_logging 1 (logger_sinks False) = [(StdoutColorSink, False), (FileSink, True)]"
  "prepare_logging 2 (logger_sinks False) = logger_sinks False"
  "prepare_logging v (logger_sinks True) = logger_sinks True"
  by (simp_all add: prepare_logging_def disable_console_logging_def logger_sinks_def)

end
