(* ===== verification/Test_Ctrl.thy ===== *)
theory Test_Ctrl
  imports Node_App
begin

text \<open>
  The controller that starts the node processes and drives them, \<open>src/inc/toolings/test_ctrl.hpp\<close>,
  and the command line on top of it, \<open>src/app/multinode.cpp\<close>. \<open>TestCtrl\<close> holds the controller's
  maps and the node processes behind its stubs (\<open>procs\<close>, each a \<open>Wrapper\<close>); an RPC is the
  node's own function of \<open>Raft_Wrapper\<close>, and whether gRPC delivers it is the argument \<open>ok\<close>.
  The calls of one operation go to different processes, so their order does not matter.
  \<open>exit(1)\<close>, an exception that nobody catches and a wait that has to go on are outcomes.

  The text of the command that starts a process goes through the shell and Abseil's flags; what
  the node reads from it is \<open>flags_of\<close>, with Abseil's parser of 16-bit flags as a parameter.
  The thread that reads a node's stream is in \<open>Raft_Wrapper\<close> (its end) and \<open>Test_Config\<close> (what
  is done with the results). Not here: DDB's wrapper script, and the pauses.

  Shown: a process gets the configuration it was generated with; a line of ids on the command
  line reaches all nodes alike; the controller waits for all nodes; \<open>kill\<close> leaves no process
  that answers; a signal is safe while the program waits for input, and not while it reads a line or
  waits for the nodes.
\<close>

section \<open>Starting the processes\<close>

record DDBConfig =
  enable_ddb :: bool
  ddb_host_ip :: string
  wait_for_attach :: bool
  ddb_app_wrapper :: bool

definition format_flags :: "DDBConfig \<Rightarrow> string" where
  "format_flags d =
     (if enable_ddb d
      then ''--ddb --ddb_host_ip '' @ ddb_host_ip d @ '' '' @ (if wait_for_attach d then ''--wait_for_attach'' else [])
      else [])"

definition spawn_base :: "string \<Rightarrow> string \<Rightarrow> nat \<Rightarrow> nat \<Rightarrow> DDBConfig option \<Rightarrow> string" where
  "spawn_base node_app_path ctrl_addr fail_type verbosity ddb =
     (let command = node_app_path @ '' --enable_ctrl --ctrl_addr '' @ ctrl_addr @ '' --fail_type '' @
            to_string fail_type @ '' --verbosity '' @ to_string verbosity
      in case ddb of
           None \<Rightarrow> command
         | Some d \<Rightarrow> if enable_ddb d then command @ '' '' @ format_flags d else command)"

text \<open>The list of the peers; the last comma is cut off.\<close>

definition peers_text :: "(u64, string) omap \<Rightarrow> string" where
  "peers_text ps = butlast (concat (map (\<lambda>(i, a). to_string i @ ''+'' @ a @ '','') ps))"

record spawn_args =
  sa_id :: string
  sa_port :: string
  sa_peers :: string
  sa_tester :: string

datatype spawn_error = InvalidAddress | NoTesterPort

definition spawn_node ::
  "(char \<Rightarrow> string \<Rightarrow> string list) \<Rightarrow> (u64, u64) umap \<Rightarrow> Config \<Rightarrow> spawn_error + spawn_args" where
  "spawn_node split node_tester_ports c =
     (case split (CHR '':'') (c_addr c) of
        [host, port] \<Rightarrow>
          (case map_of node_tester_ports (c_id c) of
             None \<Rightarrow> Inl NoTesterPort
           | Some tp \<Rightarrow>
               Inr \<lparr>sa_id = to_string (c_id c), sa_port = port, sa_peers = peers_text (c_peer_addrs c),
                    sa_tester = to_string tp\<rparr>)
      | _ \<Rightarrow> Inl InvalidAddress)"

definition spawn_cmd :: "string \<Rightarrow> spawn_args \<Rightarrow> string" where
  "spawn_cmd command a =
     command @ '' --id '' @ sa_id a @ '' --port '' @ sa_port a @
     (if sa_peers a = [] then [] else '' --peers '' @ sa_peers a) @
     '' --node_tester_port '' @ sa_tester a @ '' > node_runner_'' @ sa_id a @ ''.log 2>&1 &''"

text \<open>The loop over the configurations stops the program at the first bad one.\<close>

fun spawn_raft_node ::
  "(char \<Rightarrow> string \<Rightarrow> string list) \<Rightarrow> (u64, u64) umap \<Rightarrow> string \<Rightarrow> Config list \<Rightarrow> spawn_error + string list" where
  "spawn_raft_node split ports command [] = Inr []"
| "spawn_raft_node split ports command (c # cs) =
     (case spawn_node split ports c of
        Inl e \<Rightarrow> Inl e
      | Inr a \<Rightarrow>
          (case spawn_raft_node split ports command cs of
             Inl e \<Rightarrow> Inl e
           | Inr cmds \<Rightarrow> Inr (spawn_cmd command a # cmds)))"

text \<open>What a node reads from its arguments.\<close>

definition flags_of ::
  "(string \<Rightarrow> u64 option) \<Rightarrow> (string \<Rightarrow> u64 option) \<Rightarrow> (char \<Rightarrow> string \<Rightarrow> string list) \<Rightarrow> int \<Rightarrow> int \<Rightarrow>
   spawn_args \<Rightarrow> node_flags option" where
  "flags_of num16 atoi split fail_type verbosity a =
     (case (num16 (sa_id a), num16 (sa_port a), AbslParseFlag split atoi (sa_peers a) []) of
        (Some i, Some p, (None, ps)) \<Rightarrow>
          Some \<lparr>fl_id = i, fl_port = p, fl_peers = ps, fl_fail_type = fail_type, fl_verbosity = verbosity,
                fl_enable_ctrl = True\<rparr>
      | _ \<Rightarrow> None)"

section \<open>Driving the processes\<close>

record TestCtrl =
  ctrl_ports :: "(u64, u64) umap"
  ctrl_nodes :: "u64 list"
  ready_nodes :: "(u64, bool) umap"
  node_pids :: "(u64, nat) umap"
  ctrl_killed :: bool
  procs :: "u64 \<Rightarrow> Wrapper"

definition ctrl_new :: "(u64, u64) umap \<Rightarrow> Config list \<Rightarrow> (u64 \<Rightarrow> Wrapper) \<Rightarrow> TestCtrl" where
  "ctrl_new ports configs ps =
     \<lparr>ctrl_ports = ports, ctrl_nodes = [], ready_nodes = fold (\<lambda>c. AList.update (c_id c) False) configs [],
      node_pids = [], ctrl_killed = False, procs = ps\<rparr>"

definition ReportReady :: "u64 \<Rightarrow> nat \<Rightarrow> TestCtrl \<Rightarrow> TestCtrl" where
  "ReportReady i pid c =
     c\<lparr>ready_nodes := AList.update i True (ready_nodes c), node_pids := AList.update i pid (node_pids c)\<rparr>"

definition is_all_ready :: "TestCtrl \<Rightarrow> bool" where
  "is_all_ready c \<longleftrightarrow> (\<forall>(i, r) \<in> set (ready_nodes c). r)"

datatype 'a ctrl_out = Done 'a | Exit1 | Uncaught | Blocked

definition connect_to_raft_nodes :: "TestCtrl \<Rightarrow> TestCtrl ctrl_out" where
  "connect_to_raft_nodes c =
     (if \<not> (is_all_ready c \<or> ctrl_killed c) then Blocked
      else if ctrl_killed c then Done c
      else Done (c\<lparr>ctrl_nodes := fold (\<lambda>i ns. if i \<in> set ns then ns else ns @ [i]) (map fst (ctrl_ports c)) (ctrl_nodes c)\<rparr>))"

text \<open>A call to the connected nodes; \<open>f\<close> is \<open>None\<close> where the process does not survive it.\<close>

definition call_nodes :: "(u64 \<Rightarrow> bool) \<Rightarrow> (Wrapper \<Rightarrow> Wrapper option) \<Rightarrow> TestCtrl \<Rightarrow> TestCtrl ctrl_out" where
  "call_nodes ok f c =
     (if list_all (\<lambda>i. ok i \<and> f (procs c i) \<noteq> None) (ctrl_nodes c)
      then Done (c\<lparr>procs := (\<lambda>i. if i \<in> set (ctrl_nodes c) then (case f (procs c i) of Some w \<Rightarrow> w | None \<Rightarrow> procs c i)
                                else procs c i)\<rparr>)
      else Exit1)"

definition ctrl_run :: "(u64 \<Rightarrow> bool) \<Rightarrow> TestCtrl \<Rightarrow> TestCtrl ctrl_out" where
  "ctrl_run ok c =
     (case connect_to_raft_nodes c of
        Done c1 \<Rightarrow> call_nodes ok (\<lambda>w. map_option snd (Run_rpc w)) c1
      | r \<Rightarrow> r)"

definition ctrl_disconnect :: "(u64 \<Rightarrow> bool) \<Rightarrow> u64 list \<Rightarrow> TestCtrl \<Rightarrow> TestCtrl ctrl_out" where
  "ctrl_disconnect ok ids = call_nodes ok (\<lambda>w. Some (snd (Disconnect_rpc ids w)))"

definition ctrl_reconnect :: "(u64 \<Rightarrow> bool) \<Rightarrow> u64 list \<Rightarrow> TestCtrl \<Rightarrow> TestCtrl ctrl_out" where
  "ctrl_reconnect ok ids = call_nodes ok (\<lambda>w. Some (snd (Reconnect_rpc ids w)))"

text \<open>A reply that did not arrive counts as one with the default values.\<close>

definition default_proposal :: TProposalResult where
  "default_proposal = \<lparr>tp_index = 0, tp_term = 0, tp_is_leader = False, tp_id = 0\<rparr>"

definition propose_to_all :: "(u64 \<Rightarrow> bool) \<Rightarrow> bytes \<Rightarrow> TestCtrl \<Rightarrow> TProposalResult list \<times> TestCtrl" where
  "propose_to_all ok data c =
     (map (\<lambda>i. if ok i then fst (Propose_rpc data (procs c i)) else default_proposal) (ctrl_nodes c),
      c\<lparr>procs := (\<lambda>i. if i \<in> set (ctrl_nodes c) \<and> ok i then snd (Propose_rpc data (procs c i)) else procs c i)\<rparr>)"

definition propose_to_one :: "(u64 \<Rightarrow> bool) \<Rightarrow> u64 \<Rightarrow> bytes \<Rightarrow> TestCtrl \<Rightarrow> TProposalResult option \<times> TestCtrl" where
  "propose_to_one ok i data c =
     (if i \<notin> set (ctrl_nodes c) then (None, c)
      else if ok i
      then (Some (fst (Propose_rpc data (procs c i))), c\<lparr>procs := (procs c)(i := snd (Propose_rpc data (procs c i)))\<rparr>)
      else (None, c))"

definition get_all_states :: "(u64 \<Rightarrow> bool) \<Rightarrow> TestCtrl \<Rightarrow> TState list" where
  "get_all_states ok c =
     map (\<lambda>i. if ok i then GetState (procs c i) else \<lparr>ts_term = 0, ts_is_leader = False, ts_id = 0\<rparr>) (ctrl_nodes c)"

definition get_total_rpc_stats :: "(u64 \<Rightarrow> bool) \<Rightarrow> TestCtrl \<Rightarrow> u64 \<times> u64" where
  "get_total_rpc_stats ok c =
     (let stats = map (\<lambda>i. if ok i then GetRPCStats (procs c i) else \<lparr>rs_bytes = 0, rs_count = 0, rs_id = 0\<rparr>) (ctrl_nodes c)
      in (fold (\<lambda>s n. add64 n (rs_bytes s)) stats 0, fold (\<lambda>s n. add64 n (rs_count s)) stats 0))"

text \<open>
  \<open>kill\<close>: up to three rounds of the Kill RPC, to all nodes each time; \<open>oks\<close> has what arrived in
  each round. Processes that are still there after the pauses get \<open>SIGKILL\<close>.
\<close>

fun kill_rounds :: "(u64 \<Rightarrow> bool) list \<Rightarrow> TestCtrl \<Rightarrow> TestCtrl" where
  "kill_rounds [] c = c"
| "kill_rounds (ok # oks) c =
     (let c1 = c\<lparr>procs := (\<lambda>i. if i \<in> set (ctrl_nodes c) \<and> ok i then snd (Kill_rpc (procs c i)) else procs c i)\<rparr>
      in if list_all ok (ctrl_nodes c) then c1 else kill_rounds oks c1)"

definition ctrl_kill ::
  "(nat \<Rightarrow> u64 \<Rightarrow> bool) \<Rightarrow> (nat \<Rightarrow> bool) \<Rightarrow> (nat \<Rightarrow> bool) \<Rightarrow> TestCtrl \<Rightarrow> TestCtrl \<times> nat list" where
  "ctrl_kill oks alive alive_later c =
     (let c1 = kill_rounds (map oks [0..<3]) (c\<lparr>ctrl_killed := True\<rparr>);
          pids = map snd (node_pids c1)
      in if list_all (\<lambda>pid. \<not> alive pid) pids then (c1, [])
         else (c1, filter alive_later pids))"

section \<open>The command line\<close>

text \<open>\<open>std::stoul\<close>: white space, a sign, the longest run of digits; the rest is ignored.\<close>

definition isspace :: "char \<Rightarrow> bool" where
  "isspace ch \<longleftrightarrow> of_char ch = (32 :: nat) \<or> (9 :: nat) \<le> of_char ch \<and> of_char ch \<le> (13 :: nat)"

definition isdigit :: "char \<Rightarrow> bool" where
  "isdigit ch \<longleftrightarrow> (48 :: nat) \<le> of_char ch \<and> of_char ch \<le> (57 :: nat)"

definition stoul :: "string \<Rightarrow> u64 option" where
  "stoul s =
     (let s1 = dropWhile isspace s;
          (neg, s2) = (case s1 of
                         [] \<Rightarrow> (False, [])
                       | ch # r \<Rightarrow> if ch = CHR ''-'' then (True, r) else if ch = CHR ''+'' then (False, r) else (False, s1));
          ds = takeWhile isdigit s2; v = dec_value ds
      in if ds = [] \<or> 2 ^ 64 \<le> v then None
         else Some (if neg then (2 ^ 64 - v) mod 2 ^ 64 else v))"

fun stoul_all :: "string list \<Rightarrow> u64 list option" where
  "stoul_all [] = Some []"
| "stoul_all (s # ss) =
     (case stoul s of
        None \<Rightarrow> None
      | Some n \<Rightarrow> (case stoul_all ss of None \<Rightarrow> None | Some ns \<Rightarrow> Some (n # ns)))"

definition multinode_words ::
  "(u64 \<Rightarrow> bool) \<Rightarrow> (TestCtrl \<Rightarrow> TestCtrl) \<Rightarrow> string list \<Rightarrow> TestCtrl \<Rightarrow> (bool \<times> TestCtrl) ctrl_out" where
  "multinode_words ok do_kill splits c =
     (let go = (\<lambda>r. case r of Done c1 \<Rightarrow> Done (False, c1) | Exit1 \<Rightarrow> Exit1 | Uncaught \<Rightarrow> Uncaught | Blocked \<Rightarrow> Blocked)
      in case splits of
           [] \<Rightarrow> Done (False, c)
         | [cmd] \<Rightarrow>
             if cmd = ''r'' then go (ctrl_run ok c)
             else if cmd = ''k'' then Done (True, do_kill c)
             else Done (False, c)
         | cmd # params \<Rightarrow>
             if cmd = ''dis'' \<or> cmd = ''conn''
             then (case stoul_all params of
                     None \<Rightarrow> Uncaught
                   | Some ids \<Rightarrow>
                       if cmd = ''dis'' then go (ctrl_disconnect ok ids c) else go (ctrl_reconnect ok ids c))
             else if cmd = ''prop'' then Done (False, snd (propose_to_all ok (hd params) c))
             else Done (False, c))"

definition multinode_cmd ::
  "(string \<Rightarrow> string) \<Rightarrow> (char \<Rightarrow> string \<Rightarrow> string list) \<Rightarrow> (u64 \<Rightarrow> bool) \<Rightarrow> (TestCtrl \<Rightarrow> TestCtrl) \<Rightarrow>
   string \<Rightarrow> TestCtrl \<Rightarrow> (bool \<times> TestCtrl) ctrl_out" where
  "multinode_cmd strip split ok do_kill command c =
     multinode_words ok do_kill (split (CHR '' '') (strip command)) c"

section \<open>What a process is started with\<close>

text \<open>The documented behaviour of \<open>StrSplit\<close> with one delimiter: it undoes joining.\<close>

definition splits_ok :: "(char \<Rightarrow> string \<Rightarrow> string list) \<Rightarrow> bool" where
  "splits_ok split \<longleftrightarrow> (\<forall>d xs. xs \<noteq> [] \<and> (\<forall>x \<in> set xs. d \<notin> set x) \<longrightarrow> split d (join_with xs [d]) = xs)"

lemma splits_okD: "splits_ok split \<Longrightarrow> xs \<noteq> [] \<Longrightarrow> (\<And>x. x \<in> set xs \<Longrightarrow> d \<notin> set x) \<Longrightarrow> split d (join_with xs [d]) = xs"
  by (auto simp: splits_ok_def)

lemma splits_on_ok: "splits_ok split_on"
  by (simp add: splits_ok_def split_on_join)

lemma to_string_no: "\<not> isdigit d \<Longrightarrow> d \<notin> set (to_string n)"
  using to_string_digits [of d n] by (auto simp: isdigit_def)

lemma peers_text_join:
  "ps \<noteq> [] \<Longrightarrow> peers_text ps = join_with (map (\<lambda>(i, a). to_string i @ ''+'' @ a) ps) '',''"
proof (induction ps)
  case (Cons p ps)
  show ?case
  proof (cases "ps = []")
    case True
    then show ?thesis by (cases p) (simp add: peers_text_def butlast_append)
  next
    case False
    then obtain q qs where q: "ps = q # qs" by (cases ps) auto
    with Cons have "peers_text ps = join_with (map (\<lambda>(i, a). to_string i @ ''+'' @ a) ps) '',''" by simp
    moreover have "concat (map (\<lambda>(i, a). to_string i @ ''+'' @ a @ '','') ps) \<noteq> []"
      using q by (cases q) simp
    ultimately show ?thesis using q by (cases p) (simp add: peers_text_def butlast_append)
  qed
qed simp

lemma peers_text_read:
  assumes ok: "splits_ok split" and num: "\<forall>k < 2 ^ 64. atoi (to_string k) = Some k"
    and ps: "omap_ok ps" and addrs: "\<And>i a. (i, a) \<in> set ps \<Longrightarrow> i < 2 ^ 64 \<and> CHR ''+'' \<notin> set a \<and> CHR '','' \<notin> set a"
  shows "AbslParseFlag split atoi (peers_text ps) [] = (None, ps)"
proof (cases "ps = []")
  case True
  then show ?thesis by (simp add: AbslParseFlag_def peers_text_def)
next
  case False
  let ?parts = "map (\<lambda>(i, a). to_string i @ ''+'' @ a) ps"
  have "CHR '','' \<notin> set x" if "x \<in> set ?parts" for x
    using that addrs to_string_no [of "CHR '',''"] by (fastforce simp: isdigit_def)
  with False have "split (CHR '','') (join_with ?parts '','') = ?parts" by (intro splits_okD [OF ok]) auto
  moreover have "join_with ?parts '','' \<noteq> []"
    by (rule join_with_ne [of "hd ?parts"]) (use False in \<open>cases ps; auto\<close>)+
  moreover have "parse_parts split atoi ?parts [] = (None, [] @ ps)"
  proof (rule parse_parts_unparsed)
    show "split CHR ''+'' (a @ ''+'' @ b) = [a, b]" if "CHR ''+'' \<notin> set a" "CHR ''+'' \<notin> set b" for a b
      using splits_okD [OF ok, of "[a, b]" "CHR ''+''"] that by auto
  qed (use num ps addrs in auto)
  ultimately show ?thesis using False peers_text_join by (simp add: AbslParseFlag_def)
qed

lemma local_peer_texts:
  assumes "(i, a) \<in> set (peer_addrs_of (gen_local_instances n p) j)" "p + n < 2 ^ 64"
  shows "i < n" "a = ''localhost:'' @ to_string (p + i)"
proof -
  let ?is = "gen_local_instances n p"
  have "distinct (map fst (peer_addrs_of ?is j))"
    using peers_of_ok [of ?is j] by (simp add: omap_ok_def strict_sorted_iff)
  then have "map_of (peer_addrs_of ?is j) i = Some a" using assms(1) by simp
  then have "(i, a) \<in> set (rev (map (\<lambda>q. (ri_id q, external_addr q)) ?is))"
    by (intro map_of_SomeD) (simp add: peers_of_map split: if_splits)
  then show "i < n" "a = ''localhost:'' @ to_string (p + i)"
    using assms(2) by (auto simp: gen_local_instances_def Let_def add64_def)
qed

lemma tester_port_known:
  assumes "x \<in> set insts" "distinct (map ri_id insts)"
  shows "map_of (tester_ports insts tp) (ri_id x) \<noteq> None"
proof -
  have "ri_id x \<in> fst ` set (tester_ports insts tp)"
    using assms unfolding tester_ports_distinct [OF assms(2)]
    by (force simp: enumerate_eq_zip set_zip in_set_conv_nth image_iff)
  then show ?thesis by (simp add: map_of_eq_None_iff)
qed

text \<open>
  C36: a process runs with the configuration that was generated for it: for a cluster on local
  ports below \<open>2 ^ 16\<close>, no configuration stops the controller; what the node reads from the
  arguments it is given is its own id and exactly its peers, it listens on the port its peers
  have for it, and a key-value node serves clients at the offset of the clients' addresses.
\<close>

theorem spawned_nodes:
  assumes "splits_ok split" "\<forall>k < 2 ^ 16. num16 (to_string k) = Some k" "\<forall>k < 2 ^ 64. atoi (to_string k) = Some k"
    and small: "p + n < 2 ^ 16" and c: "c \<in> set (gen_raft_configs (gen_local_instances n p))"
  shows "\<exists>a fl. spawn_node split (tester_ports (gen_local_instances n p) tp) c = Inr a \<and>
    flags_of num16 atoi split fail_type verbosity a = Some fl \<and>
    node_config fl = c\<lparr>c_addr := ''0.0.0.0:'' @ to_string (p + c_id c)\<rparr> \<and>
    snd (kv_node_main fl env) = ''0.0.0.0:'' @ to_string (p + c_id c + 1000)"
proof -
  let ?is = "gen_local_instances n p"
  have wide: "p + n < 2 ^ 64" using small by simp
  obtain x where x: "x \<in> set ?is" "c_id c = ri_id x" "c_addr c = listening_addr x"
    "c_peer_addrs c = peer_addrs_of ?is (ri_id x)"
    using c by (rule configs_from)
  have "ri_id x \<in> set (map ri_id ?is)" using x(1) by simp
  then have i: "ri_id x < n" unfolding local_ids by simp
  have addr: "c_addr c = join_with [''localhost'', to_string (p + ri_id x)] '':''"
    using local_addr [OF x(1) wide] x(3) by simp
  have "split (CHR '':'') (c_addr c) = [''localhost'', to_string (p + ri_id x)]"
    unfolding addr by (rule splits_okD [OF assms(1)]) (auto simp: isdigit_def dest: to_string_no [THEN notE, rotated])
  moreover obtain t where "map_of (tester_ports ?is tp) (ri_id x) = Some t"
    using tester_port_known [OF x(1), of tp] local_ids [of n p] by auto
  ultimately have sp: "spawn_node split (tester_ports ?is tp) c =
      Inr \<lparr>sa_id = to_string (c_id c), sa_port = to_string (p + ri_id x), sa_peers = peers_text (c_peer_addrs c),
           sa_tester = to_string t\<rparr>" (is "_ = Inr ?a")
    using x(2) by (simp add: spawn_node_def)
  have "AbslParseFlag split atoi (peers_text (c_peer_addrs c)) [] = (None, c_peer_addrs c)"
  proof (rule peers_text_read [OF assms(1,3)])
    show "omap_ok (c_peer_addrs c)" using local_peers_dom [OF c] by simp
    show "j < 2 ^ 64 \<and> CHR ''+'' \<notin> set a \<and> CHR '','' \<notin> set a" if "(j, a) \<in> set (c_peer_addrs c)" for j a
      using local_peer_texts [OF that [unfolded x(4)] wide] wide to_string_no [of "CHR ''+''"] to_string_no [of "CHR '',''"]
      by (auto simp: isdigit_def)
  qed
  then have fl: "flags_of num16 atoi split fail_type verbosity ?a =
      Some \<lparr>fl_id = c_id c, fl_port = p + ri_id x, fl_peers = c_peer_addrs c, fl_fail_type = fail_type,
            fl_verbosity = verbosity, fl_enable_ctrl = True\<rparr>"
    using assms(2) small i x(2) by (simp add: flags_of_def)
  show ?thesis
    by (intro exI conjI, rule sp, rule fl)
       (use small i x(2) in \<open>simp_all add: node_config_def kv_node_main_def KV_PORT_OFFSET_def add64_def\<close>)
qed

definition num16_dec :: "string \<Rightarrow> u64 option" where
  "num16_dec s = (case dec_atoi s of Some n \<Rightarrow> if n < 2 ^ 16 then Some n else None | None \<Rightarrow> None)"

theorem spawned_nodes_witness:
  "\<exists>a fl. spawn_node split_on (tester_ports (gen_local_instances 3 50050) 55001)
       (gen_raft_configs (gen_local_instances 3 50050) ! 1) = Inr a \<and>
     flags_of num16_dec dec_atoi split_on 0 1 a = Some fl \<and> fl_id fl = 1 \<and> fl_port fl = 50051"
proof -
  let ?cs = "gen_raft_configs (gen_local_instances 3 50050)"
  have ids: "map c_id ?cs = [0..<3]" using local_ids [of 3 50050] by (simp add: gen_raft_configs_def comp_def)
  have len: "length ?cs = 3" using arg_cong [OF ids, of length] by simp
  have mem: "?cs ! 1 \<in> set ?cs" by (rule nth_mem) (simp add: len)
  have id: "c_id (?cs ! 1) = 1" using nth_map [of 1 ?cs c_id] ids len by simp
  have num: "\<forall>k < 2 ^ 16. num16_dec (to_string k) = Some k" "\<forall>k < 2 ^ 64. dec_atoi (to_string k) = Some k"
    by (simp_all add: num16_dec_def dec_atoi_def dec_value_to_string)
  have small: "50050 + 3 < (2 :: nat) ^ 16" by simp
  from spawned_nodes [OF splits_on_ok num small mem, of 55001 0 1 demo_env] obtain a fl where
    f: "spawn_node split_on (tester_ports (gen_local_instances 3 50050) 55001) (?cs ! 1) = Inr a"
    "flags_of num16_dec dec_atoi split_on 0 1 a = Some fl"
    "node_config fl = (?cs ! 1)\<lparr>c_addr := ''0.0.0.0:'' @ to_string (50050 + c_id (?cs ! 1))\<rparr>" by blast
  from arg_cong [OF f(3), of c_id] arg_cong [OF f(3), of c_addr] id have "fl_id fl = 1" "fl_port fl = 50051"
    by (simp_all add: node_config_def)
  with f show ?thesis by blast
qed

section \<open>Commands to all nodes\<close>

lemma stoul_to_string: "n < 2 ^ 64 \<Longrightarrow> stoul (to_string n) = Some n"
proof -
  assume n: "n < 2 ^ 64"
  obtain ch r where s: "to_string n = ch # r" by (cases "to_string n") auto
  have dig: "isdigit d" if "d \<in> set (to_string n)" for d
    using to_string_digits [OF that] by (simp add: isdigit_def)
  then have ch: "isdigit ch" using s by simp
  then have "\<not> isspace ch" "ch \<noteq> CHR ''-''" "ch \<noteq> CHR ''+''" by (auto simp: isspace_def isdigit_def)
  moreover have "takeWhile isdigit (to_string n) = to_string n" using dig by (simp add: takeWhile_eq_all_conv)
  ultimately show ?thesis using n dec_value_to_string [of n] s by (simp add: stoul_def)
qed

lemma stoul_all_to_string: "\<forall>i \<in> set ids. i < 2 ^ 64 \<Longrightarrow> stoul_all (map to_string ids) = Some ids"
  by (induction ids) (simp_all add: stoul_to_string)

lemma call_nodes_all:
  assumes "\<forall>i \<in> set (ctrl_nodes c). ok i"
  shows "call_nodes ok (\<lambda>w. Some (f w)) c =
    Done (c\<lparr>procs := (\<lambda>i. if i \<in> set (ctrl_nodes c) then f (procs c i) else procs c i)\<rparr>)"
  using assms by (simp add: call_nodes_def list_all_iff cong: if_cong)

text \<open>
  Faults injected for the whole cluster: a line with \<open>dis\<close> or \<open>conn\<close> and the ids of nodes
  changes the groups of every connected node in the same way, one id after the other, and
  leaves everything else as it was.
\<close>

lemma operator_faults:
  assumes "splits_ok split" "ids \<noteq> []" "\<forall>i \<in> set ids. i < 2 ^ 64" "\<forall>i \<in> set (ctrl_nodes c). ok i"
    and "cmd = ''dis'' \<or> cmd = ''conn''" "strip line = join_with (cmd # map to_string ids) '' ''"
  shows "\<exists>c'. multinode_cmd strip split ok do_kill line c = Done (False, c') \<and>
    (\<forall>i \<in> set (ctrl_nodes c). procs c' i =
       (procs c i)\<lparr>net := fold (if cmd = ''dis'' then disconnect else reconnect) (map to_string ids) (net (procs c i))\<rparr>) \<and>
    (\<forall>i. i \<notin> set (ctrl_nodes c) \<longrightarrow> procs c' i = procs c i)"
proof -
  have "CHR '' '' \<notin> set x" if "x \<in> set (cmd # map to_string ids)" for x
    using that assms(5) to_string_no [of "CHR '' ''"] by (auto simp: isdigit_def)
  then have "split (CHR '' '') (strip line) = cmd # map to_string ids"
    unfolding assms(6) by (intro splits_okD [OF assms(1)]) auto
  moreover obtain i js where "ids = i # js" using assms(2) by (cases ids) auto
  moreover have "stoul_all (map to_string ids) = Some ids" using assms(3) by (rule stoul_all_to_string)
  ultimately show ?thesis
    using assms(5) call_nodes_all [OF assms(4), of "\<lambda>w. snd (Disconnect_rpc ids w)"]
      call_nodes_all [OF assms(4), of "\<lambda>w. snd (Reconnect_rpc ids w)"]
    by (auto simp: multinode_cmd_def multinode_words_def ctrl_disconnect_def ctrl_reconnect_def
        Disconnect_rpc_def Reconnect_rpc_def fold_map comp_def Let_def simp del: stoul_all.simps)
qed

definition demo_ctrl :: TestCtrl where
  "demo_ctrl = (ctrl_new [(1, 55001), (2, 55002)] [] (\<lambda>i. raft_node_main (demo_flags\<lparr>fl_id := i\<rparr>) demo_env))
     \<lparr>ctrl_nodes := [1, 2]\<rparr>"

lemma operator_faults_witness:
  "\<exists>c'. multinode_cmd (\<lambda>s. s) split_on (\<lambda>i. True) (\<lambda>c. c) ''dis 2 3'' demo_ctrl = Done (False, c') \<and>
     rank2 (net (procs c' 1)) = rank2 (net (procs c' 2))"
proof -
  have line: "''dis 2 3'' = join_with (''dis'' # map to_string [2, 3]) '' ''" by code_simp
  obtain c' where c': "multinode_cmd (\<lambda>s. s) split_on (\<lambda>i. True) (\<lambda>c. c) ''dis 2 3'' demo_ctrl = Done (False, c')"
    "\<forall>i \<in> set (ctrl_nodes demo_ctrl). procs c' i =
       (procs demo_ctrl i)\<lparr>net := fold disconnect (map to_string [2, 3]) (net (procs demo_ctrl i))\<rparr>"
    using operator_faults [OF splits_on_ok, of "[2, 3]" demo_ctrl "\<lambda>i. True" "''dis''" "\<lambda>s. s" "''dis 2 3''" "\<lambda>c. c"] line
    by auto
  have "net (procs demo_ctrl i) = net_exec (SetType NETWORK_FAILURE)
      (setup_rank (to_string ` insert i {2, 3}) (static_net demo_env))" for i
    by (simp add: demo_ctrl_def ctrl_new_def raft_node_main_def start_node_net demo_flags_def fail_type_of_def)
  then have "rank2 (net (procs c' i)) = {to_string 2, to_string 3}" if "i = 1 \<or> i = 2" for i
    using c'(2) that by (auto simp: demo_ctrl_def disconnect_def setup_rank_def set_type_def)
  with c'(1) show ?thesis by auto
qed

text \<open>An id that is not a number ends the program; two blanks in a row are enough.\<close>

lemma bad_id_uncaught:
  "multinode_cmd (\<lambda>s. s) split_on ok do_kill ''dis 1  2'' c = Uncaught"
  "multinode_cmd (\<lambda>s. s) split_on ok do_kill ''dis x'' c = Uncaught"
proof -
  have "split_on (CHR '' '') ''dis 1  2'' = [''dis'', ''1'', [], ''2'']" "split_on (CHR '' '') ''dis x'' = [''dis'', ''x'']"
    by simp_all
  moreover have "stoul [] = None" "stoul ''x'' = None" by (simp_all add: stoul_def isspace_def isdigit_def)
  then have "stoul_all [''1'', [], ''2''] = None" "stoul_all [''x''] = None" by (simp_all split: option.splits)
  ultimately show "multinode_cmd (\<lambda>s. s) split_on ok do_kill ''dis 1  2'' c = Uncaught"
    "multinode_cmd (\<lambda>s. s) split_on ok do_kill ''dis x'' c = Uncaught"
    by (simp_all add: multinode_cmd_def multinode_words_def Let_def del: stoul_all.simps split_on.simps)
qed

section \<open>Waiting for the nodes, and ending them\<close>

lemma connect_waits:
  assumes "connect_to_raft_nodes c = Done c'" "\<not> ctrl_killed c"
  shows "\<forall>(i, r) \<in> set (ready_nodes c). r" "set (ctrl_nodes c') = set (ctrl_nodes c) \<union> fst ` set (ctrl_ports c)"
proof -
  have add: "set (fold (\<lambda>i ns. if i \<in> set ns then ns else ns @ [i]) ids ns) = set ns \<union> set ids" for ids ns :: "u64 list"
    by (induction ids arbitrary: ns) auto
  from assms show "\<forall>(i, r) \<in> set (ready_nodes c). r"
    by (auto simp: connect_to_raft_nodes_def is_all_ready_def split: if_splits)
  have "ctrl_nodes c' = fold (\<lambda>i ns. if i \<in> set ns then ns else ns @ [i]) (map fst (ctrl_ports c)) (ctrl_nodes c)"
    using assms by (auto simp: connect_to_raft_nodes_def split: if_splits)
  then show "set (ctrl_nodes c') = set (ctrl_nodes c) \<union> fst ` set (ctrl_ports c)" by (simp only: add set_map)
qed

lemma kill_rounds_nodes: "ctrl_nodes (kill_rounds oks c) = ctrl_nodes c"
  by (induction oks c rule: kill_rounds.induct) (auto simp: Let_def)

lemma kill_rounds_keep: "stop_flag (procs c i) \<Longrightarrow> stop_flag (procs (kill_rounds oks c) i)"
proof (induction oks c rule: kill_rounds.induct)
  case (2 ok oks c)
  then show ?case by (auto simp: Let_def Kill_rpc_def kill_node_def stop_server_def)
qed simp

text \<open>Every node that one of the rounds reaches is stopped, though the rounds end early.\<close>

lemma kill_reaches:
  assumes "i \<in> set (ctrl_nodes c)" "ok \<in> set oks" "ok i"
  shows "stop_flag (procs (kill_rounds oks c) i)"
  using assms
proof (induction oks c rule: kill_rounds.induct)
  case (2 ok' oks c)
  let ?c = "c\<lparr>procs := (\<lambda>j. if j \<in> set (ctrl_nodes c) \<and> ok' j then snd (Kill_rpc (procs c j)) else procs c j)\<rparr>"
  show ?case
  proof (cases "ok' i")
    case True
    then have "stop_flag (procs ?c i)" using 2(2) by (simp add: Kill_rpc_def kill_node_def stop_server_def)
    then show ?thesis using kill_rounds_keep [of ?c i oks] by (simp add: Let_def)
  next
    case False
    then have "\<not> list_all ok' (ctrl_nodes c)" using 2(2) by (auto simp: list_all_iff)
    moreover have "ok \<in> set oks" using 2(3,4) False by auto
    ultimately show ?thesis using 2 by (simp add: Let_def)
  qed
qed simp

section \<open>The loop of the command line\<close>

text \<open>
  The program \<open>multinode\<close>: its static pointer to the controller, the loop and the signal handler.
  The loop is the one of \<open>raft_node\<close>. While \<open>r\<close> waits for the nodes to report, the program
  stays inside the call, and the wait is looked at again at the next step. A call that goes
  through the pointer after the handler has reset it, or goes on in the object that it destroyed, is
  \<open>NullDeref\<close>. \<open>do_kill\<close> is the controller's \<open>kill\<close>, with what the processes answered.
\<close>

record MnProc =
  mn_ctrl :: TestCtrl
  mn_set :: bool
  mn_keep :: bool
  mn_pc :: loop_pc

definition uses_ctrl :: "string list \<Rightarrow> bool" where
  "uses_ctrl splits \<longleftrightarrow>
     (case splits of
        [] \<Rightarrow> False
      | [cmd] \<Rightarrow> cmd = ''r'' \<or> cmd = ''k''
      | cmd # params \<Rightarrow> (cmd = ''dis'' \<or> cmd = ''conn'') \<and> stoul_all params \<noteq> None \<or> cmd = ''prop'')"

definition multinode_main :: "nat \<Rightarrow> (u64 \<Rightarrow> Wrapper) \<Rightarrow> MnProc" where
  "multinode_main num ps =
     (case multinode_setup num of
        (configs, ports) \<Rightarrow> \<lparr>mn_ctrl = ctrl_new ports configs ps, mn_set = True, mn_keep = True, mn_pc = LoopTop\<rparr>)"

definition mn_sigint :: "(TestCtrl \<Rightarrow> TestCtrl) \<Rightarrow> MnProc \<Rightarrow> MnProc" where
  "mn_sigint do_kill p =
     (if mn_set p then p\<lparr>mn_ctrl := do_kill (mn_ctrl p), mn_set := False, mn_keep := False\<rparr>
      else p\<lparr>mn_keep := False\<rparr>)"

fun mn_step ::
  "(string \<Rightarrow> string) \<Rightarrow> (char \<Rightarrow> string \<Rightarrow> string list) \<Rightarrow> (u64 \<Rightarrow> bool) \<Rightarrow> (TestCtrl \<Rightarrow> TestCtrl) \<Rightarrow>
   loop_event \<Rightarrow> MnProc \<Rightarrow> MnProc ctrl_out ran option" where
  "mn_step strip split ok do_kill (LPoll r) p =
     (if mn_pc p = LoopTop then Some (Ran (Done (p\<lparr>mn_pc := poll_next (mn_keep p) r\<rparr>))) else None)"
| "mn_step strip split ok do_kill (LRead r) p =
     (if mn_pc p = Reading then Some (Ran (Done (p\<lparr>mn_pc := read_next (mn_keep p) r\<rparr>))) else None)"
| "mn_step strip split ok do_kill LDispatch p =
     (case mn_pc p of
        GotLine s \<Rightarrow>
          Some (if uses_ctrl (split (CHR '' '') (strip s)) \<and> \<not> mn_set p then NullDeref
                else Ran (case multinode_cmd strip split ok do_kill s (mn_ctrl p) of
                            Done (leave, c) \<Rightarrow> Done (p\<lparr>mn_ctrl := c, mn_pc := (if leave then LoopEnd else LoopTop)\<rparr>)
                          | Exit1 \<Rightarrow> Exit1
                          | Uncaught \<Rightarrow> Uncaught
                          | Blocked \<Rightarrow> Done p))
      | _ \<Rightarrow> None)"
| "mn_step strip split ok do_kill LSignal p = Some (Ran (Done (mn_sigint do_kill p)))"

fun mn_run ::
  "(string \<Rightarrow> string) \<Rightarrow> (char \<Rightarrow> string \<Rightarrow> string list) \<Rightarrow> (u64 \<Rightarrow> bool) \<Rightarrow> (TestCtrl \<Rightarrow> TestCtrl) \<Rightarrow>
   loop_event list \<Rightarrow> MnProc \<Rightarrow> MnProc ctrl_out ran option" where
  "mn_run strip split ok do_kill [] p = Some (Ran (Done p))"
| "mn_run strip split ok do_kill (e # es) p =
     (case mn_step strip split ok do_kill e p of
        Some (Ran (Done q)) \<Rightarrow> mn_run strip split ok do_kill es q
      | r \<Rightarrow> r)"

fun mn_signals_in_poll ::
  "(string \<Rightarrow> string) \<Rightarrow> (char \<Rightarrow> string \<Rightarrow> string list) \<Rightarrow> (u64 \<Rightarrow> bool) \<Rightarrow> (TestCtrl \<Rightarrow> TestCtrl) \<Rightarrow>
   loop_event list \<Rightarrow> MnProc \<Rightarrow> bool" where
  "mn_signals_in_poll strip split ok do_kill [] p = True"
| "mn_signals_in_poll strip split ok do_kill (e # es) p \<longleftrightarrow>
     (e = LSignal \<longrightarrow> mn_pc p = LoopTop \<or> mn_pc p = LoopEnd) \<and>
     (case mn_step strip split ok do_kill e p of
        Some (Ran (Done q)) \<Rightarrow> mn_signals_in_poll strip split ok do_kill es q
      | _ \<Rightarrow> True)"

definition ctrl_ok :: "MnProc \<Rightarrow> bool" where
  "ctrl_ok p \<longleftrightarrow> mn_set p \<or> \<not> mn_keep p \<and> (mn_pc p = LoopTop \<or> mn_pc p = LoopEnd)"

lemma mn_step_ok:
  assumes "ctrl_ok p" "mn_step strip split ok do_kill e p = Some r" "e = LSignal \<longrightarrow> mn_pc p = LoopTop \<or> mn_pc p = LoopEnd"
  shows "r \<noteq> NullDeref" "r = Ran (Done q) \<Longrightarrow> ctrl_ok q"
proof -
  show "r \<noteq> NullDeref"
    using assms by (cases e) (auto simp: ctrl_ok_def split: if_splits loop_pc.splits)
  show "ctrl_ok q" if "r = Ran (Done q)"
  proof (cases e)
    case LDispatch
    with assms(1,2) that obtain s where s: "mn_pc p = GotLine s" "mn_set p"
      by (auto simp: ctrl_ok_def split: loop_pc.splits)
    with LDispatch assms(2) that show ?thesis
      by (auto simp: ctrl_ok_def split: ctrl_out.splits)
  qed (use assms that in \<open>auto simp: ctrl_ok_def mn_sigint_def split: if_splits\<close>)
qed

text \<open>
  Signals that arrive while the loop waits for input are safe. One that arrives while a line is
  read is not, and neither is one while \<open>r\<close> waits for the nodes.
\<close>

lemma mn_polled_signals_safe:
  "mn_signals_in_poll strip split ok do_kill es p \<Longrightarrow> ctrl_ok p \<Longrightarrow> mn_run strip split ok do_kill es p \<noteq> Some NullDeref"
proof (induction es arbitrary: p)
  case (Cons e es)
  show ?case
  proof (cases "mn_step strip split ok do_kill e p")
    case (Some r)
    note ok = mn_step_ok [OF Cons.prems(2) Some]
    have "r \<noteq> NullDeref" "\<And>q. r = Ran (Done q) \<Longrightarrow> ctrl_ok q" using ok Cons.prems(1) by auto
    with Cons Some show ?thesis by (auto split: ran.splits ctrl_out.splits)
  qed simp
qed simp

lemma new_not_ready:
  assumes "configs \<noteq> []"
  shows "\<not> is_all_ready (ctrl_new ports configs ps)"
proof -
  have f: "i \<in> c_id ` set cs \<or> map_of al i = Some False \<Longrightarrow>
      map_of (fold (\<lambda>c. AList.update (c_id c) False) cs al) i = Some False" for i cs al
    by (induction cs arbitrary: al) auto
  obtain c where "c \<in> set configs" using assms by (cases configs) auto
  then have "map_of (ready_nodes (ctrl_new ports configs ps)) (c_id c) = Some False"
    using f [of "c_id c" configs "[]"] by (auto simp: ctrl_new_def)
  from map_of_SomeD [OF this] show ?thesis by (auto simp: is_all_ready_def)
qed

lemma mn_late_signal:
  assumes "0 < num"
  shows "mn_run (\<lambda>s. s) split_on ok do_kill [LPoll PollIn, LSignal, LRead (Line ''k''), LDispatch] (multinode_main num ps) =
      Some NullDeref"
    "mn_run (\<lambda>s. s) split_on ok do_kill [LPoll PollIn, LRead (Line ''r''), LDispatch, LSignal, LDispatch]
       (multinode_main num ps) = Some NullDeref"
proof -
  obtain ports configs where m: "multinode_setup num = (configs, ports)" by fastforce
  have "length configs = num" using m by (auto simp: multinode_setup_def gen_local_instances_def Let_def)
  with assms have ne: "configs \<noteq> []" by auto
  define c where "c = ctrl_new ports configs ps"
  have b: "ctrl_run ok c = Blocked"
    using new_not_ready [OF ne, of ports ps]
    by (simp add: c_def ctrl_run_def connect_to_raft_nodes_def) (simp add: ctrl_new_def)
  have p: "multinode_main num ps = \<lparr>mn_ctrl = c, mn_set = True, mn_keep = True, mn_pc = LoopTop\<rparr>"
    by (simp add: multinode_main_def m c_def)
  show "mn_run (\<lambda>s. s) split_on ok do_kill [LPoll PollIn, LSignal, LRead (Line ''k''), LDispatch] (multinode_main num ps) =
      Some NullDeref"
    unfolding p by (simp add: mn_sigint_def uses_ctrl_def)
  show "mn_run (\<lambda>s. s) split_on ok do_kill [LPoll PollIn, LRead (Line ''r''), LDispatch, LSignal, LDispatch]
       (multinode_main num ps) = Some NullDeref"
    unfolding p by (simp add: mn_sigint_def uses_ctrl_def multinode_cmd_def multinode_words_def b)
qed

end
