(* ===== verification/Tracing.thy ===== *)
theory Tracing
  imports Net_Intercepter
begin

text \<open>
  Tracing of the RPCs: \<open>src/inc/common/utils/tracing.hpp\<close>, and the order in which the
  interceptors are installed on a channel (\<open>connect_peers\<close> in \<open>src/inc/rafty/impl/raft.ipp\<close>).
  Spans are shared objects: a span is an index into \<open>spans\<close>, and \<open>registry\<close> is the map of
  \<open>ServerSpanRegistry\<close> from calls to spans. A call is a number; a null context or a context
  without a call is \<open>None\<close>. One call of \<open>Intercept\<close> gets the hook points of its batch, with
  the messages (as text, \<open>None\<close> for a null pointer) and the status.

  OpenTelemetry is not part of the sources: the context of a new span, the current context,
  and the propagator's \<open>inject\<close> and \<open>extract\<close> are parameters; a span context is of any type
  \<open>'x\<close>, and \<open>extract\<close> gives a valid one or none. A span started without a parent in its options gets the
  current span as its parent. A span that has ended takes no attributes and no events, as OpenTelemetry documents.
  The multimap of the metadata is a list of pairs in which \<open>find\<close> gives the first of a key and
  \<open>emplace\<close> adds the last. Not here: the scopes, which only change the current context of a
  thread, the set-up of the exporters, and the debug output.

  Shown: while a call is being handled, the registry has its own span and no other, so that
  \<open>AddEvent\<close> reaches the span of the call it is made in; a call that the fault injection lets
  pass arrives with the caller's span as its parent, a call that it cuts is counted but leaves
  no span.
\<close>

section \<open>Definitions\<close>

datatype span_kind = kServer | kClient

record 'x span =
  sp_name :: string
  sp_kind :: span_kind
  sp_parent :: "'x option"
  sp_context :: 'x
  sp_attrs :: "(string \<times> string) list"
  sp_events :: "string list"
  sp_ended :: bool

definition SetAttribute :: "string \<Rightarrow> string \<Rightarrow> 'x span \<Rightarrow> 'x span" where
  "SetAttribute k v s = (if sp_ended s then s else s\<lparr>sp_attrs := AList.update k v (sp_attrs s)\<rparr>)"

definition SpanAddEvent :: "string \<Rightarrow> 'x span \<Rightarrow> 'x span" where
  "SpanAddEvent e s = (if sp_ended s then s else s\<lparr>sp_events := sp_events s @ [e]\<rparr>)"

definition EndSpan :: "'x span \<Rightarrow> 'x span" where
  "EndSpan s = s\<lparr>sp_ended := True\<rparr>"

record 'x trace =
  spans :: "'x span list"
  registry :: "(nat, nat) umap"

definition on_span :: "nat \<Rightarrow> ('x span \<Rightarrow> 'x span) \<Rightarrow> 'x trace \<Rightarrow> 'x trace" where
  "on_span i f t = t\<lparr>spans := (spans t)[i := f (spans t ! i)]\<rparr>"

definition MsgStr :: "string option \<Rightarrow> string" where
  "MsgStr m = (case m of Some s \<Rightarrow> s | None \<Rightarrow> [])"

text \<open>The registry.\<close>

definition reg_Put :: "nat option \<Rightarrow> nat \<Rightarrow> 'x trace \<Rightarrow> 'x trace" where
  "reg_Put ctx i t = (case ctx of None \<Rightarrow> t | Some call \<Rightarrow> t\<lparr>registry := AList.update call i (registry t)\<rparr>)"

definition reg_Erase :: "nat option \<Rightarrow> 'x trace \<Rightarrow> 'x trace" where
  "reg_Erase ctx t = (case ctx of None \<Rightarrow> t | Some call \<Rightarrow> t\<lparr>registry := AList.delete call (registry t)\<rparr>)"

definition reg_Get :: "nat option \<Rightarrow> 'x trace \<Rightarrow> nat option" where
  "reg_Get ctx t = (case ctx of None \<Rightarrow> None | Some call \<Rightarrow> map_of (registry t) call)"

text \<open>Metadata: \<open>find\<close>, and the two ends of the propagation.\<close>

definition md_get :: "string \<Rightarrow> (string \<times> string) list \<Rightarrow> string" where
  "md_get k md = (case map_of md k of Some v \<Rightarrow> v | None \<Rightarrow> [])"

definition MakeServerStartOptions ::
  "(string \<Rightarrow> string \<Rightarrow> 'x option \<Rightarrow> 'x option) \<Rightarrow> 'x option \<Rightarrow> (string \<times> string) list \<Rightarrow> 'x option" where
  "MakeServerStartOptions extract current md =
     extract (md_get ''traceparent'' md) (md_get ''tracestate'' md) current"

definition InjectClientContext ::
  "('x \<Rightarrow> (string \<times> string) list) \<Rightarrow> 'x \<Rightarrow> (string \<times> string) list option \<Rightarrow> (string \<times> string) list option" where
  "InjectClientContext inject current md = (case md of None \<Rightarrow> None | Some m \<Rightarrow> Some (m @ inject current))"

definition start_span :: "string \<Rightarrow> span_kind \<Rightarrow> 'x option \<Rightarrow> 'x option \<Rightarrow> 'x \<Rightarrow> 'x span" where
  "start_span name kind parent current ctx =
     SetAttribute ''rpc.method'' name (SetAttribute ''rpc.system'' ''grpc''
       \<lparr>sp_name = name, sp_kind = kind, sp_parent = (case parent of None \<Rightarrow> current | Some x \<Rightarrow> Some x), sp_context = ctx, sp_attrs = [], sp_events = [],
        sp_ended = False\<rparr>)"

record batch =
  recv_initial_metadata :: bool
  send_initial_metadata :: bool
  recv_message :: bool
  send_message :: bool
  send_status :: bool
  recv_status :: bool
  recv_close :: bool
  recv_msg :: "string option"
  send_msg :: "string option"
  status_code :: "nat option"

definition set_text :: "string \<Rightarrow> nat \<Rightarrow> string option \<Rightarrow> 'x trace \<Rightarrow> 'x trace" where
  "set_text k i m t = (if MsgStr m = [] then t else on_span i (SetAttribute k (MsgStr m)) t)"

text \<open>
  The interceptor of a call on the server: its span, if it was started, and the method, context
  and metadata of the call.
\<close>

record server_interceptor =
  si_span :: "nat option"
  si_method :: string
  si_ctx :: "nat option"
  si_metadata :: "(string \<times> string) list"

definition server_start ::
  "(string \<Rightarrow> string \<Rightarrow> 'x option \<Rightarrow> 'x option) \<Rightarrow> 'x option \<Rightarrow> 'x \<Rightarrow> batch \<Rightarrow> server_interceptor \<times> 'x trace \<Rightarrow>
   server_interceptor \<times> 'x trace" where
  "server_start extract current fresh b st =
     (case st of
        (si, t) \<Rightarrow>
          if si_span si = None \<and> recv_initial_metadata b
          then let i = length (spans t);
                   s = start_span (si_method si) kServer (MakeServerStartOptions extract current (si_metadata si)) current
                         fresh
               in (si\<lparr>si_span := Some i\<rparr>, reg_Put (si_ctx si) i (t\<lparr>spans := spans t @ [s]\<rparr>))
          else (si, t))"

definition server_record :: "batch \<Rightarrow> nat \<Rightarrow> nat option \<Rightarrow> 'x trace \<Rightarrow> 'x trace" where
  "server_record b i ctx t =
     (let t1 = (if recv_message b then set_text ''rpc.request'' i (recv_msg b) t else t);
          t2 = (if send_message b then set_text ''rpc.response'' i (send_msg b) t1 else t1);
          t3 = (if send_status b
                then on_span i (SetAttribute ''rpc.grpc.status_code'' (to_string (case status_code b of Some n \<Rightarrow> n | None \<Rightarrow> 0))) t2
                else t2)
      in if recv_close b then reg_Erase ctx (on_span i EndSpan t3) else t3)"

definition server_Intercept ::
  "(string \<Rightarrow> string \<Rightarrow> 'x option \<Rightarrow> 'x option) \<Rightarrow> 'x option \<Rightarrow> 'x \<Rightarrow> batch \<Rightarrow> server_interceptor \<times> 'x trace \<Rightarrow>
   server_interceptor \<times> 'x trace" where
  "server_Intercept extract current fresh b st =
     (case server_start extract current fresh b st of
        (si, t) \<Rightarrow>
          (case si_span si of
             None \<Rightarrow> (si, t)
           | Some i \<Rightarrow> (si, server_record b i (si_ctx si) t)))"

text \<open>The interceptor of a call on the client; the last component is the metadata of the call.\<close>

definition client_Intercept ::
  "('x \<Rightarrow> (string \<times> string) list) \<Rightarrow> string \<Rightarrow> 'x option \<Rightarrow> 'x \<Rightarrow> batch \<Rightarrow>
   nat option \<times> 'x trace \<times> (string \<times> string) list option \<Rightarrow>
   nat option \<times> 'x trace \<times> (string \<times> string) list option" where
  "client_Intercept inject rpc current fresh b st =
     (case st of
        (sp, t, md) \<Rightarrow>
          (let (sp1, t1, md1) =
                 (if send_initial_metadata b
                  then (Some (length (spans t)), t\<lparr>spans := spans t @ [start_span rpc kClient None current fresh]\<rparr>,
                        InjectClientContext inject fresh md)
                  else (sp, t, md))
           in case sp1 of
                None \<Rightarrow> (sp1, t1, md1)
              | Some i \<Rightarrow>
                  (let t2 = (if send_message b then set_text ''rpc.request'' i (send_msg b) t1 else t1);
                       t3 = (if recv_message b then set_text ''rpc.response'' i (recv_msg b) t2 else t2);
                       t4 = (if recv_status b
                             then on_span i EndSpan
                                    (case status_code b of
                                       None \<Rightarrow> t3
                                     | Some n \<Rightarrow> on_span i (SetAttribute ''rpc.grpc.status_code'' (to_string n)) t3)
                             else t3)
                   in (sp1, t4, md1))))"

text \<open>\<open>AddEvent\<close>; \<open>valid\<close> is \<open>IsValid\<close> of the span's context.\<close>

definition AddEvent :: "('x \<Rightarrow> bool) \<Rightarrow> nat option \<Rightarrow> string \<Rightarrow> 'x trace \<Rightarrow> 'x trace" where
  "AddEvent valid ctx name t =
     (case reg_Get ctx t of
        None \<Rightarrow> t
      | Some i \<Rightarrow> if valid (sp_context (spans t ! i)) then on_span i (SpanAddEvent name) t else t)"

text \<open>
  A unary call over a channel to a peer: the interceptors in the order \<open>connect_peers\<close> installs
  them (counting, fault injection, tracing), on the batch that sends metadata and message. A
  hijacked call does not go on to the next interceptor.
\<close>

record 'x channel =
  ch_count :: ByteCounter
  ch_net :: NetInterceptor
  ch_trace :: "'x trace"

definition send_batch :: "string \<Rightarrow> batch" where
  "send_batch msg =
     \<lparr>recv_initial_metadata = False, send_initial_metadata = True, recv_message = False, send_message = True,
      send_status = False, recv_status = False, recv_close = False, recv_msg = None, send_msg = Some msg,
      status_code = None\<rparr>"

definition channel_send ::
  "('x \<Rightarrow> (string \<times> string) list) \<Rightarrow> string \<Rightarrow> 'x option \<Rightarrow> 'x \<Rightarrow> nat list option \<Rightarrow> string \<Rightarrow> (string \<times> string) list \<Rightarrow>
   'x channel \<Rightarrow> (string \<times> string) list option \<times> 'x channel" where
  "channel_send inject rpc current fresh dump msg md ch =
     (let ch1 = ch\<lparr>ch_count := count_message PRE_SEND_MESSAGE dump (ch_count ch)\<rparr>
      in case Intercept (ch_net ch1) PRE_SEND_MESSAGE md of
           Hijack \<Rightarrow> (None, ch1)
         | Proceed \<Rightarrow>
             (case client_Intercept inject rpc current fresh (send_batch msg) (None, ch_trace ch1, Some md) of
                (sp, t, md1) \<Rightarrow> (md1, ch1\<lparr>ch_trace := t\<rparr>)))"

section \<open>The calls of a server\<close>

text \<open>
  All calls of a process: the interceptor of each call in progress, and whether the close of the
  call was seen. gRPC creates an interceptor for a call, runs it on the batches of the call, and
  destroys it after the close; the number of a call may be used again then.
\<close>

record 'x calls =
  ics :: "nat \<Rightarrow> server_interceptor option"
  closed_calls :: "nat set"
  tr :: "'x trace"

datatype 'x call_event =
    CallBegin nat string "(string \<times> string) list"
  | CallBatch nat "'x option" 'x batch
  | CallAddEvent nat string
  | CallEnd nat

definition CreateServerInterceptor :: "string \<Rightarrow> nat \<Rightarrow> (string \<times> string) list \<Rightarrow> server_interceptor" where
  "CreateServerInterceptor rpc call md = \<lparr>si_span = None, si_method = rpc, si_ctx = Some call, si_metadata = md\<rparr>"

fun call_exec ::
  "(string \<Rightarrow> string \<Rightarrow> 'x option \<Rightarrow> 'x option) \<Rightarrow> ('x \<Rightarrow> bool) \<Rightarrow> 'x call_event \<Rightarrow> 'x calls \<Rightarrow> 'x calls option" where
  "call_exec extract valid (CallBegin call rpc md) cs =
     (if ics cs call = None
      then Some (cs\<lparr>ics := (ics cs)(call \<mapsto> CreateServerInterceptor rpc call md),
                    closed_calls := closed_calls cs - {call}\<rparr>) else None)"
| "call_exec extract valid (CallBatch call current fresh b) cs =
     (case ics cs call of
        None \<Rightarrow> None
      | Some si \<Rightarrow>
          (case server_Intercept extract current fresh b (si, tr cs) of
             (si1, t1) \<Rightarrow>
               Some (cs\<lparr>ics := (ics cs)(call \<mapsto> si1), tr := t1,
                        closed_calls := (if recv_close b \<and> si_span si1 \<noteq> None then insert call (closed_calls cs)
                                         else closed_calls cs)\<rparr>)))"
| "call_exec extract valid (CallAddEvent call name) cs =
     Some (cs\<lparr>tr := AddEvent valid (Some call) name (tr cs)\<rparr>)"
| "call_exec extract valid (CallEnd call) cs =
     (case ics cs call of
        None \<Rightarrow> None
      | Some si \<Rightarrow>
          if si_span si = None \<or> call \<in> closed_calls cs then Some (cs\<lparr>ics := (ics cs)(call := None)\<rparr>) else None)"

definition calls_start :: "'x calls \<Rightarrow> bool" where
  "calls_start cs \<longleftrightarrow> cs = \<lparr>ics = (\<lambda>_. None), closed_calls = {}, tr = \<lparr>spans = [], registry = []\<rparr>\<rparr>"

definition calls_step ::
  "(string \<Rightarrow> string \<Rightarrow> 'x option \<Rightarrow> 'x option) \<Rightarrow> ('x \<Rightarrow> bool) \<Rightarrow> 'x calls \<Rightarrow> 'x call_event \<Rightarrow> 'x calls \<Rightarrow> bool" where
  "calls_step extract valid cs e cs' \<longleftrightarrow> call_exec extract valid e cs = Some cs'"

text \<open>The span of a call that is being handled.\<close>

definition open_span :: "'x calls \<Rightarrow> nat \<Rightarrow> nat option" where
  "open_span cs call =
     (case ics cs call of
        None \<Rightarrow> None
      | Some si \<Rightarrow> if call \<in> closed_calls cs then None else si_span si)"

definition reg_inv :: "'x calls \<Rightarrow> bool" where
  "reg_inv cs \<longleftrightarrow>
     distinct (map fst (registry (tr cs))) \<and>
     (\<forall>call. map_of (registry (tr cs)) call = open_span cs call) \<and>
     (\<forall>call si. ics cs call = Some si \<longrightarrow> si_ctx si = Some call \<and> (call \<in> closed_calls cs \<longrightarrow> si_span si \<noteq> None)) \<and>
     (\<forall>call si i. ics cs call = Some si \<longrightarrow> si_span si = Some i \<longrightarrow>
        i < length (spans (tr cs)) \<and> sp_name (spans (tr cs) ! i) = si_method si) \<and>
     (\<forall>call i. open_span cs call = Some i \<longrightarrow> \<not> sp_ended (spans (tr cs) ! i)) \<and>
     (\<forall>call si call' si' i. ics cs call = Some si \<longrightarrow> ics cs call' = Some si' \<longrightarrow>
        si_span si = Some i \<longrightarrow> si_span si' = Some i \<longrightarrow> call = call')"

text \<open>What the operations keep of the trace.\<close>

definition keeps_spans :: "'x trace \<Rightarrow> 'x trace \<Rightarrow> bool" where
  "keeps_spans t t' \<longleftrightarrow>
     map (\<lambda>s. (sp_name s, sp_ended s, sp_parent s)) (spans t') = map (\<lambda>s. (sp_name s, sp_ended s, sp_parent s)) (spans t) \<and> registry t' = registry t"

lemma keeps_spans_refl [intro]: "keeps_spans t t"
  by (simp add: keeps_spans_def)

lemma keeps_spans_trans [trans]: "keeps_spans t t' \<Longrightarrow> keeps_spans t' t'' \<Longrightarrow> keeps_spans t t''"
  by (simp add: keeps_spans_def)

lemma keeps_spans_if: "keeps_spans t t' \<Longrightarrow> keeps_spans t (if b then t' else t)"
  by (simp add: keeps_spans_def)

lemma span_ops_keep [simp]:
  "sp_name (SetAttribute k v s) = sp_name s" "sp_name (SpanAddEvent e s) = sp_name s" "sp_name (EndSpan s) = sp_name s"
  "sp_ended (SetAttribute k v s) = sp_ended s" "sp_ended (SpanAddEvent e s) = sp_ended s"
  "sp_parent (SetAttribute k v s) = sp_parent s" "sp_parent (SpanAddEvent e s) = sp_parent s"
  "sp_parent (EndSpan s) = sp_parent s"
  by (simp_all add: SetAttribute_def SpanAddEvent_def EndSpan_def)

lemma start_span_simps [simp]:
  "sp_name (start_span name kind parent current ctx) = name" "\<not> sp_ended (start_span name kind parent current ctx)"
  by (simp_all add: start_span_def)

lemma on_span_keeps:
  assumes "\<And>s. sp_name (f s) = sp_name s" "\<And>s. sp_ended (f s) = sp_ended s" "\<And>s. sp_parent (f s) = sp_parent s"
  shows "keeps_spans t (on_span i f t)"
proof (cases "i < length (spans t)")
  case True
  let ?g = "\<lambda>s. (sp_name s, sp_ended s, sp_parent s)"
  have "(map ?g (spans t))[i := ?g (f (spans t ! i))] = (map ?g (spans t))[i := map ?g (spans t) ! i]"
    using assms True by simp
  then have "(map ?g (spans t))[i := ?g (f (spans t ! i))] = map ?g (spans t)"
    by (simp only: list_update_id)
  then show ?thesis by (simp add: keeps_spans_def on_span_def map_update)
qed (simp add: keeps_spans_def on_span_def list_update_beyond)

lemma set_text_keeps: "keeps_spans t (set_text k i m t)"
  by (auto simp: set_text_def intro: on_span_keeps)

lemma keeps_spansD:
  assumes "keeps_spans t t'"
  shows "length (spans t') = length (spans t)" "registry t' = registry t"
    "j < length (spans t) \<Longrightarrow> sp_name (spans t' ! j) = sp_name (spans t ! j)"
    "j < length (spans t) \<Longrightarrow> sp_ended (spans t' ! j) = sp_ended (spans t ! j)"
    "j < length (spans t) \<Longrightarrow> sp_parent (spans t' ! j) = sp_parent (spans t ! j)"
proof -
  let ?g = "\<lambda>s. (sp_name s, sp_ended s, sp_parent s)"
  have m: "map ?g (spans t') = map ?g (spans t)" using assms by (simp add: keeps_spans_def)
  then show len: "length (spans t') = length (spans t)" using map_eq_imp_length_eq by blast
  show "registry t' = registry t" using assms by (simp add: keeps_spans_def)
  have n: "?g (spans t' ! j) = ?g (spans t ! j)" if "j < length (spans t)"
    using that len m by (metis (no_types, lifting) nth_map)
  show "sp_name (spans t' ! j) = sp_name (spans t ! j)" "sp_ended (spans t' ! j) = sp_ended (spans t ! j)"
    "sp_parent (spans t' ! j) = sp_parent (spans t ! j)"
    if "j < length (spans t)" using n [OF that] by simp_all
qed

text \<open>
  Recording a batch keeps the names of the spans; only the close of the call ends its span and
  changes the registry.
\<close>

lemma server_record_keeps:
  obtains u where "keeps_spans t u"
    "server_record b i ctx t = (if recv_close b then reg_Erase ctx (on_span i EndSpan u) else u)"
proof -
  define t1 where "t1 = (if recv_message b then set_text ''rpc.request'' i (recv_msg b) t else t)"
  define t2 where "t2 = (if send_message b then set_text ''rpc.response'' i (send_msg b) t1 else t1)"
  define t3 where "t3 = (if send_status b
      then on_span i (SetAttribute ''rpc.grpc.status_code'' (to_string (case status_code b of Some n \<Rightarrow> n | None \<Rightarrow> 0))) t2
      else t2)"
  have "keeps_spans t t1" unfolding t1_def by (intro keeps_spans_if set_text_keeps)
  also have "keeps_spans t1 t2" unfolding t2_def by (intro keeps_spans_if set_text_keeps)
  also have "keeps_spans t2 t3" unfolding t3_def by (intro keeps_spans_if on_span_keeps span_ops_keep)
  finally have "keeps_spans t t3" .
  moreover have "server_record b i ctx t = (if recv_close b then reg_Erase ctx (on_span i EndSpan t3) else t3)"
    unfolding server_record_def Let_def t3_def t2_def t1_def by (rule refl)
  ultimately show ?thesis by (rule that)
qed

text \<open>Each kind of event keeps the invariant.\<close>

lemma open_span_live:
  assumes "reg_inv cs" "open_span cs call = Some i"
  shows "i < length (spans (tr cs))" "\<not> sp_ended (spans (tr cs) ! i)"
  using assms by (auto simp: reg_inv_def open_span_def split: option.splits if_splits)

lemma reg_inv_keeps:
  assumes "reg_inv cs" "keeps_spans (tr cs) t"
  shows "reg_inv (cs\<lparr>tr := t\<rparr>)"
proof -
  have op: "open_span (cs\<lparr>tr := t\<rparr>) = open_span cs" by (simp add: fun_eq_iff open_span_def cong: option.case_cong)
  show ?thesis
    using assms(1) keeps_spansD [OF assms(2)] open_span_live(1) [OF assms(1)] by (simp add: reg_inv_def op)
qed

lemma reg_inv_AddEvent:
  assumes "reg_inv cs"
  shows "reg_inv (cs\<lparr>tr := AddEvent valid ctx name (tr cs)\<rparr>)"
  using assms
  by (rule reg_inv_keeps) (auto simp: AddEvent_def intro: on_span_keeps split: option.splits)

lemma reg_inv_begin:
  assumes "reg_inv cs" "ics cs call = None"
  shows "reg_inv (cs\<lparr>ics := (ics cs)(call \<mapsto> CreateServerInterceptor rpc call md), closed_calls := closed_calls cs - {call}\<rparr>)"
  using assms by (auto simp: reg_inv_def open_span_def CreateServerInterceptor_def cong: option.case_cong split: if_splits)

lemma reg_inv_end:
  assumes "reg_inv cs" "ics cs call = Some si" "si_span si = None \<or> call \<in> closed_calls cs"
  shows "reg_inv (cs\<lparr>ics := (ics cs)(call := None)\<rparr>)"
  using assms by (auto simp: reg_inv_def open_span_def cong: option.case_cong split: if_splits)

lemma reg_inv_start:
  assumes "reg_inv cs" "ics cs call = Some si" "server_start extract current fresh b (si, tr cs) = (si0, t0)"
  shows "reg_inv (cs\<lparr>ics := (ics cs)(call \<mapsto> si0), tr := t0\<rparr>)"
proof (cases "si_span si = None \<and> recv_initial_metadata b")
  case False
  with assms(3) have "si0 = si" "t0 = tr cs" by (auto simp: server_start_def)
  with assms(1,2) show ?thesis by (simp add: fun_upd_idem)
next
  case True
  let ?i = "length (spans (tr cs))"
  have inv: "\<And>c. map_of (registry (tr cs)) c = open_span cs c" "distinct (map fst (registry (tr cs)))"
    "\<And>c s. ics cs c = Some s \<Longrightarrow> si_ctx s = Some c \<and> (c \<in> closed_calls cs \<longrightarrow> si_span s \<noteq> None)"
    "\<And>c s i. ics cs c = Some s \<Longrightarrow> si_span s = Some i \<Longrightarrow> i < ?i \<and> sp_name (spans (tr cs) ! i) = si_method s"
    "\<And>c s c' s' i. ics cs c = Some s \<Longrightarrow> ics cs c' = Some s' \<Longrightarrow> si_span s = Some i \<Longrightarrow> si_span s' = Some i \<Longrightarrow> c = c'"
    using assms(1) by (simp_all add: reg_inv_def)
  have ctx: "si_ctx si = Some call" "call \<notin> closed_calls cs" using inv(3) [OF assms(2)] True by auto
  define s where "s = start_span (si_method si) kServer (MakeServerStartOptions extract current (si_metadata si)) current fresh"
  have s: "sp_name s = si_method si" by (simp add: s_def)
  have t0: "t0 = reg_Put (Some call) ?i (tr cs\<lparr>spans := spans (tr cs) @ [s]\<rparr>)" "si0 = si\<lparr>si_span := Some ?i\<rparr>"
    using assms(3) True ctx by (auto simp: server_start_def Let_def s_def)
  let ?cs = "cs\<lparr>ics := (ics cs)(call \<mapsto> si0), tr := t0\<rparr>"
  have op: "open_span ?cs c = (if c = call then Some ?i else open_span cs c)" for c
    using ctx t0 by (simp add: open_span_def cong: option.case_cong)
  have reg: "registry t0 = AList.update call ?i (registry (tr cs))" using t0 by (simp add: reg_Put_def)
  have "\<forall>c. map_of (registry t0) c = open_span ?cs c" using inv(1) by (simp add: op reg update_conv)
  moreover have "distinct (map fst (registry t0))"
    using inv(2) t0 by (simp add: reg_Put_def distinct_update)
  moreover have sp: "spans t0 = spans (tr cs) @ [s]" using t0 by (simp add: reg_Put_def)
  moreover have "\<not> sp_ended (spans t0 ! j)" if "open_span ?cs c = Some j" for c j
    using that open_span_live [OF assms(1)] by (auto simp: op sp s_def nth_append split: if_splits)
  ultimately show ?thesis
    using inv(3-5) s t0(2) ctx unfolding reg_inv_def
    by (auto simp: nth_append dest!: inv(4) split: if_splits)
qed

lemma reg_inv_close:
  assumes u: "reg_inv cs" and c: "ics cs call = Some si" "si_span si = Some i"
  shows "reg_inv (cs\<lparr>tr := reg_Erase (Some call) (on_span i EndSpan (tr cs)), closed_calls := insert call (closed_calls cs)\<rparr>)"
    (is "reg_inv ?cs")
proof -
  let ?t = "reg_Erase (Some call) (on_span i EndSpan (tr cs))"
  have op: "open_span ?cs c = (if c = call then None else open_span cs c)" for c
    using c by (simp add: open_span_def cong: option.case_cong)
  have other: "j \<noteq> i" if "open_span cs c = Some j" "c \<noteq> call" for c j
    using that u c unfolding reg_inv_def open_span_def by (auto split: option.splits if_splits)
  have "map_of (registry ?t) c = open_span ?cs c" for c
    using u op by (simp add: reg_inv_def reg_Erase_def on_span_def delete_conv)
  moreover have "distinct (map fst (registry ?t))"
    using u by (simp add: reg_inv_def reg_Erase_def on_span_def distinct_delete)
  moreover have "\<not> sp_ended (spans ?t ! j)" if "open_span ?cs c = Some j" for c j
  proof -
    have c: "open_span cs c = Some j" "c \<noteq> call" using that op by (auto split: if_splits)
    then have "i \<noteq> j" using other by blast
    then show ?thesis using open_span_live(2) [OF u c(1)] by (simp add: reg_Erase_def on_span_def)
  qed
  moreover have "length (spans ?t) = length (spans (tr cs))" by (simp add: reg_Erase_def on_span_def)
  moreover have "sp_name (spans ?t ! j) = sp_name (spans (tr cs) ! j)" for j
    by (cases "j = i"; cases "j < length (spans (tr cs))") (auto simp: reg_Erase_def on_span_def nth_list_update list_update_beyond)
  ultimately show ?thesis using u c unfolding reg_inv_def by auto
qed

lemma reg_inv_record:
  assumes "reg_inv cs" "ics cs call = Some si" "si_span si = Some i"
  shows "reg_inv (cs\<lparr>tr := server_record b i (si_ctx si) (tr cs),
    closed_calls := (if recv_close b then insert call (closed_calls cs) else closed_calls cs)\<rparr>)"
proof -
  obtain u where k: "keeps_spans (tr cs) u"
    and r: "server_record b i (si_ctx si) (tr cs) = (if recv_close b then reg_Erase (si_ctx si) (on_span i EndSpan u) else u)"
    by (rule server_record_keeps)
  have ctx: "si_ctx si = Some call" using assms(1,2) by (simp add: reg_inv_def)
  have u: "reg_inv (cs\<lparr>tr := u\<rparr>)" using assms(1) k by (rule reg_inv_keeps)
  with reg_inv_close [OF u, of call si i] r ctx assms(2,3) show ?thesis by simp
qed

interpretation sr: transition_invariant calls_start "calls_step xt valid" reg_inv for xt valid
proof unfold_locales
  show "reg_inv cs" if "calls_start cs" for cs
    using that by (simp add: calls_start_def reg_inv_def open_span_def)
  show "reg_inv cs'" if inv: "reg_inv cs" and st: "calls_step xt valid cs e cs'" for cs e cs'
  proof (cases e)
    case (CallBatch call current fresh b)
    with st obtain si where si: "ics cs call = Some si" by (auto simp: calls_step_def split: option.splits)
    obtain si0 t0 where s0: "server_start xt current fresh b (si, tr cs) = (si0, t0)" by fastforce
    have i0: "reg_inv (cs\<lparr>ics := (ics cs)(call \<mapsto> si0), tr := t0\<rparr>)" using inv si s0 by (rule reg_inv_start)
    show ?thesis
    proof (cases "si_span si0")
      case None
      with st CallBatch si s0 i0 show ?thesis by (auto simp: calls_step_def server_Intercept_def)
    next
      case (Some i)
      with st CallBatch si s0 reg_inv_record [OF i0, of call si0 i b] show ?thesis
        by (auto simp: calls_step_def server_Intercept_def split: if_splits)
    qed
  qed (use inv st in \<open>auto simp: calls_step_def reg_inv_begin reg_inv_end reg_inv_AddEvent split: option.splits if_splits\<close>)
qed

text \<open>What the invariant gives.\<close>

lemma AddEvent_open:
  assumes "reg_inv cs"
  shows "AddEvent valid (Some call) name (tr cs) =
    (case open_span cs call of
       None \<Rightarrow> tr cs
     | Some i \<Rightarrow> if valid (sp_context (spans (tr cs) ! i)) then on_span i (SpanAddEvent name) (tr cs) else tr cs)"
  using assms by (simp add: AddEvent_def reg_Get_def reg_inv_def)

lemma open_span_own:
  assumes "reg_inv cs" "open_span cs call = Some i"
  shows "\<exists>si. ics cs call = Some si \<and> sp_name (spans (tr cs) ! i) = si_method si"
    "\<forall>call'. open_span cs call' = Some i \<longrightarrow> call' = call"
  using assms unfolding reg_inv_def open_span_def by (auto split: option.splits if_splits)

lemma idle_registry:
  assumes "ics cs = (\<lambda>_. None)" "reg_inv cs"
  shows "registry (tr cs) = []"
proof (cases "registry (tr cs)")
  case (Cons p ps)
  have "map_of (registry (tr cs)) (fst p) = open_span cs (fst p)" using assms(2) by (simp add: reg_inv_def)
  with Cons assms(1) show ?thesis by (cases p) (simp add: open_span_def)
qed simp

text \<open>The span of a call that is sent, and the span of a call that arrives with its metadata.\<close>

definition sent_span :: "string \<Rightarrow> 'x option \<Rightarrow> 'x \<Rightarrow> string \<Rightarrow> 'x span" where
  "sent_span rpc current fresh msg =
     (let s = start_span rpc kClient None current fresh
      in if msg = [] then s else SetAttribute ''rpc.request'' msg s)"

lemma client_send:
  "client_Intercept inject rpc current fresh (send_batch msg) (None, t, Some md) =
     (Some (length (spans t)), t\<lparr>spans := spans t @ [sent_span rpc current fresh msg]\<rparr>, Some (md @ inject fresh))"
  by (simp add: client_Intercept_def send_batch_def InjectClientContext_def set_text_def MsgStr_def on_span_def
      sent_span_def Let_def)

lemma sent_span_simps:
  "sp_kind (sent_span rpc current fresh msg) = kClient"
  "sp_parent (sent_span rpc current fresh msg) = current"
  "sp_context (sent_span rpc current fresh msg) = fresh"
  by (simp_all add: sent_span_def start_span_def SetAttribute_def Let_def)

lemma server_traced:
  assumes "\<forall>x c. extract (md_get ''traceparent'' (inject x)) (md_get ''tracestate'' (inject x)) c = Some x"
    and b: "recv_initial_metadata b" "\<not> recv_close b"
  shows "case server_Intercept extract current fresh' b
      (CreateServerInterceptor rpc call (create_context m n @ inject fresh), t) of
    (si, t') \<Rightarrow>
      si_span si = Some (length (spans t)) \<and> reg_Get (Some call) t' = Some (length (spans t)) \<and>
      sp_name (spans t' ! length (spans t)) = rpc \<and> sp_parent (spans t' ! length (spans t)) = Some fresh"
proof -
  let ?i = "length (spans t)"
  let ?t = "reg_Put (Some call) ?i
     (t\<lparr>spans := spans t @ [start_span rpc kServer (Some fresh) current fresh']\<rparr>)"
  have md: "md_get k (create_context m n @ ms) = md_get k ms" if "k \<noteq> ''from''" "k \<noteq> ''to''" for k ms
    using that by (simp add: md_get_def create_context_def)
  have p: "MakeServerStartOptions extract current (create_context m n @ inject fresh) = Some fresh"
    using assms(1) by (simp add: MakeServerStartOptions_def md)
  obtain u where k: "keeps_spans ?t u" and r: "server_record b ?i (Some call) ?t = u"
    by (rule server_record_keeps [of ?t b ?i "Some call"]) (simp add: b)
  have "?i < length (spans ?t)" by (simp add: reg_Put_def)
  note u = keeps_spansD(2) [OF k] keeps_spansD(3,5) [OF k this]
  have "server_Intercept extract current fresh' b
      (CreateServerInterceptor rpc call (create_context m n @ inject fresh), t) =
    (\<lparr>si_span = Some ?i, si_method = rpc, si_ctx = Some call, si_metadata = create_context m n @ inject fresh\<rparr>, u)"
    by (simp add: server_Intercept_def server_start_def CreateServerInterceptor_def p Let_def b r)
  then show ?thesis
    using u by (simp add: reg_Get_def reg_Put_def update_conv start_span_def)
qed

section \<open>Properties\<close>

text \<open>
  C37: A handler's \<open>AddEvent\<close> reaches the span of its own call. In every state of a server, after
  any interleaving of calls: if the call was started and not closed, its span exists, has the
  name of its method, has not ended, belongs to no other open call, and \<open>AddEvent\<close> appends the
  event to this span and changes nothing else; before the start and after the close it changes
  nothing. When no call is in progress the registry is empty.
\<close>

theorem events_reach_own_span:
  assumes "reach calls_start (calls_step extract valid) cs"
  shows "(case open_span cs call of
      None \<Rightarrow> AddEvent valid (Some call) name (tr cs) = tr cs
    | Some i \<Rightarrow>
        i < length (spans (tr cs)) \<and>
        (\<exists>si. ics cs call = Some si \<and> sp_name (spans (tr cs) ! i) = si_method si) \<and>
        (\<forall>call'. open_span cs call' = Some i \<longrightarrow> call' = call) \<and>
        (valid (sp_context (spans (tr cs) ! i)) \<longrightarrow>
          AddEvent valid (Some call) name (tr cs) =
            tr cs\<lparr>spans := (spans (tr cs))[i := (spans (tr cs) ! i)\<lparr>sp_events := sp_events (spans (tr cs) ! i) @ [name]\<rparr>]\<rparr>)) \<and>
    (ics cs = (\<lambda>_. None) \<longrightarrow> registry (tr cs) = [])"
proof (intro conjI impI)
  have inv: "reg_inv cs" using assms by (rule sr.reach_inv)
  show "registry (tr cs) = []" if "ics cs = (\<lambda>_. None)"
    using that inv by (rule idle_registry)
  note ev = AddEvent_open [OF inv, of valid call name]
  show "case open_span cs call of
      None \<Rightarrow> AddEvent valid (Some call) name (tr cs) = tr cs
    | Some i \<Rightarrow>
        i < length (spans (tr cs)) \<and>
        (\<exists>si. ics cs call = Some si \<and> sp_name (spans (tr cs) ! i) = si_method si) \<and>
        (\<forall>call'. open_span cs call' = Some i \<longrightarrow> call' = call) \<and>
        (valid (sp_context (spans (tr cs) ! i)) \<longrightarrow>
          AddEvent valid (Some call) name (tr cs) =
            tr cs\<lparr>spans := (spans (tr cs))[i := (spans (tr cs) ! i)\<lparr>sp_events := sp_events (spans (tr cs) ! i) @ [name]\<rparr>]\<rparr>)"
  proof (cases "open_span cs call")
    case None
    with ev show ?thesis by simp
  next
    case (Some i)
    have "valid (sp_context (spans (tr cs) ! i)) \<longrightarrow>
        AddEvent valid (Some call) name (tr cs) =
          tr cs\<lparr>spans := (spans (tr cs))[i := (spans (tr cs) ! i)\<lparr>sp_events := sp_events (spans (tr cs) ! i) @ [name]\<rparr>]\<rparr>"
      using ev Some open_span_live(2) [OF inv Some] by (simp add: on_span_def SpanAddEvent_def)
    then show ?thesis
      unfolding Some option.case using open_span_live(1) [OF inv Some] open_span_own [OF inv Some] by blast
  qed
qed

definition demo_extract :: "string \<Rightarrow> string \<Rightarrow> string option \<Rightarrow> string option" where
  "demo_extract tp ts current = (if tp = [] then None else Some tp)"

definition demo_batch :: "bool \<Rightarrow> bool \<Rightarrow> batch" where
  "demo_batch first close =
     \<lparr>recv_initial_metadata = first, send_initial_metadata = False, recv_message = first, send_message = False,
      send_status = False, recv_status = False, recv_close = close, recv_msg = Some ''m'', send_msg = None,
      status_code = None\<rparr>"

definition two_calls :: "string call_event list" where
  "two_calls =
     [CallBegin 7 ''Vote'' [(''traceparent'', ''a'')], CallBegin 8 ''Append'' [],
      CallBatch 8 None ''s8'' (demo_batch True False), CallBatch 7 None ''s7'' (demo_batch True False),
      CallBatch 8 None ''x'' (demo_batch False True)]"

theorem events_reach_own_span_witness:
  "\<exists>cs. reach calls_start (calls_step demo_extract (\<lambda>_. True)) cs \<and> open_span cs 7 = Some 1 \<and> open_span cs 8 = None \<and>
     sp_events (spans (AddEvent (\<lambda>_. True) (Some 7) ''e'' (tr cs)) ! 1) = [''e''] \<and>
     AddEvent (\<lambda>_. True) (Some 8) ''e'' (tr cs) = tr cs"
proof -
  let ?s = "\<lparr>ics = (\<lambda>_. None), closed_calls = {}, tr = \<lparr>spans = [], registry = []\<rparr>\<rparr> :: string calls"
  have "\<exists>cs. run_steps (call_exec demo_extract (\<lambda>_. True)) two_calls ?s = Some cs \<and> open_span cs 7 = Some 1 \<and>
      open_span cs 8 = None \<and> sp_events (spans (tr cs) ! 1) = []"
    by (rule case_option_ex) code_simp
  then obtain cs where cs: "run_steps (call_exec demo_extract (\<lambda>_. True)) two_calls ?s = Some cs"
    "open_span cs 7 = Some 1" "open_span cs 8 = None" "sp_events (spans (tr cs) ! 1) = []" by blast
  have r: "reach calls_start (calls_step demo_extract (\<lambda>_. True)) cs"
    using cs(1) by (rule run_steps_reach) (auto simp: calls_start_def calls_step_def intro: reach_start)
  have "1 < length (spans (tr cs))" "AddEvent (\<lambda>_. True) (Some 7) ''e'' (tr cs) =
      tr cs\<lparr>spans := (spans (tr cs))[1 := (spans (tr cs) ! 1)\<lparr>sp_events := sp_events (spans (tr cs) ! 1) @ [''e'']\<rparr>]\<rparr>"
    using events_reach_own_span [OF r, of 7 "''e''"] unfolding cs(2) option.case by blast+
  then have "sp_events (spans (AddEvent (\<lambda>_. True) (Some 7) ''e'' (tr cs)) ! 1) = [''e'']" using cs(4) by simp
  moreover have "AddEvent (\<lambda>_. True) (Some 8) ''e'' (tr cs) = tr cs"
    using events_reach_own_span [OF r, of 8 "''e''"] unfolding cs(3) option.case by blast
  ultimately show ?thesis using r cs(2,3) by blast
qed

text \<open>
  C38: A trace follows a call between two nodes, and fault injection is visible in the counters
  only. On a channel with the interceptors of \<open>connect_peers\<close>, every call is counted. A call that
  is cut sends nothing and starts no span. A call that is not cut starts a client span whose
  parent is the current one; the server span that the other side starts from the metadata it
  receives has this client span as its parent, is named after the method, and is registered for
  the call. The propagator is a parameter, of which the round trip of a context through the
  headers is assumed.
\<close>

theorem trace_follows_call:
  assumes roundtrip: "\<forall>x c. extract (md_get ''traceparent'' (inject x)) (md_get ''tracestate'' (inject x)) c = Some x"
    and send: "channel_send inject rpc current fresh dump msg (create_context m n) ch = (sent, ch')"
    and batch: "recv_initial_metadata b" "\<not> recv_close b"
  shows "ch_count ch' = count_message PRE_SEND_MESSAGE dump (ch_count ch) \<and>
    (case sent of
       None \<Rightarrow> is_cut (ch_net ch) (to_string m) (to_string n) \<and> ch_trace ch' = ch_trace ch
     | Some md \<Rightarrow>
         \<not> is_cut (ch_net ch) (to_string m) (to_string n) \<and>
         (\<exists>s. spans (ch_trace ch') = spans (ch_trace ch) @ [s] \<and> sp_kind s = kClient \<and> sp_parent s = current \<and>
              sp_context s = fresh) \<and>
         (case server_Intercept extract cur' fresh' b (CreateServerInterceptor rpc call md, t) of
            (si, t') \<Rightarrow>
              si_span si = Some (length (spans t)) \<and> reg_Get (Some call) t' = Some (length (spans t)) \<and>
              sp_name (spans t' ! length (spans t)) = rpc \<and>
              sp_parent (spans t' ! length (spans t)) = Some fresh))"
proof (cases "is_cut (ch_net ch) (to_string m) (to_string n)")
  case True
  then have "Intercept (ch_net ch) PRE_SEND_MESSAGE (create_context m n) = Hijack" by (simp add: intercept_create_context)
  with True send show ?thesis by (auto simp: channel_send_def Let_def)
next
  case False
  then have pr: "Intercept (ch_net ch) PRE_SEND_MESSAGE (create_context m n) = Proceed"
    using intercept_create_context [of "ch_net ch" m n] by (cases "Intercept (ch_net ch) PRE_SEND_MESSAGE (create_context m n)") auto
  have sent: "sent = Some (create_context m n @ inject fresh)" "ch_count ch' = count_message PRE_SEND_MESSAGE dump (ch_count ch)"
    "spans (ch_trace ch') = spans (ch_trace ch) @ [sent_span rpc current fresh msg]"
    using send by (auto simp: channel_send_def Let_def pr client_send)
  show ?thesis
    using False sent sent_span_simps [of rpc current fresh msg]
      server_traced [OF roundtrip batch, of t call rpc fresh cur' fresh' m n]
    by simp
qed

definition demo_inject :: "string \<Rightarrow> (string \<times> string) list" where
  "demo_inject x = [(''traceparent'', ''00-'' @ x)]"

definition demo_extract3 :: "string \<Rightarrow> string \<Rightarrow> string option \<Rightarrow> string option" where
  "demo_extract3 tp ts current = (if take 3 tp = ''00-'' then Some (drop 3 tp) else current)"

theorem trace_follows_call_witness:
  "\<exists>md ch'. channel_send demo_inject ''Vote'' None ''c'' None ''m'' (create_context 1 2)
       \<lparr>ch_count = \<lparr>total_bytes_sent = 0, total_rpc_count = 0\<rparr>, ch_net = \<lparr>ni_type = NETWORK_FAILURE, rank1 = {}, rank2 = {}\<rparr>,
        ch_trace = \<lparr>spans = [], registry = []\<rparr>\<rparr> = (Some md, ch') \<and>
     (case server_Intercept demo_extract3 None ''s'' (demo_batch True False)
        (CreateServerInterceptor ''Vote'' 5 md, \<lparr>spans = [], registry = []\<rparr>) of
        (si, t') \<Rightarrow> sp_parent (spans t' ! 0) = Some ''c'')"
proof -
  let ?ch = "\<lparr>ch_count = \<lparr>total_bytes_sent = 0, total_rpc_count = 0\<rparr>, ch_net = \<lparr>ni_type = NETWORK_FAILURE, rank1 = {}, rank2 = {}\<rparr>,
        ch_trace = \<lparr>spans = [], registry = []\<rparr>\<rparr> :: string channel"
  obtain sent ch' where s: "channel_send demo_inject ''Vote'' None ''c'' None ''m'' (create_context 1 2) ?ch = (sent, ch')"
    by fastforce
  have rt: "\<forall>x c. demo_extract3 (md_get ''traceparent'' (demo_inject x)) (md_get ''tracestate'' (demo_inject x)) c = Some x"
    by (simp add: demo_extract3_def demo_inject_def md_get_def)
  have b: "recv_initial_metadata (demo_batch True False)" "\<not> recv_close (demo_batch True False)"
    by (simp_all add: demo_batch_def)
  have nc: "\<not> is_cut (ch_net ?ch) (to_string 1) (to_string 2)" by (simp add: is_cut_def)
  show ?thesis
    using trace_follows_call [OF rt s b, of "\<lparr>spans = [], registry = []\<rparr>" 5 None "''s''"] nc s
    by (cases sent) (auto split: prod.splits)
qed

end
